(* ===== verification/Prelude.thy ===== *)
theory Prelude
  imports Main "HOL-Library.Word" "HOL-Library.Multiset"
begin

unbundle bit_operations_syntax

text \<open>
  Shared vocabulary of the development: the machine integers of the target
  (\<^verbatim>\<open>x86_64-min-rust-os.json\<close> has 64-bit pointers, so \<open>usize\<close> is a 64-bit word), panics as
  values, the checked arithmetic of a build with overflow checks, and the
  generic lemmas the component theories rest on.
\<close>

type_synonym u8 = "8 word"
type_synonym u16 = "16 word"
type_synonym u32 = "32 word"
type_synonym u64 = "64 word"
type_synonym usize = "64 word"

text \<open>Rust strings are UTF-8 byte sequences; the kernel only looks at their bytes.\<close>

type_synonym bytes = "u8 list"

abbreviation ascii :: "string \<Rightarrow> bytes" where
  "ascii s \<equiv> map of_char s"

named_theorems rust_defs \<open>definitions of the modelled Rust primitives\<close>
named_theorems rbind_simps \<open>rules that unfold sequencing of fallible code\<close>

section \<open>Panics and fallible code\<close>

text \<open>
  The kernel is built with \<open>panic-strategy: abort\<close>: a panic never unwinds, so a
  computation either panics (\<open>Inl\<close>) or returns (\<open>Inr\<close>).
\<close>

datatype panic =
    Overflow                 \<comment> \<open>arithmetic overflow (the dev profile checks it)\<close>
  | IndexOutOfBounds
  | AssertFailed
  | UnwrapNone
  | UnwrapErr
  | Expect string            \<comment> \<open>\<open>expect(msg)\<close> on \<open>None\<close> or \<open>Err\<close>\<close>
  | Message string           \<comment> \<open>\<open>panic!(msg)\<close>\<close>
  | Fault u64                \<comment> \<open>access to memory that holds no value of the expected type\<close>

type_synonym 'a result = "panic + 'a"

definition rbind :: "'e + 'a \<Rightarrow> ('a \<Rightarrow> 'e + 'b) \<Rightarrow> 'e + 'b" where
  "rbind m f = (case m of Inl e \<Rightarrow> Inl e | Inr x \<Rightarrow> f x)"

lemma rbind_Inl [simp, rbind_simps]: "rbind (Inl e) f = Inl e"
  by (simp add: rbind_def)

lemma rbind_Inr [simp, rbind_simps]: "rbind (Inr x) f = f x"
  by (simp add: rbind_def)

lemma rbind_eq_Inr [rbind_simps]:
  "rbind m f = Inr y \<longleftrightarrow> (\<exists>x. m = Inr x \<and> f x = Inr y)"
  by (cases m) auto

lemma rbind_eq_Inl [rbind_simps]:
  "rbind m f = Inl e \<longleftrightarrow> m = Inl e \<or> (\<exists>x. m = Inr x \<and> f x = Inl e)"
  by (cases m) auto

lemma rbind_cong [fundef_cong]:
  "m = m' \<Longrightarrow> (\<And>x. m' = Inr x \<Longrightarrow> f x = g x) \<Longrightarrow> rbind m f = rbind m' g"
  by (cases m') auto

lemma rbind_assoc: "rbind (rbind m f) g = rbind m (\<lambda>x. rbind (f x) g)"
  by (cases m) auto

text \<open>Code that may also not return: \<open>None\<close>.\<close>

definition obind :: "'a result option \<Rightarrow> ('a \<Rightarrow> 'b result option) \<Rightarrow> 'b result option" where
  "obind m f = (case m of None \<Rightarrow> None | Some (Inl e) \<Rightarrow> Some (Inl e) | Some (Inr x) \<Rightarrow> f x)"

lemma obind_simps [simp]:
  "obind None f = None" "obind (Some (Inl e)) f = Some (Inl e)" "obind (Some (Inr x)) f = f x"
  by (simp_all add: obind_def)

definition rassert :: "bool \<Rightarrow> unit result" where
  [rust_defs]: "rassert b = (if b then Inr () else Inl AssertFailed)"

lemma rassert_eq_Inr [simp]: "rassert b = Inr u \<longleftrightarrow> b"
  by (simp add: rassert_def)

lemma rassert_True [simp]: "rassert True = Inr ()"
  by (simp add: rassert_def)

definition expect :: "string \<Rightarrow> 'a option \<Rightarrow> 'a result" where
  [rust_defs]: "expect msg x = (case x of None \<Rightarrow> Inl (Expect msg) | Some v \<Rightarrow> Inr v)"

lemma expect_simps [simp]:
  "expect msg None = Inl (Expect msg)" "expect msg (Some v) = Inr v"
  by (simp_all add: expect_def)

lemma expect_eq_Inr [simp]: "expect msg x = Inr v \<longleftrightarrow> x = Some v"
  by (cases x) auto

text \<open>Indexing an array or a slice panics out of bounds.\<close>

definition index_at :: "'a list \<Rightarrow> nat \<Rightarrow> 'a result" where
  [rust_defs]: "index_at xs i = (if i < length xs then Inr (xs ! i) else Inl IndexOutOfBounds)"

lemma index_at_ok [simp]: "i < length xs \<Longrightarrow> index_at xs i = Inr (xs ! i)"
  by (simp add: index_at_def)

lemma index_at_out [simp]: "\<not> i < length xs \<Longrightarrow> index_at xs i = Inl IndexOutOfBounds"
  by (simp add: index_at_def)

text \<open>\<open>Iterator::position\<close>: the index of the first element that satisfies the predicate.\<close>

fun position :: "('a \<Rightarrow> bool) \<Rightarrow> 'a list \<Rightarrow> nat option" where
  "position P [] = None"
| "position P (x # xs) = (if P x then Some 0 else map_option Suc (position P xs))"

lemma position_eq_None: "position P xs = None \<longleftrightarrow> (\<forall>x \<in> set xs. \<not> P x)"
  by (induction xs) auto

lemma position_eq_Some:
  "position P xs = Some i \<longleftrightarrow> i < length xs \<and> P (xs ! i) \<and> (\<forall>j < i. \<not> P (xs ! j))"
proof (induction xs arbitrary: i)
  case (Cons x xs)
  show ?case
  proof (cases i)
    case (Suc k)
    then show ?thesis by (auto simp: Cons.IH less_Suc_eq_0_disj)
  qed auto
qed simp

text \<open>A \<open>for\<close> loop over the items of an iterator, with a body that may panic.\<close>

fun rfold :: "('a \<Rightarrow> 's \<Rightarrow> 's result) \<Rightarrow> 'a list \<Rightarrow> 's \<Rightarrow> 's result" where
  "rfold f [] s = Inr s"
| "rfold f (x # xs) s = rbind (f x s) (rfold f xs)"

lemma rfold_append: "rfold f (xs @ ys) s = rbind (rfold f xs s) (rfold f ys)"
  by (induction xs arbitrary: s) (auto simp: rbind_assoc intro: rbind_cong)

text \<open>The rule for counting loops: an invariant that each round carries on.\<close>

lemma rfold_upt:
  assumes "P a s" "a \<le> n"
    and "\<And>i s. a \<le> i \<Longrightarrow> i < n \<Longrightarrow> P i s \<Longrightarrow> \<exists>s'. f i s = Inr s' \<and> P (Suc i) s'"
  shows "\<exists>s'. rfold f [a..<n] s = Inr s' \<and> P n s'"
  using assms(2,3)
proof (induction n)
  case (Suc n)
  show ?case
  proof (cases "a = Suc n")
    case False
    then have "a \<le> n" using Suc.prems(1) by simp
    with Suc obtain t where t: "rfold f [a..<n] s = Inr t" "P n t" by (meson less_Suc_eq)
    with Suc.prems(2) [of n t] \<open>a \<le> n\<close> show ?thesis by (auto simp: rfold_append)
  qed (use assms(1) in simp)
qed (use assms(1) in simp)

lemma rfold_invariant:
  assumes "P s" "\<And>x s. x \<in> set xs \<Longrightarrow> P s \<Longrightarrow> \<exists>s'. f x s = Inr s' \<and> P s'"
  shows "\<exists>s'. rfold f xs s = Inr s' \<and> P s'"
  using assms by (induction xs arbitrary: s) (auto, metis rbind_Inr)

section \<open>Checked 64-bit arithmetic\<close>

text \<open>
  \<open>+\<close> and \<open>-\<close> on \<open>usize\<close> and \<open>u64\<close> panic on overflow in the profile that
  \<^verbatim>\<open>Cargo.toml\<close> leaves at its default; \<open>checked_add\<close> returns \<open>None\<close> instead.
\<close>

definition uadd :: "u64 \<Rightarrow> u64 \<Rightarrow> u64 result" where
  [rust_defs]: "uadd a b = (if unat a + unat b < 2 ^ 64 then Inr (a + b) else Inl Overflow)"

definition usub :: "u64 \<Rightarrow> u64 \<Rightarrow> u64 result" where
  [rust_defs]: "usub a b = (if b \<le> a then Inr (a - b) else Inl Overflow)"

definition checked_add :: "u64 \<Rightarrow> u64 \<Rightarrow> u64 option" where
  [rust_defs]: "checked_add a b = (if unat a + unat b < 2 ^ 64 then Some (a + b) else None)"

lemma unat_lt64 [simp]: "unat (a :: u64) < 18446744073709551616"
  using unsigned_less [of a] by simp

lemma unat_word_of_nat64: "n < 2 ^ 64 \<Longrightarrow> unat (word_of_nat n :: u64) = n"
  unfolding unat_of_nat by simp

lemma word_of_nat_inj64: "i < 2 ^ 64 \<Longrightarrow> j < 2 ^ 64 \<Longrightarrow> (word_of_nat i :: u64) = word_of_nat j \<Longrightarrow> i = j"
  by (metis unat_word_of_nat64)

lemma unat_add64: "unat (a :: u64) + unat b < 2 ^ 64 \<Longrightarrow> unat (a + b) = unat a + unat b"
  by (simp add: unat_word_ariths)

lemma unat_sub64: "b \<le> a \<Longrightarrow> unat (a - b :: u64) = unat a - unat b"
  by (rule unat_sub)

lemma uadd_eq_Inr: "uadd a b = Inr c \<longleftrightarrow> unat c = unat a + unat b"
proof
  show "uadd a b = Inr c \<Longrightarrow> unat c = unat a + unat b"
    by (auto simp: uadd_def unat_add64 split: if_splits)
next
  assume c: "unat c = unat a + unat b"
  then have "unat a + unat b < 2 ^ 64" using unat_lt64 [of c] by simp
  then show "uadd a b = Inr c"
    using c by (simp add: uadd_def unat_add64 word_unat_eq_iff)
qed

lemma uadd_eq_Inl: "uadd a b = Inl e \<longleftrightarrow> e = Overflow \<and> 2 ^ 64 \<le> unat a + unat b"
  by (auto simp: uadd_def)

lemma usub_eq_Inr: "usub a b = Inr c \<longleftrightarrow> unat b \<le> unat a \<and> unat c = unat a - unat b"
proof
  show "usub a b = Inr c \<Longrightarrow> unat b \<le> unat a \<and> unat c = unat a - unat b"
    by (auto simp: usub_def unat_sub64 word_le_nat_alt split: if_splits)
next
  assume "unat b \<le> unat a \<and> unat c = unat a - unat b"
  then show "usub a b = Inr c"
    by (simp add: usub_def word_le_nat_alt word_unat_eq_iff unat_sub64)
qed

lemma usub_eq_Inl: "usub a b = Inl e \<longleftrightarrow> e = Overflow \<and> unat a < unat b"
  by (auto simp: usub_def word_le_nat_alt)

lemma checked_add_eq_Some: "checked_add a b = Some c \<longleftrightarrow> unat c = unat a + unat b"
  using uadd_eq_Inr [of a b c] by (auto simp: checked_add_def uadd_def split: if_splits)

lemma checked_add_eq_None: "checked_add a b = None \<longleftrightarrow> 2 ^ 64 \<le> unat a + unat b"
  by (auto simp: checked_add_def)

lemmas arith_results =
  uadd_eq_Inr uadd_eq_Inl usub_eq_Inr usub_eq_Inl checked_add_eq_Some checked_add_eq_None

end
