(* ===== verification/Task.thy ===== *)
theory Task
  imports Prelude
begin

text \<open>
  \<^verbatim>\<open>src/task/mod.rs\<close>: tasks and their identifiers, and the queue type that executors and
  wakers share. A future is any state machine: a type variable with the parameter \<open>future_poll\<close>,
  what polling it once does. \<open>ArrayQueue\<close> of \<open>crossbeam_queue\<close> is a parameter, the record
  \<open>queue_ops\<close>, with its documented behaviour in \<open>queue_spec\<close>.
\<close>

section \<open>Task identifiers\<close>

datatype task_id = TaskId (task_id_u64: u64)

text \<open>\<open>#[derive(PartialOrd, Ord)]\<close>: identifiers are ordered by their number.\<close>

instantiation task_id :: linorder
begin

definition less_eq_task_id :: "task_id \<Rightarrow> task_id \<Rightarrow> bool" where
  "less_eq_task_id a b = (task_id_u64 a \<le> task_id_u64 b)"

definition less_task_id :: "task_id \<Rightarrow> task_id \<Rightarrow> bool" where
  "less_task_id a b = (task_id_u64 a < task_id_u64 b)"

instance
  by standard (auto simp: less_eq_task_id_def less_task_id_def task_id.expand)

end

text \<open>\<open>TaskId::new\<close>: the static counter \<open>NEXT_ID\<close> is passed, and \<open>fetch_add\<close> wraps around.\<close>

definition task_id_new :: "u64 \<Rightarrow> task_id \<times> u64" where
  "task_id_new NEXT_ID = (TaskId NEXT_ID, NEXT_ID + 1)"

section \<open>Tasks\<close>

datatype poll = Ready | Pending

record 'f task =
  t_id :: task_id
  t_future :: 'f

definition task_new :: "u64 \<Rightarrow> 'f \<Rightarrow> 'f task \<times> u64" where
  "task_new NEXT_ID future = (let (id, next) = task_id_new NEXT_ID in (\<lparr>t_id = id, t_future = future\<rparr>, next))"

text \<open>
  Polling a future with a waker in a world (devices and statics) gives the result, the future
  afterwards, the identifiers of the task wakers that were woken while it ran, by the future or
  by interrupts, in order, and the world afterwards. It may panic, and it may not return.
\<close>

type_synonym ('f, 'wk, 'w) future_poll = "'f \<Rightarrow> 'wk \<Rightarrow> 'w \<Rightarrow> (poll \<times> 'f \<times> task_id list \<times> 'w) result option"

definition task_poll ::
  "('f, 'wk, 'w) future_poll \<Rightarrow> 'f task \<Rightarrow> 'wk \<Rightarrow> 'w \<Rightarrow> (poll \<times> 'f task \<times> task_id list \<times> 'w) result option" where
  "task_poll FP task context w =
     map_option (\<lambda>r. rbind r (\<lambda>(p, f, wakes, w'). Inr (p, task\<lparr>t_future := f\<rparr>, wakes, w')))
       (FP (t_future task) context w)"

section \<open>The queue\<close>

record ('q, 'a) queue_ops =
  aq_new :: "nat \<Rightarrow> 'q"
  aq_push :: "'q \<Rightarrow> 'a \<Rightarrow> 'q option"
  aq_pop :: "'q \<Rightarrow> ('a \<times> 'q) option"
  aq_is_empty :: "'q \<Rightarrow> bool"

text \<open>
  A bounded first-in first-out queue: \<open>contents\<close> and \<open>cap\<close> are what a queue holds and how much
  it can hold. \<open>push\<close> fails (\<open>None\<close>) exactly on a full queue, \<open>pop\<close> exactly on an empty one.
\<close>

definition queue_spec :: "('q, 'a) queue_ops \<Rightarrow> ('q \<Rightarrow> 'a list) \<Rightarrow> ('q \<Rightarrow> nat) \<Rightarrow> bool" where
  "queue_spec Q contents cap =
     ((\<forall>n. contents (aq_new Q n) = [] \<and> cap (aq_new Q n) = n) \<and>
      (\<forall>q x. length (contents q) < cap q \<longrightarrow>
         (\<exists>q'. aq_push Q q x = Some q' \<and> contents q' = contents q @ [x] \<and> cap q' = cap q)) \<and>
      (\<forall>q x. cap q \<le> length (contents q) \<longrightarrow> aq_push Q q x = None) \<and>
      (\<forall>q. contents q = [] \<longrightarrow> aq_pop Q q = None) \<and>
      (\<forall>q x xs. contents q = x # xs \<longrightarrow>
         (\<exists>q'. aq_pop Q q = Some (x, q') \<and> contents q' = xs \<and> cap q' = cap q)) \<and>
      (\<forall>q. aq_is_empty Q q \<longleftrightarrow> contents q = []))"

lemma queue_specD:
  assumes "queue_spec Q contents cap"
  shows "contents (aq_new Q n) = []" "cap (aq_new Q n) = n"
    "length (contents q) < cap q \<Longrightarrow> \<exists>q'. aq_push Q q x = Some q' \<and> contents q' = contents q @ [x] \<and> cap q' = cap q"
    "cap q \<le> length (contents q) \<Longrightarrow> aq_push Q q x = None"
    "contents q = [] \<Longrightarrow> aq_pop Q q = None"
    "contents q = y # ys \<Longrightarrow> \<exists>q'. aq_pop Q q = Some (y, q') \<and> contents q' = ys \<and> cap q' = cap q"
    "aq_is_empty Q q \<longleftrightarrow> contents q = []"
  using assms unfolding queue_spec_def by blast+

lemma queue_popE:
  assumes "queue_spec Q contents cap"
  obtains "contents q = []" "aq_pop Q q = None"
  | y q' where "contents q = y # contents q'" "aq_pop Q q = Some (y, q')" "cap q' = cap q"
proof (cases "contents q")
  case Nil
  then show thesis by (rule that(1) [OF _ queue_specD(5) [OF assms]]) (rule Nil)
next
  case (Cons y ys)
  then show thesis using that(2) queue_specD(6) [OF assms Cons] by auto
qed

lemma queue_pop_Some:
  assumes "queue_spec Q contents cap" "aq_pop Q q = Some (x, q')"
  shows "contents q = x # contents q'" "cap q' = cap q"
  using queue_popE [OF assms(1), of q] assms(2) by (metis option.distinct(1) option.inject prod.inject)+

lemma queue_push_Some:
  assumes "queue_spec Q contents cap" "aq_push Q q x = Some q'"
  shows "contents q' = contents q @ [x]" "cap q' = cap q"
proof -
  have "length (contents q) < cap q"
    using queue_specD(4) [OF assms(1), of q x] assms(2) by (metis not_le option.distinct(1))
  from queue_specD(3) [OF assms(1) this, of x] assms(2)
  show "contents q' = contents q @ [x]" "cap q' = cap q" by auto
qed

text \<open>A list with a capacity is such a queue.\<close>

definition list_queue :: "('a list \<times> nat, 'a) queue_ops" where
  "list_queue = \<lparr>aq_new = \<lambda>n. ([], n),
     aq_push = \<lambda>q x. if length (fst q) < snd q then Some (fst q @ [x], snd q) else None,
     aq_pop = \<lambda>q. case fst q of [] \<Rightarrow> None | x # xs \<Rightarrow> Some (x, (xs, snd q)),
     aq_is_empty = \<lambda>q. fst q = []\<rparr>"

lemma list_queue_spec: "queue_spec list_queue fst snd"
  by (simp add: queue_spec_def list_queue_def)

section \<open>Unique identifiers\<close>

text \<open>The identifiers of \<open>n\<close> successive calls.\<close>

fun task_ids :: "nat \<Rightarrow> u64 \<Rightarrow> task_id list \<times> u64" where
  "task_ids 0 NEXT_ID = ([], NEXT_ID)"
| "task_ids (Suc n) NEXT_ID =
     (let (id, next) = task_id_new NEXT_ID; (ids, next') = task_ids n next in (id # ids, next'))"

lemma task_ids_eq: "task_ids n k = (map (\<lambda>i. TaskId (k + word_of_nat i)) [0..<n], k + word_of_nat n)"
proof (induction n arbitrary: k)
  case (Suc n)
  have "map (\<lambda>i. TaskId (k + word_of_nat i)) [0..<Suc n] =
      TaskId k # map (\<lambda>i. TaskId (k + 1 + word_of_nat i)) [0..<n]"
    by (simp add: upt_conv_Cons map_Suc_upt [symmetric] comp_def algebra_simps del: upt_Suc)
  then show ?case by (simp add: Suc.IH task_id_new_def algebra_simps del: upt_Suc)
qed simp

text \<open>
  Successive calls of \<open>TaskId::new\<close> return different identifiers, whatever the counter is,
  up to \<open>2^64\<close> calls; the next one returns the first identifier again.
\<close>

lemma task_ids_unique:
  assumes "n \<le> 2 ^ 64"
  shows "distinct (fst (task_ids n k)) \<and> length (fst (task_ids n k)) = n \<and>
    (n = 2 ^ 64 \<longrightarrow> fst (task_id_new (snd (task_ids n k))) = TaskId k)"
proof -
  have "inj_on (\<lambda>i. TaskId (k + word_of_nat i)) {0..<n}"
    using assms by (intro inj_onI) (auto intro!: word_of_nat_inj64)
  moreover have "(word_of_nat (2 ^ 64) :: u64) = 0" by simp
  ultimately show ?thesis by (simp add: task_ids_eq distinct_map task_id_new_def)
qed

end
