(* ===== verification/Simple_Executor.thy ===== *)
theory Simple_Executor
  imports Task
begin

text \<open>
  \<^verbatim>\<open>src/task/simple_executor.rs\<close>: the executor that polls its tasks in turn until all are done.
  Its wakers do nothing. A loop over tasks that never finish does not return (\<open>None\<close>).
\<close>

section \<open>The waker that does nothing\<close>

text \<open>
  A \<open>RawWaker\<close> is a data pointer with a table of functions on it; waking and dropping may act
  on the world. The table of the dummy waker clones to the dummy waker again, so it is an
  infinite object.
\<close>

codatatype 'w raw_waker =
  RawWaker (rw_data: usize) (rw_clone: "usize \<Rightarrow> 'w raw_waker") (rw_wake: "usize \<Rightarrow> 'w \<Rightarrow> 'w")
    (rw_wake_by_ref: "usize \<Rightarrow> 'w \<Rightarrow> 'w") (rw_drop: "usize \<Rightarrow> 'w \<Rightarrow> 'w")

definition no_op :: "usize \<Rightarrow> 'w \<Rightarrow> 'w" where
  "no_op data w = w"

primcorec dummy_raw_waker :: "'w raw_waker" where
  "rw_data dummy_raw_waker = 0"
| "rw_clone dummy_raw_waker = (\<lambda>_. dummy_raw_waker)"
| "rw_wake dummy_raw_waker = no_op"
| "rw_wake_by_ref dummy_raw_waker = no_op"
| "rw_drop dummy_raw_waker = no_op"

definition dummy_waker :: "'w raw_waker" where
  "dummy_waker = dummy_raw_waker"

text \<open>The wakers a program can obtain from a waker by cloning it.\<close>

inductive clone_of :: "'w raw_waker \<Rightarrow> 'w raw_waker \<Rightarrow> bool" for k where
  clone_self: "clone_of k k"
| clone_again: "clone_of k l \<Longrightarrow> clone_of k (rw_clone l (rw_data l))"

lemma dummy_clones: "clone_of dummy_waker l \<Longrightarrow> l = dummy_waker"
  by (induction rule: clone_of.induct) (simp_all add: dummy_waker_def)

section \<open>The executor\<close>

record 'f simple_executor =
  se_task_queue :: "'f task list"

definition simple_new :: "'f simple_executor" where
  "simple_new = \<lparr>se_task_queue = []\<rparr>"

definition simple_spawn :: "'f task \<Rightarrow> 'f simple_executor \<Rightarrow> 'f simple_executor" where
  "simple_spawn task self = self\<lparr>se_task_queue := se_task_queue self @ [task]\<rparr>"

partial_function (option) simple_run ::
  "('f, 'w raw_waker, 'w) future_poll \<Rightarrow> 'f simple_executor \<Rightarrow> 'w \<Rightarrow> ('f simple_executor \<times> 'w) result option" where
  "simple_run FP self w =
     (case se_task_queue self of
        [] \<Rightarrow> Some (Inr (self, w))
      | task # queue \<Rightarrow>
          (case task_poll FP task dummy_waker w of
             None \<Rightarrow> None
           | Some (Inl e) \<Rightarrow> Some (Inl e)
           | Some (Inr (p, task', wakes, w')) \<Rightarrow>
               (case p of
                  Ready \<Rightarrow> simple_run FP (self\<lparr>se_task_queue := queue\<rparr>) w'
                | Pending \<Rightarrow> simple_run FP (self\<lparr>se_task_queue := queue @ [task']\<rparr>) w')))"

text \<open>Futures that finish: no poll panics or hangs, and a pending one makes progress.\<close>

definition futures_finish :: "('f, 'wk, 'w) future_poll \<Rightarrow> ('f \<Rightarrow> nat) \<Rightarrow> bool" where
  "futures_finish FP todo =
     (\<forall>f k w. \<exists>p f' ids w'. FP f k w = Some (Inr (p, f', ids, w')) \<and> (p = Pending \<longrightarrow> todo f' < todo f))"

lemma simple_run_total:
  assumes "futures_finish FP todo"
  shows "\<exists>w'. simple_run FP self w = Some (Inr (self\<lparr>se_task_queue := []\<rparr>, w'))"
proof (induction "sum_list (map (\<lambda>t. Suc (todo (t_future t))) (se_task_queue self))" arbitrary: self w
    rule: less_induct)
  case less
  show ?case
  proof (cases "se_task_queue self")
    case Nil
    then show ?thesis by (subst simple_run.simps) simp
  next
    case (Cons t ts)
    obtain p f ids w' where p: "FP (t_future t) dummy_waker w = Some (Inr (p, f, ids, w'))"
        "p = Pending \<longrightarrow> todo f < todo (t_future t)"
      using assms unfolding futures_finish_def by blast
    let ?self = "self\<lparr>se_task_queue := (case p of Ready \<Rightarrow> ts | Pending \<Rightarrow> ts @ [t\<lparr>t_future := f\<rparr>])\<rparr>"
    have "simple_run FP self w = simple_run FP ?self w'"
      using Cons p(1) by (subst simple_run.simps) (simp add: task_poll_def split: poll.split)
    then show ?thesis using less [of ?self w'] Cons p(2) by (cases p) auto
  qed
qed

section \<open>Properties\<close>

text \<open>
  C27: if every task finishes after some number of polls, \<open>run\<close> returns without a panic and no
  task is left.
\<close>

theorem simple_run_completes:
  assumes "futures_finish FP todo"
  shows "\<exists>w'. simple_run FP self w = Some (Inr (simple_new, w'))"
proof -
  have "self\<lparr>se_task_queue := []\<rparr> = simple_new" by (simp add: simple_new_def)
  with simple_run_total [OF assms, of self w] show ?thesis by simp
qed

text \<open>A future that counts down.\<close>

abbreviation (input) ex_countdown :: "(nat, unit raw_waker, unit) future_poll" where
  "ex_countdown \<equiv> \<lambda>f k w. if f = 0 then Some (Inr (Ready, 0, [], w)) else Some (Inr (Pending, f - 1, [], w))"

theorem simple_run_completes_witness:
  "\<exists>w'. simple_run ex_countdown (simple_spawn \<lparr>t_id = TaskId 0, t_future = 3\<rparr>
     (simple_spawn \<lparr>t_id = TaskId 1, t_future = 5\<rparr> simple_new)) () = Some (Inr (simple_new, w'))"
proof -
  have "futures_finish ex_countdown (\<lambda>n. n)" by (auto simp: futures_finish_def)
  then show ?thesis by (rule simple_run_completes)
qed

text \<open>
  The dummy waker and everything cloned from it has no effect: waking or dropping it leaves
  the world as it is.
\<close>

lemma dummy_waker_inert:
  assumes "clone_of dummy_waker k"
  shows "rw_wake k (rw_data k) w = w \<and> rw_wake_by_ref k (rw_data k) w = w \<and> rw_drop k (rw_data k) w = w"
  using dummy_clones [OF assms] by (simp add: dummy_waker_def no_op_def)

end
