(* ===== verification/Console.thy ===== *)
theory Console
  imports Prelude
begin

text \<open>
  Printing: \<open>_print\<close> of \<^verbatim>\<open>src/vga_buffer.rs\<close> and of \<^verbatim>\<open>src/serial.rs\<close>. Both lock a spin lock inside
  \<open>without_interrupts\<close>, and interrupt handlers print too; the allocator is behind a spin lock as well
  (\<open>Locked\<close> of \<^verbatim>\<open>src/allocator.rs\<close>), which is taken with interrupts enabled. So code that prints or
  allocates is modelled as the sequence of statements between which the CPU can take an interrupt.
  \<open>locks_ok\<close> is the discipline that this code follows; the machine that runs it is in \<open>Interrupts\<close>.
\<close>

section \<open>Statements\<close>

text \<open>The spin locks: of the two statics that are printed to, of the controllers, of the allocator.\<close>

datatype lock = WRITER_lock | SERIAL1_lock | PICS_lock | ALLOCATOR_lock

text \<open>
  \<open>WithoutInterrupts\<close> and \<open>EndWithoutInterrupts\<close> enclose the closure of \<open>without_interrupts\<close>: the
  interrupt flag is remembered and cleared, and set again at the end if it was set. \<open>Unlock\<close> is
  the drop of the guard. \<open>Raise n\<close> is an instruction that raises exception \<open>n\<close>, such as \<open>int3\<close>.
  \<open>UseAllocator\<close> is the work of \<open>alloc\<close> or \<open>dealloc\<close> on the allocator behind its lock; what it does to
  the heap is the subject of the theories of the allocators.
\<close>

datatype stmt =
    WithoutInterrupts
  | EndWithoutInterrupts
  | Lock lock
  | Unlock lock
  | WriterWriteStr bytes
  | SerialWriteStr bytes
  | InitializePics
  | NotifyEndOfInterrupt u8
  | EnableInterrupts
  | UseAllocator
  | ReadPort u16
  | AddScancode
  | Raise u8
  | HltLoop

section \<open>The two print functions\<close>

text \<open>\<open>write_fmt\<close> calls \<open>write_str\<close> for one piece of the message after the other.\<close>

definition vga_print :: "bytes list \<Rightarrow> stmt list" where
  "vga_print args =
     [WithoutInterrupts, Lock WRITER_lock] @ map WriterWriteStr args @ [Unlock WRITER_lock, EndWithoutInterrupts]"

definition serial_print :: "bytes list \<Rightarrow> stmt list" where
  "serial_print args =
     [WithoutInterrupts, Lock SERIAL1_lock] @ map SerialWriteStr args @ [Unlock SERIAL1_lock, EndWithoutInterrupts]"

text \<open>A call of the global allocator: the guard of \<open>Locked::lock\<close> is held until it returns.\<close>

definition locked_allocator_call :: "stmt list" where
  "locked_allocator_call = [Lock ALLOCATOR_lock, UseAllocator, Unlock ALLOCATOR_lock]"

text \<open>\<open>SERIAL1\<close>: the port at \<open>0x3F8\<close> of the crate \<open>uart_16550\<close>, initialised; and \<open>write_str\<close> on it.\<close>

record 'sp serial_ops =
  serial_port_new :: "u16 \<Rightarrow> 'sp"
  serial_port_init :: "'sp \<Rightarrow> 'sp"
  serial_write_str :: "'sp \<Rightarrow> bytes \<Rightarrow> bool \<times> 'sp"

definition SERIAL1_new :: "'sp serial_ops \<Rightarrow> 'sp" where
  "SERIAL1_new S = serial_port_init S (serial_port_new S 0x3F8)"

text \<open>One call of \<open>write_str\<close>; \<open>write_fmt\<close> stops at an error, and \<open>expect\<close> panics on it.\<close>

definition serial_write :: "'sp serial_ops \<Rightarrow> bytes \<Rightarrow> 'sp \<Rightarrow> 'sp result" where
  "serial_write S s port =
     (case serial_write_str S port s of
        (True, port') \<Rightarrow> Inr port'
      | (False, _) \<Rightarrow> Inl (Expect ''Printing to serial failed''))"

text \<open>The documentation of \<open>uart_16550\<close>: sending bytes waits for the line and does not fail.\<close>

definition serial_spec :: "'sp serial_ops \<Rightarrow> bool" where
  "serial_spec S = (\<forall>port s. fst (serial_write_str S port s))"

lemma serial_write_ok: "serial_spec S \<Longrightarrow> \<exists>port'. serial_write S s port = Inr port'"
  unfolding serial_spec_def
  by (cases "serial_write_str S port s") (force simp: serial_write_def dest: spec [of _ port] spec [of _ s])

section \<open>The locking discipline\<close>

text \<open>
  \<open>locks_ok i sv H c\<close>: code \<open>c\<close>, started with interrupt flag \<open>i\<close>, remembered flag \<open>sv\<close> and the
  locks \<open>H\<close> held, takes only locks it does not hold, and all but that of the allocator only with
  interrupts disabled, releases these before interrupts are enabled, uses what a lock protects only under the lock, and signals
  the end of an interrupt at most once.
\<close>

fun locks_ok :: "bool \<Rightarrow> bool \<Rightarrow> lock set \<Rightarrow> stmt list \<Rightarrow> bool" where
  "locks_ok i sv H [] = (H = {})"
| "locks_ok i sv H (WithoutInterrupts # c) = (H = {} \<and> locks_ok False i H c)"
| "locks_ok i sv H (EndWithoutInterrupts # c) = (H = {} \<and> locks_ok (if sv then True else i) sv H c)"
| "locks_ok i sv H (Lock l # c) = ((l = ALLOCATOR_lock \<or> \<not> i) \<and> l \<notin> H \<and> locks_ok i sv (insert l H) c)"
| "locks_ok i sv H (Unlock l # c) = ((l = ALLOCATOR_lock \<or> \<not> i) \<and> l \<in> H \<and> locks_ok i sv (H - {l}) c)"
| "locks_ok i sv H (WriterWriteStr s # c) = (\<not> i \<and> WRITER_lock \<in> H \<and> locks_ok i sv H c)"
| "locks_ok i sv H (SerialWriteStr s # c) = (\<not> i \<and> SERIAL1_lock \<in> H \<and> locks_ok i sv H c)"
| "locks_ok i sv H (InitializePics # c) = (\<not> i \<and> PICS_lock \<in> H \<and> locks_ok i sv H c)"
| "locks_ok i sv H (NotifyEndOfInterrupt n # c) =
     (\<not> i \<and> PICS_lock \<in> H \<and> (\<forall>k. NotifyEndOfInterrupt k \<notin> set c) \<and> locks_ok i sv H c)"
| "locks_ok i sv H (EnableInterrupts # c) = (H = {} \<and> locks_ok True sv H c)"
| "locks_ok i sv H (UseAllocator # c) = (ALLOCATOR_lock \<in> H \<and> locks_ok i sv H c)"
| "locks_ok i sv H (ReadPort p # c) = (H = {} \<and> locks_ok i sv H c)"
| "locks_ok i sv H (AddScancode # c) = (H = {} \<and> i = sv \<and> locks_ok i sv H c)"
| "locks_ok i sv H (Raise n # c) = (H = {} \<and> locks_ok i sv H c)"
| "locks_ok i sv H (HltLoop # c) = (H = {})"

lemma locks_ok_enabled: "locks_ok i sv H c \<Longrightarrow> i \<Longrightarrow> H \<subseteq> {ALLOCATOR_lock}"
  by (induction i sv H c rule: locks_ok.induct) auto

lemma locks_ok_writes:
  "locks_ok i sv H (map WriterWriteStr args @ c) \<longleftrightarrow> (args \<noteq> [] \<longrightarrow> \<not> i \<and> WRITER_lock \<in> H) \<and> locks_ok i sv H c"
  "locks_ok i sv H (map SerialWriteStr args @ c) \<longleftrightarrow> (args \<noteq> [] \<longrightarrow> \<not> i \<and> SERIAL1_lock \<in> H) \<and> locks_ok i sv H c"
  by (induction args) auto

text \<open>A call of a print function leaves the interrupt flag as it was, which is now remembered.\<close>

lemma locks_ok_print [simp]:
  "locks_ok i sv {} (vga_print args @ c) = locks_ok i i {} c"
  "locks_ok i sv {} (serial_print args @ c) = locks_ok i i {} c"
  by (simp_all add: vga_print_def serial_print_def locks_ok_writes)

lemma locks_ok_allocator_call [simp]: "locks_ok i sv {} (locked_allocator_call @ c) = locks_ok i sv {} c"
  by (simp add: locked_allocator_call_def)

lemma locks_ok_print_single [simp]:
  "locks_ok i sv {} (vga_print args)" "locks_ok i sv {} (serial_print args)"
  using locks_ok_print [of i sv args "[]"] by simp_all

lemma locks_ok_prints [simp]:
  "locks_ok i i {} (concat (map (\<lambda>m. vga_print (f m)) ms) @ c) = locks_ok i i {} c"
  by (induction ms) simp_all

end
