(* ===== verification/Gdt.thy ===== *)
theory Gdt
  imports Prelude
begin

text \<open>
  \<^verbatim>\<open>src/gdt.rs\<close>: the task state segment with the stack of the double fault handler, and the global
  descriptor table. The tables and the instructions that load them are of the crate \<open>x86_64\<close>:
  a record of operations, with \<open>tss_spec\<close> and \<open>gdt_spec\<close> for what its documentation says.
\<close>

section \<open>The tables\<close>

record ('v, 'tss, 'd, 'gdt, 'sel) gdt_ops =
  tss_new :: 'tss
  tss_set_interrupt_stack :: "'tss \<Rightarrow> nat \<Rightarrow> 'v \<Rightarrow> 'tss result"
  virt_from_ptr :: "u64 \<Rightarrow> 'v result"
  virt_plus :: "'v \<Rightarrow> usize \<Rightarrow> 'v result"
  gdt_table_new :: 'gdt
  gdt_add_entry :: "'gdt \<Rightarrow> 'd \<Rightarrow> ('sel \<times> 'gdt) result"
  kernel_code_segment :: 'd
  tss_segment :: "'tss \<Rightarrow> 'd"

definition DOUBLE_FAULT_IST_INDEX :: u16 where "DOUBLE_FAULT_IST_INDEX = 0"
definition STACK_SIZE :: usize where "STACK_SIZE = 4096 * 5"

text \<open>\<open>TSS\<close>; \<open>STACK\<close> is the address of the static array of \<open>STACK_SIZE\<close> bytes.\<close>

definition TSS_new :: "('v, 'tss, 'd, 'gdt, 'sel) gdt_ops \<Rightarrow> u64 \<Rightarrow> 'tss result" where
  "TSS_new G STACK =
     rbind (virt_from_ptr G STACK) (\<lambda>stack_start.
     rbind (virt_plus G stack_start STACK_SIZE) (\<lambda>stack_end.
       tss_set_interrupt_stack G (tss_new G) (unat DOUBLE_FAULT_IST_INDEX) stack_end))"

record 'sel selectors =
  code_selector :: 'sel
  tss_selector :: 'sel

definition GDT_new :: "('v, 'tss, 'd, 'gdt, 'sel) gdt_ops \<Rightarrow> 'tss \<Rightarrow> ('gdt \<times> 'sel selectors) result" where
  "GDT_new G TSS =
     (let gdt = gdt_table_new G in
      rbind (gdt_add_entry G gdt (kernel_code_segment G)) (\<lambda>(code_selector, gdt).
      rbind (gdt_add_entry G gdt (tss_segment G TSS)) (\<lambda>(tss_selector, gdt).
        Inr (gdt, \<lparr>code_selector = code_selector, tss_selector = tss_selector\<rparr>))))"

text \<open>The registers that the tables are loaded to.\<close>

record ('gdt, 'sel, 'idt) cpu =
  cpu_gdtr :: "'gdt option"
  cpu_cs :: "'sel option"
  cpu_tr :: "'sel option"
  cpu_idtr :: "'idt option"

definition gdt_init ::
  "('v, 'tss, 'd, 'gdt, 'sel) gdt_ops \<Rightarrow> u64 \<Rightarrow> ('gdt, 'sel, 'idt) cpu \<Rightarrow> ('gdt, 'sel, 'idt) cpu result" where
  "gdt_init G STACK c =
     rbind (TSS_new G STACK) (\<lambda>TSS. rbind (GDT_new G TSS) (\<lambda>(gdt, selectors).
       Inr (c\<lparr>cpu_gdtr := Some gdt, cpu_cs := Some (code_selector selectors), cpu_tr := Some (tss_selector selectors)\<rparr>)))"

section \<open>What the crate promises\<close>

text \<open>
  \<open>va\<close> is the number of a virtual address; addresses in the lower half of the address space are
  canonical, so that making one and adding to it does not panic. \<open>ist\<close> reads the interrupt stack
  table, which has seven entries.
\<close>

definition tss_spec :: "('v, 'tss, 'd, 'gdt, 'sel) gdt_ops \<Rightarrow> ('v \<Rightarrow> u64) \<Rightarrow> ('tss \<Rightarrow> nat \<Rightarrow> 'v option) \<Rightarrow> bool" where
  "tss_spec G va ist =
     ((\<forall>a. unat a < 2 ^ 47 \<longrightarrow> (\<exists>v. virt_from_ptr G a = Inr v \<and> va v = a)) \<and>
      (\<forall>v n. unat (va v) + unat n < 2 ^ 47 \<longrightarrow>
         (\<exists>w. virt_plus G v n = Inr w \<and> unat (va w) = unat (va v) + unat n)) \<and>
      (\<forall>t i v. i < 7 \<longrightarrow>
         (\<exists>t'. tss_set_interrupt_stack G t i v = Inr t' \<and> ist t' = (ist t)(i := Some v))))"

text \<open>\<open>entry\<close> looks a selector up; an empty table has room for two further descriptors.\<close>

definition gdt_spec :: "('v, 'tss, 'd, 'gdt, 'sel) gdt_ops \<Rightarrow> ('gdt \<Rightarrow> 'sel \<rightharpoonup> 'd) \<Rightarrow> ('gdt \<Rightarrow> nat) \<Rightarrow> bool" where
  "gdt_spec G entry used =
     (entry (gdt_table_new G) = Map.empty \<and> used (gdt_table_new G) = 0 \<and>
      (\<forall>g d. used g < 2 \<longrightarrow>
         (\<exists>s g'. gdt_add_entry G g d = Inr (s, g') \<and> entry g s = None \<and> entry g' = (entry g)(s \<mapsto> d) \<and>
            used g' = used g + 1)))"

lemma unat_STACK_SIZE: "unat STACK_SIZE = 20480"
  by (simp add: STACK_SIZE_def)

lemma TSS_new_ok:
  assumes "tss_spec G va ist" "unat STACK + 20480 < 2 ^ 47"
  shows "\<exists>t v. TSS_new G STACK = Inr t \<and> ist t 0 = Some v \<and> unat (va v) = unat STACK + 20480"
proof -
  obtain v where v: "virt_from_ptr G STACK = Inr v" "va v = STACK"
    using assms unfolding tss_spec_def by (metis add_lessD1)
  obtain w where w: "virt_plus G v STACK_SIZE = Inr w" "unat (va w) = unat STACK + 20480"
    using assms v(2) unat_STACK_SIZE unfolding tss_spec_def by metis
  obtain t where "tss_set_interrupt_stack G (tss_new G) 0 w = Inr t" "ist t = (ist (tss_new G))(0 := Some w)"
    using assms(1) unfolding tss_spec_def by (metis zero_less_numeral)
  with v w show ?thesis by (simp add: TSS_new_def DOUBLE_FAULT_IST_INDEX_def)
qed

lemma GDT_new_ok:
  assumes "gdt_spec G entry used"
  shows "\<exists>g s. GDT_new G t = Inr (g, s) \<and> entry g (code_selector s) = Some (kernel_code_segment G) \<and>
    entry g (tss_selector s) = Some (tss_segment G t)"
proof -
  let ?g = "gdt_table_new G"
  have add: "used g < 2 \<Longrightarrow> \<exists>s g'. gdt_add_entry G g d = Inr (s, g') \<and> entry g s = None \<and>
      entry g' = (entry g)(s \<mapsto> d) \<and> used g' = used g + 1" for g d
    using assms by (simp add: gdt_spec_def)
  have u: "used ?g = 0" using assms by (simp add: gdt_spec_def)
  obtain s1 g1 where 1: "gdt_add_entry G ?g (kernel_code_segment G) = Inr (s1, g1)"
      "entry g1 = (entry ?g)(s1 \<mapsto> kernel_code_segment G)" "used g1 = 1"
    using add [of ?g "kernel_code_segment G"] u by auto
  obtain s2 g2 where 2: "gdt_add_entry G g1 (tss_segment G t) = Inr (s2, g2)"
      "entry g1 s2 = None" "entry g2 = (entry g1)(s2 \<mapsto> tss_segment G t)"
    using add [of g1 "tss_segment G t"] 1(3) by auto
  have "s1 \<noteq> s2" using 1(2) 2(2) by auto
  with 1 2 show ?thesis by (simp add: GDT_new_def Let_def)
qed

end
