(* ===== verification/Keyboard.thy ===== *)
theory Keyboard
  imports Task
begin

text \<open>
  \<^verbatim>\<open>src/task/keyboard.rs\<close>: the queue of scancodes between the keyboard interrupt and the task
  that prints key presses. \<open>OnceCell\<close>, \<open>AtomicWaker\<close> and \<open>pc_keyboard\<close> are third-party: records
  of operations, with \<open>once_spec\<close> and \<open>atomic_waker_spec\<close> for what their documentation promises.
  Text that is printed is returned as the list of messages, for the console to write.
\<close>

section \<open>The statics\<close>

text \<open>
  \<open>oc_update\<close> is the cell after the queue behind the shared reference of \<open>try_get\<close> has been
  changed through it.
\<close>

record ('oc, 'q) once_ops =
  oc_uninit :: 'oc
  oc_try_get :: "'oc \<Rightarrow> 'q option"
  oc_try_init_once :: "'oc \<Rightarrow> 'q \<Rightarrow> 'oc option"
  oc_update :: "'oc \<Rightarrow> 'q \<Rightarrow> 'oc"

text \<open>\<open>wake\<close> and \<open>take\<close> give the waker that is woken or taken, if one was registered.\<close>

record ('aw, 'wk) atomic_waker_ops =
  aw_new :: 'aw
  aw_register :: "'aw \<Rightarrow> 'wk \<Rightarrow> 'aw"
  aw_wake :: "'aw \<Rightarrow> 'wk option \<times> 'aw"
  aw_take :: "'aw \<Rightarrow> 'wk option \<times> 'aw"

record ('oc, 'aw) keyboard_statics =
  SCANCODE_QUEUE :: 'oc
  WAKER :: 'aw

definition keyboard_statics_new :: "('oc, 'q) once_ops \<Rightarrow> ('aw, 'wk) atomic_waker_ops \<Rightarrow> ('oc, 'aw) keyboard_statics" where
  "keyboard_statics_new OC AW = \<lparr>SCANCODE_QUEUE = oc_uninit OC, WAKER = aw_new AW\<rparr>"

section \<open>The interrupt side\<close>

definition add_scancode ::
  "('oc, 'q) once_ops \<Rightarrow> ('q, u8) queue_ops \<Rightarrow> ('aw, 'wk) atomic_waker_ops \<Rightarrow> u8 \<Rightarrow> ('oc, 'aw) keyboard_statics \<Rightarrow>
    'wk option \<times> bytes list \<times> ('oc, 'aw) keyboard_statics" where
  "add_scancode OC Q AW scancode kb =
     (case oc_try_get OC (SCANCODE_QUEUE kb) of
        Some queue \<Rightarrow>
          (case aq_push Q queue scancode of
             None \<Rightarrow> (None, [ascii ''WARNING: scancode queue fill; dropping keyboard input'' @ [0x0a]], kb)
           | Some queue' \<Rightarrow>
               (case aw_wake AW (WAKER kb) of
                  (woken, waker) \<Rightarrow>
                    (woken, [], kb\<lparr>SCANCODE_QUEUE := oc_update OC (SCANCODE_QUEUE kb) queue', WAKER := waker\<rparr>)))
      | None \<Rightarrow> (None, [ascii ''WARNING: scancode queue uninitialised'' @ [0x0a]], kb))"

section \<open>The stream\<close>

definition scancode_stream_new ::
  "('oc, 'q) once_ops \<Rightarrow> ('q, u8) queue_ops \<Rightarrow> ('oc, 'aw) keyboard_statics \<Rightarrow> ('oc, 'aw) keyboard_statics result" where
  "scancode_stream_new OC Q kb =
     rbind (expect ''ScancodeStream::new should only be called once''
       (oc_try_init_once OC (SCANCODE_QUEUE kb) (aq_new Q 100))) (\<lambda>cell.
     Inr (kb\<lparr>SCANCODE_QUEUE := cell\<rparr>))"

text \<open>\<open>Poll<Option<u8>>\<close>: the stream never ends, so \<open>Ready(None)\<close> does not occur.\<close>

datatype poll_next = NextReady u8 | NextPending

definition poll_next ::
  "('oc, 'q) once_ops \<Rightarrow> ('q, u8) queue_ops \<Rightarrow> ('aw, 'wk) atomic_waker_ops \<Rightarrow> 'wk \<Rightarrow> ('oc, 'aw) keyboard_statics \<Rightarrow>
    (poll_next \<times> ('oc, 'aw) keyboard_statics) result" where
  "poll_next OC Q AW cx kb =
     rbind (expect ''not initialised'' (oc_try_get OC (SCANCODE_QUEUE kb))) (\<lambda>queue.
     case aq_pop Q queue of
       Some (scancode, queue') \<Rightarrow>
         Inr (NextReady scancode, kb\<lparr>SCANCODE_QUEUE := oc_update OC (SCANCODE_QUEUE kb) queue'\<rparr>)
     | None \<Rightarrow>
         let kb = kb\<lparr>WAKER := aw_register AW (WAKER kb) cx\<rparr> in
         (case aq_pop Q queue of
            Some (scancode, queue') \<Rightarrow>
              Inr (NextReady scancode, kb\<lparr>SCANCODE_QUEUE := oc_update OC (SCANCODE_QUEUE kb) queue',
                                          WAKER := snd (aw_take AW (WAKER kb))\<rparr>)
          | None \<Rightarrow> Inr (NextPending, kb)))"

text \<open>
  The same function statement by statement, as the interrupt handler can run between any two of
  them. The log has the wakers that the handler has woken.
\<close>

datatype poll_pc = Pop1 | Register | Pop2 | Take u8 | Returned poll_next

record ('oc, 'aw, 'wk) poll_state =
  ps_kb :: "('oc, 'aw) keyboard_statics"
  ps_pc :: poll_pc
  ps_woken :: "'wk list"

inductive poll_next_step ::
  "('oc, 'q) once_ops \<Rightarrow> ('q, u8) queue_ops \<Rightarrow> ('aw, 'wk) atomic_waker_ops \<Rightarrow> 'wk \<Rightarrow>
    ('oc, 'aw, 'wk) poll_state \<Rightarrow> ('oc, 'aw, 'wk) poll_state \<Rightarrow> bool"
  for OC Q AW cx where
  pop1_some: "ps_pc s = Pop1 \<Longrightarrow> oc_try_get OC (SCANCODE_QUEUE (ps_kb s)) = Some queue \<Longrightarrow>
    aq_pop Q queue = Some (scancode, queue') \<Longrightarrow>
    poll_next_step OC Q AW cx s (s\<lparr>ps_pc := Returned (NextReady scancode),
      ps_kb := (ps_kb s)\<lparr>SCANCODE_QUEUE := oc_update OC (SCANCODE_QUEUE (ps_kb s)) queue'\<rparr>\<rparr>)"
| pop1_none: "ps_pc s = Pop1 \<Longrightarrow> oc_try_get OC (SCANCODE_QUEUE (ps_kb s)) = Some queue \<Longrightarrow>
    aq_pop Q queue = None \<Longrightarrow> poll_next_step OC Q AW cx s (s\<lparr>ps_pc := Register\<rparr>)"
| register: "ps_pc s = Register \<Longrightarrow>
    poll_next_step OC Q AW cx s (s\<lparr>ps_pc := Pop2, ps_kb := (ps_kb s)\<lparr>WAKER := aw_register AW (WAKER (ps_kb s)) cx\<rparr>\<rparr>)"
| pop2_some: "ps_pc s = Pop2 \<Longrightarrow> oc_try_get OC (SCANCODE_QUEUE (ps_kb s)) = Some queue \<Longrightarrow>
    aq_pop Q queue = Some (scancode, queue') \<Longrightarrow>
    poll_next_step OC Q AW cx s (s\<lparr>ps_pc := Take scancode,
      ps_kb := (ps_kb s)\<lparr>SCANCODE_QUEUE := oc_update OC (SCANCODE_QUEUE (ps_kb s)) queue'\<rparr>\<rparr>)"
| pop2_none: "ps_pc s = Pop2 \<Longrightarrow> oc_try_get OC (SCANCODE_QUEUE (ps_kb s)) = Some queue \<Longrightarrow>
    aq_pop Q queue = None \<Longrightarrow> poll_next_step OC Q AW cx s (s\<lparr>ps_pc := Returned NextPending\<rparr>)"
| take: "ps_pc s = Take scancode \<Longrightarrow>
    poll_next_step OC Q AW cx s (s\<lparr>ps_pc := Returned (NextReady scancode),
      ps_kb := (ps_kb s)\<lparr>WAKER := snd (aw_take AW (WAKER (ps_kb s)))\<rparr>\<rparr>)"

inductive keyboard_interrupt ::
  "('oc, 'q) once_ops \<Rightarrow> ('q, u8) queue_ops \<Rightarrow> ('aw, 'wk) atomic_waker_ops \<Rightarrow>
    ('oc, 'aw, 'wk) poll_state \<Rightarrow> ('oc, 'aw, 'wk) poll_state \<Rightarrow> bool"
  for OC Q AW where
  interrupt: "add_scancode OC Q AW scancode (ps_kb s) = (woken, messages, kb) \<Longrightarrow>
    keyboard_interrupt OC Q AW s (s\<lparr>ps_kb := kb, ps_woken := ps_woken s @ (case woken of None \<Rightarrow> [] | Some k \<Rightarrow> [k])\<rparr>)"

definition poll_start :: "('oc, 'aw) keyboard_statics \<Rightarrow> ('oc, 'aw, 'wk) poll_state" where
  "poll_start kb = \<lparr>ps_kb = kb, ps_pc = Pop1, ps_woken = []\<rparr>"

section \<open>Printing key presses\<close>

text \<open>
  \<open>pc_keyboard\<close>: \<open>add_byte\<close> gives an error or possibly a key event, \<open>process_keyevent\<close> possibly a
  decoded key. The two formats are how \<open>print!\<close> shows a character and a key code.
\<close>

datatype ('ch, 'kc) decoded_key = Unicode 'ch | RawKey 'kc

record ('kbd, 'er, 'ev, 'ch, 'kc) pc_keyboard_ops =
  kbd_new :: 'kbd
  kbd_add_byte :: "'kbd \<Rightarrow> u8 \<Rightarrow> ('er + 'ev option) \<times> 'kbd"
  kbd_process_keyevent :: "'kbd \<Rightarrow> 'ev \<Rightarrow> ('ch, 'kc) decoded_key option \<times> 'kbd"
  fmt_char :: "'ch \<Rightarrow> bytes"
  fmt_keycode :: "'kc \<Rightarrow> bytes"

text \<open>The body of the loop, for one scancode: what it prints, and the decoder afterwards.\<close>

definition process_scancode ::
  "('kbd, 'er, 'ev, 'ch, 'kc) pc_keyboard_ops \<Rightarrow> u8 \<Rightarrow> 'kbd \<Rightarrow> bytes list \<times> 'kbd" where
  "process_scancode KB scancode keyboard =
     (case kbd_add_byte KB keyboard scancode of
        (Inr (Some key_event), keyboard) \<Rightarrow>
          (case kbd_process_keyevent KB keyboard key_event of
             (Some key, keyboard) \<Rightarrow>
               (case key of
                  Unicode character \<Rightarrow> ([fmt_char KB character], keyboard)
                | RawKey key \<Rightarrow> ([fmt_keycode KB key], keyboard))
           | (None, keyboard) \<Rightarrow> ([], keyboard))
      | (_, keyboard) \<Rightarrow> ([], keyboard))"

text \<open>
  \<open>print_keypresses\<close> as a future: before its first poll it is at the start; afterwards it waits
  in the loop with its decoder. One poll runs the loop until the stream is pending. It never
  finishes, so its polls give what was printed, the future and the statics.
\<close>

datatype 'kbd print_keypresses = NotStarted | Looping 'kbd

partial_function (option) keypress_loop ::
  "('oc, 'q) once_ops \<Rightarrow> ('q, u8) queue_ops \<Rightarrow> ('aw, 'wk) atomic_waker_ops \<Rightarrow>
    ('kbd, 'er, 'ev, 'ch, 'kc) pc_keyboard_ops \<Rightarrow> 'wk \<Rightarrow> bytes list \<Rightarrow> 'kbd \<Rightarrow> ('oc, 'aw) keyboard_statics \<Rightarrow>
    (bytes list \<times> 'kbd \<times> ('oc, 'aw) keyboard_statics) result option" where
  "keypress_loop OC Q AW KB cx printed keyboard kb =
     (case poll_next OC Q AW cx kb of
        Inl e \<Rightarrow> Some (Inl e)
      | Inr (NextPending, kb) \<Rightarrow> Some (Inr (printed, keyboard, kb))
      | Inr (NextReady scancode, kb) \<Rightarrow>
          (case process_scancode KB scancode keyboard of
             (out, keyboard) \<Rightarrow> keypress_loop OC Q AW KB cx (printed @ out) keyboard kb))"

definition print_keypresses_poll ::
  "('oc, 'q) once_ops \<Rightarrow> ('q, u8) queue_ops \<Rightarrow> ('aw, 'wk) atomic_waker_ops \<Rightarrow>
    ('kbd, 'er, 'ev, 'ch, 'kc) pc_keyboard_ops \<Rightarrow> 'wk \<Rightarrow> 'kbd print_keypresses \<Rightarrow> ('oc, 'aw) keyboard_statics \<Rightarrow>
    (bytes list \<times> 'kbd print_keypresses \<times> ('oc, 'aw) keyboard_statics) result option" where
  "print_keypresses_poll OC Q AW KB cx self kb =
     (case (case self of
              NotStarted \<Rightarrow> rbind (scancode_stream_new OC Q kb) (\<lambda>kb. Inr (kbd_new KB, kb))
            | Looping keyboard \<Rightarrow> Inr (keyboard, kb)) of
        Inl e \<Rightarrow> Some (Inl e)
      | Inr (keyboard, kb) \<Rightarrow>
          map_option (\<lambda>r. rbind r (\<lambda>(printed, keyboard, kb). Inr (printed, Looping keyboard, kb)))
            (keypress_loop OC Q AW KB cx [] keyboard kb))"

section \<open>What the crates promise\<close>

definition once_spec :: "('oc, 'q) once_ops \<Rightarrow> bool" where
  "once_spec OC =
     (oc_try_get OC (oc_uninit OC) = None \<and>
      (\<forall>c q. oc_try_get OC c = None \<longrightarrow> (\<exists>c'. oc_try_init_once OC c q = Some c' \<and> oc_try_get OC c' = Some q)) \<and>
      (\<forall>c q. oc_try_get OC c \<noteq> None \<longrightarrow> oc_try_init_once OC c q = None) \<and>
      (\<forall>c q. oc_try_get OC c \<noteq> None \<longrightarrow> oc_try_get OC (oc_update OC c q) = Some q))"

text \<open>\<open>reg\<close> is the waker that is registered, if any: the last one, until it is woken or taken.\<close>

definition atomic_waker_spec :: "('aw, 'wk) atomic_waker_ops \<Rightarrow> ('aw \<Rightarrow> 'wk option) \<Rightarrow> bool" where
  "atomic_waker_spec AW reg =
     (reg (aw_new AW) = None \<and> (\<forall>a k. reg (aw_register AW a k) = Some k) \<and>
      (\<forall>a. fst (aw_wake AW a) = reg a \<and> reg (snd (aw_wake AW a)) = None) \<and>
      (\<forall>a. fst (aw_take AW a) = reg a \<and> reg (snd (aw_take AW a)) = None))"

lemma once_specD:
  assumes "once_spec OC"
  shows "oc_try_get OC (oc_uninit OC) = None"
    "oc_try_get OC c = None \<Longrightarrow> \<exists>c'. oc_try_init_once OC c q = Some c' \<and> oc_try_get OC c' = Some q"
    "oc_try_get OC c = Some q1 \<Longrightarrow> oc_try_init_once OC c q = None"
    "oc_try_get OC c = Some q1 \<Longrightarrow> oc_try_get OC (oc_update OC c q) = Some q"
  using assms unfolding once_spec_def by auto

lemma atomic_waker_specD:
  assumes "atomic_waker_spec AW reg"
  shows "reg (aw_new AW) = None" "reg (aw_register AW a k) = Some k"
    "fst (aw_wake AW a) = reg a" "reg (snd (aw_wake AW a)) = None"
    "fst (aw_take AW a) = reg a" "reg (snd (aw_take AW a)) = None"
  using assms unfolding atomic_waker_spec_def by auto

abbreviation kb_queue :: "('oc, 'q) once_ops \<Rightarrow> ('oc, 'aw) keyboard_statics \<Rightarrow> 'q option" where
  "kb_queue OC kb \<equiv> oc_try_get OC (SCANCODE_QUEUE kb)"

section \<open>Each operation on each branch\<close>

lemma add_scancode_uninit:
  "kb_queue OC kb = None \<Longrightarrow>
     add_scancode OC Q AW c kb = (None, [ascii ''WARNING: scancode queue uninitialised'' @ [0x0a]], kb)"
  by (simp add: add_scancode_def)

lemma add_scancode_full:
  assumes "queue_spec Q contents cap" "kb_queue OC kb = Some q" "cap q \<le> length (contents q)"
  shows "add_scancode OC Q AW c kb =
    (None, [ascii ''WARNING: scancode queue fill; dropping keyboard input'' @ [0x0a]], kb)"
  using assms queue_specD(4) [OF assms(1,3), of c] by (simp add: add_scancode_def)

lemma add_scancode_room:
  assumes "once_spec OC" "queue_spec Q contents cap" "atomic_waker_spec AW reg"
    and "kb_queue OC kb = Some q" "length (contents q) < cap q"
  shows "\<exists>kb' q'. add_scancode OC Q AW c kb = (reg (WAKER kb), [], kb') \<and> kb_queue OC kb' = Some q' \<and>
    contents q' = contents q @ [c] \<and> cap q' = cap q \<and> reg (WAKER kb') = None"
proof -
  obtain q' where q': "aq_push Q q c = Some q'" "contents q' = contents q @ [c]" "cap q' = cap q"
    using queue_specD(3) [OF assms(2,5)] by blast
  show ?thesis
    using q' assms(4) once_specD(4) [OF assms(1,4), of q']
      atomic_waker_specD(3,4) [OF assms(3), of "WAKER kb"]
    by (cases "aw_wake AW (WAKER kb)") (simp add: add_scancode_def)
qed

lemma poll_next_some:
  assumes "once_spec OC" "queue_spec Q contents cap" "kb_queue OC kb = Some q" "contents q = c # cs"
  shows "\<exists>kb' q'. poll_next OC Q AW cx kb = Inr (NextReady c, kb') \<and> kb_queue OC kb' = Some q' \<and>
    contents q' = cs \<and> cap q' = cap q \<and> WAKER kb' = WAKER kb"
proof -
  obtain q' where q': "aq_pop Q q = Some (c, q')" "contents q' = cs" "cap q' = cap q"
    using queue_specD(6) [OF assms(2,4)] by blast
  then show ?thesis using assms(3) once_specD(4) [OF assms(1,3), of q'] by (simp add: poll_next_def)
qed

lemma poll_next_none:
  assumes "queue_spec Q contents cap" "kb_queue OC kb = Some q" "contents q = []"
  shows "poll_next OC Q AW cx kb = Inr (NextPending, kb\<lparr>WAKER := aw_register AW (WAKER kb) cx\<rparr>)"
  using assms(2) queue_specD(5) [OF assms(1,3)] by (simp add: poll_next_def Let_def)

lemma scancode_stream_new_ok:
  assumes "once_spec OC" "kb_queue OC kb = None"
  shows "\<exists>kb'. scancode_stream_new OC Q kb = Inr kb' \<and> kb_queue OC kb' = Some (aq_new Q 100) \<and> WAKER kb' = WAKER kb"
  using once_specD(2) [OF assms, of "aq_new Q 100"] by (auto simp: scancode_stream_new_def)

lemma scancode_stream_new_twice:
  assumes "once_spec OC" "kb_queue OC kb = Some q"
  shows "scancode_stream_new OC Q kb = Inl (Expect ''ScancodeStream::new should only be called once'')"
  using once_specD(3) [OF assms] by (simp add: scancode_stream_new_def)

text \<open>Without interrupts the steps compute \<open>poll_next\<close>.\<close>

lemma poll_next_steps:
  assumes "poll_next OC Q AW cx kb = Inr (r, kb')"
  shows "(poll_next_step OC Q AW cx)\<^sup>*\<^sup>* (poll_start kb) \<lparr>ps_kb = kb', ps_pc = Returned r, ps_woken = []\<rparr>"
proof -
  obtain q where q: "kb_queue OC kb = Some q" using assms by (auto simp: poll_next_def rbind_eq_Inr)
  show ?thesis
  proof (cases "aq_pop Q q")
    case (Some x)
    then obtain c q' where x: "aq_pop Q q = Some (c, q')" by (cases x) auto
    then show ?thesis
      using pop1_some [of "poll_start kb" OC q Q c q' AW cx] q assms
      by (auto simp: poll_next_def poll_start_def intro!: r_into_rtranclp)
  next
    case None
    let ?kb = "kb\<lparr>WAKER := aw_register AW (WAKER kb) cx\<rparr>"
    have r: "r = NextPending" "kb' = ?kb" using assms q None by (auto simp: poll_next_def Let_def)
    have "poll_next_step OC Q AW cx (poll_start kb) \<lparr>ps_kb = kb, ps_pc = Register, ps_woken = []\<rparr>"
      using pop1_none [of "poll_start kb" OC q Q AW cx] q None by (simp add: poll_start_def)
    moreover have "poll_next_step OC Q AW cx \<lparr>ps_kb = kb, ps_pc = Register, ps_woken = []\<rparr>
        \<lparr>ps_kb = ?kb, ps_pc = Pop2, ps_woken = []\<rparr>"
      using register [of "\<lparr>ps_kb = kb, ps_pc = Register, ps_woken = []\<rparr>" OC Q AW cx] by simp
    moreover have "poll_next_step OC Q AW cx \<lparr>ps_kb = ?kb, ps_pc = Pop2, ps_woken = []\<rparr>
        \<lparr>ps_kb = ?kb, ps_pc = Returned NextPending, ps_woken = []\<rparr>"
      using pop2_none [of "\<lparr>ps_kb = ?kb, ps_pc = Pop2, ps_woken = []\<rparr>" OC q Q AW cx] q None by simp
    ultimately show ?thesis
      unfolding r by (meson converse_rtranclp_into_rtranclp r_into_rtranclp)
  qed
qed

section \<open>The loop drains the queue\<close>

text \<open>What a sequence of scancodes prints.\<close>

fun decode_all :: "('kbd, 'er, 'ev, 'ch, 'kc) pc_keyboard_ops \<Rightarrow> u8 list \<Rightarrow> 'kbd \<Rightarrow> bytes list \<times> 'kbd" where
  "decode_all KB [] keyboard = ([], keyboard)"
| "decode_all KB (c # cs) keyboard =
     (let (out, keyboard') = process_scancode KB c keyboard;
          (outs, keyboard'') = decode_all KB cs keyboard' in (out @ outs, keyboard''))"

lemma keypress_loop_drains:
  assumes "once_spec OC" "queue_spec Q contents cap" "atomic_waker_spec AW reg" "kb_queue OC kb = Some q"
  shows "\<exists>kb' q'. keypress_loop OC Q AW KB cx printed keyboard kb =
      Some (Inr (printed @ fst (decode_all KB (contents q) keyboard), snd (decode_all KB (contents q) keyboard), kb')) \<and>
    kb_queue OC kb' = Some q' \<and> contents q' = [] \<and> cap q' = cap q \<and> reg (WAKER kb') = Some cx"
  using assms(4)
proof (induction "contents q" arbitrary: q kb printed keyboard)
  case Nil
  then have e: "contents q = []" by simp
  have "keypress_loop OC Q AW KB cx printed keyboard kb =
      Some (Inr (printed, keyboard, kb\<lparr>WAKER := aw_register AW (WAKER kb) cx\<rparr>))"
    using poll_next_none [OF assms(2) Nil.prems e, of AW cx] by (subst keypress_loop.simps) simp
  then show ?case using e Nil.prems atomic_waker_specD(2) [OF assms(3)] by simp
next
  case (Cons c cs)
  obtain kb1 q1 where p: "poll_next OC Q AW cx kb = Inr (NextReady c, kb1)" "kb_queue OC kb1 = Some q1"
      "contents q1 = cs" "cap q1 = cap q"
    using poll_next_some [OF assms(1,2) Cons.prems Cons.hyps(2) [symmetric], of AW cx] by blast
  obtain out keyboard1 where o: "process_scancode KB c keyboard = (out, keyboard1)" by fastforce
  have "keypress_loop OC Q AW KB cx printed keyboard kb = keypress_loop OC Q AW KB cx (printed @ out) keyboard1 kb1"
    using p(1) o by (subst keypress_loop.simps) simp
  then show ?case
    using Cons.hyps(1) [OF p(3) [symmetric] p(2), of "printed @ out" keyboard1] p(3,4) o
    by (simp add: Cons.hyps(2) [symmetric] case_prod_beta)
qed

section \<open>No wake-up is lost\<close>

text \<open>The poll and the interrupts, in any order.\<close>

definition poll_or_interrupt ::
  "('oc, 'q) once_ops \<Rightarrow> ('q, u8) queue_ops \<Rightarrow> ('aw, 'wk) atomic_waker_ops \<Rightarrow> 'wk \<Rightarrow>
    ('oc, 'aw, 'wk) poll_state \<Rightarrow> ('oc, 'aw, 'wk) poll_state \<Rightarrow> bool" where
  "poll_or_interrupt OC Q AW cx s s' = (poll_next_step OC Q AW cx s s' \<or> keyboard_interrupt OC Q AW s s')"

definition poll_inv ::
  "('oc, 'q) once_ops \<Rightarrow> ('q \<Rightarrow> u8 list) \<Rightarrow> ('aw \<Rightarrow> 'wk option) \<Rightarrow> 'wk \<Rightarrow> ('oc, 'aw, 'wk) poll_state \<Rightarrow> bool" where
  "poll_inv OC contents reg cx s =
     (\<exists>q. kb_queue OC (ps_kb s) = Some q \<and>
        (ps_pc s = Pop2 \<longrightarrow> reg (WAKER (ps_kb s)) = Some cx \<or> cx \<in> set (ps_woken s)) \<and>
        (ps_pc s = Returned NextPending \<longrightarrow>
           contents q = [] \<and> reg (WAKER (ps_kb s)) = Some cx \<or> cx \<in> set (ps_woken s)))"

lemma poll_next_step_inv:
  assumes "once_spec OC" "queue_spec Q contents cap" "atomic_waker_spec AW reg"
    and "poll_next_step OC Q AW cx s s'" "poll_inv OC contents reg cx s"
  shows "poll_inv OC contents reg cx s'"
  using assms(4)
proof (cases rule: poll_next_step.cases)
  case (pop2_none queue)
  have "contents queue = []"
  proof (rule ccontr)
    assume "contents queue \<noteq> []"
    then obtain y ys where "contents queue = y # ys" by (cases "contents queue") auto
    from queue_specD(6) [OF assms(2) this] pop2_none(4) show False by simp
  qed
  with assms(5) pop2_none show ?thesis by (auto simp: poll_inv_def)
qed (use assms(5) once_specD(4) [OF assms(1)] atomic_waker_specD(2) [OF assms(3)] in \<open>auto simp: poll_inv_def\<close>)

lemma keyboard_interrupt_inv:
  assumes "once_spec OC" "queue_spec Q contents cap" "atomic_waker_spec AW reg"
    and "keyboard_interrupt OC Q AW s s'" "poll_inv OC contents reg cx s"
  shows "poll_inv OC contents reg cx s'"
  using assms(4)
proof (cases rule: keyboard_interrupt.cases)
  case (interrupt c woken messages kb)
  obtain q where q: "kb_queue OC (ps_kb s) = Some q" using assms(5) by (auto simp: poll_inv_def)
  show ?thesis
  proof (cases "length (contents q) < cap q")
    case True
    obtain q' where "woken = reg (WAKER (ps_kb s))" "kb_queue OC kb = Some q'"
      using add_scancode_room [OF assms(1-3) q True, of c] interrupt(2) by auto
    with interrupt assms(5) show ?thesis by (auto simp: poll_inv_def split: option.splits)
  next
    case False
    then have "woken = None" "kb = ps_kb s"
      using add_scancode_full [OF assms(2) q, of AW c] interrupt(2) by auto
    with interrupt assms(5) show ?thesis by (simp add: poll_inv_def)
  qed
qed

lemma poll_reach_inv:
  assumes "once_spec OC" "queue_spec Q contents cap" "atomic_waker_spec AW reg" "kb_queue OC kb = Some q"
    and "(poll_or_interrupt OC Q AW cx)\<^sup>*\<^sup>* (poll_start kb) s"
  shows "poll_inv OC contents reg cx s"
  using assms(5)
proof (induction rule: rtranclp_induct)
  case base
  show ?case using assms(4) by (simp add: poll_inv_def poll_start_def)
next
  case (step s s')
  then show ?case
    using poll_next_step_inv [OF assms(1-3)] keyboard_interrupt_inv [OF assms(1-3)]
    unfolding poll_or_interrupt_def by metis
qed

section \<open>A series of key strokes\<close>

text \<open>The interrupts of a series of scancodes: the warnings that are printed, and the statics.\<close>

fun add_scancodes ::
  "('oc, 'q) once_ops \<Rightarrow> ('q, u8) queue_ops \<Rightarrow> ('aw, 'wk) atomic_waker_ops \<Rightarrow> u8 list \<Rightarrow> ('oc, 'aw) keyboard_statics \<Rightarrow>
    bytes list \<times> ('oc, 'aw) keyboard_statics" where
  "add_scancodes OC Q AW [] kb = ([], kb)"
| "add_scancodes OC Q AW (c # cs) kb =
     (let (woken, messages, kb') = add_scancode OC Q AW c kb;
          (messages', kb'') = add_scancodes OC Q AW cs kb' in (messages @ messages', kb''))"

lemma add_scancodes_queue:
  assumes "once_spec OC" "queue_spec Q contents cap" "atomic_waker_spec AW reg"
    and "kb_queue OC kb = Some q" "length (contents q) \<le> cap q"
  shows "\<exists>q'. kb_queue OC (snd (add_scancodes OC Q AW cs kb)) = Some q' \<and> cap q' = cap q \<and>
    contents q' = contents q @ take (cap q - length (contents q)) cs \<and>
    length (fst (add_scancodes OC Q AW cs kb)) = length cs - (cap q - length (contents q))"
  using assms(4,5)
proof (induction cs arbitrary: kb q)
  case (Cons c cs)
  show ?case
  proof (cases "length (contents q) < cap q")
    case True
    obtain kb1 q1 where a: "add_scancode OC Q AW c kb = (reg (WAKER kb), [], kb1)" "kb_queue OC kb1 = Some q1"
        "contents q1 = contents q @ [c]" "cap q1 = cap q"
      using add_scancode_room [OF assms(1-3) Cons.prems(1) True, of c] by blast
    have "take (cap q - length (contents q)) (c # cs) = c # take (cap q1 - length (contents q1)) cs"
      using True a(3,4) by (simp add: take_Cons')
    moreover have "length (c # cs) - (cap q - length (contents q)) = length cs - (cap q1 - length (contents q1))"
      using True a(3,4) by simp
    ultimately show ?thesis
      using Cons.IH [OF a(2)] a True by (auto simp: case_prod_beta)
  next
    case False
    then have full: "cap q = length (contents q)" using Cons.prems(2) by simp
    show ?thesis
      using Cons.IH [OF Cons.prems] add_scancode_full [OF assms(2) Cons.prems(1), of AW c] full
      by (auto simp: case_prod_beta)
  qed
qed simp

section \<open>Concrete crates, for the witnesses\<close>

definition ex_once :: "('q option, 'q) once_ops" where
  "ex_once = \<lparr>oc_uninit = None, oc_try_get = \<lambda>c. c,
     oc_try_init_once = \<lambda>c q. (case c of None \<Rightarrow> Some (Some q) | Some _ \<Rightarrow> None), oc_update = \<lambda>c q. Some q\<rparr>"

definition ex_waker :: "('wk option, 'wk) atomic_waker_ops" where
  "ex_waker = \<lparr>aw_new = None, aw_register = \<lambda>a k. Some k, aw_wake = \<lambda>a. (a, None), aw_take = \<lambda>a. (a, None)\<rparr>"

lemma ex_once_spec: "once_spec ex_once"
  by (auto simp: once_spec_def ex_once_def)

lemma ex_waker_spec: "atomic_waker_spec ex_waker (\<lambda>a. a)"
  by (simp add: atomic_waker_spec_def ex_waker_def)

text \<open>A decoder that shows every scancode as one character.\<close>

definition ex_keyboard :: "(unit, unit, u8, u8, u8) pc_keyboard_ops" where
  "ex_keyboard = \<lparr>kbd_new = (), kbd_add_byte = \<lambda>k c. (Inr (Some c), k),
     kbd_process_keyevent = \<lambda>k e. (Some (Unicode e), k), fmt_char = \<lambda>c. [c], fmt_keycode = \<lambda>c. [c]\<rparr>"

definition ex_statics :: "u8 list \<Rightarrow> ((u8 list \<times> nat) option, task_id option) keyboard_statics" where
  "ex_statics cs = \<lparr>SCANCODE_QUEUE = Some (cs, 100), WAKER = None\<rparr>"

lemma ex_statics_queue: "kb_queue ex_once (ex_statics cs) = Some (cs, 100)"
  by (simp add: ex_once_def ex_statics_def)

section \<open>Properties\<close>

text \<open>
  C14: the stream loses no wake-up: however keyboard interrupts are interleaved with the
  statements of \<open>poll_next\<close>, when it has returned \<open>Pending\<close> and there is a scancode in the queue,
  the waker it was polled with has been woken.
\<close>

theorem poll_next_loses_no_wakeup:
  assumes "once_spec OC" "queue_spec Q contents cap" "atomic_waker_spec AW reg" "kb_queue OC kb \<noteq> None"
    and "(poll_or_interrupt OC Q AW cx)\<^sup>*\<^sup>* (poll_start kb) s" "ps_pc s = Returned NextPending"
    and "kb_queue OC (ps_kb s) = Some q" "contents q \<noteq> []"
  shows "cx \<in> set (ps_woken s)"
proof -
  obtain q0 where "kb_queue OC kb = Some q0" using assms(4) by blast
  from poll_reach_inv [OF assms(1-3) this assms(5)] assms(6-8) show ?thesis
    by (auto simp: poll_inv_def)
qed

theorem poll_next_loses_no_wakeup_witness:
  "\<exists>s. (poll_or_interrupt ex_once list_queue ex_waker (TaskId 7))\<^sup>*\<^sup>* (poll_start (ex_statics [])) s \<and>
     ps_pc s = Returned NextPending \<and> kb_queue ex_once (ps_kb s) = Some ([30], 100) \<and> TaskId 7 \<in> set (ps_woken s)"
proof -
  let ?kb = "(ex_statics [])\<lparr>WAKER := Some (TaskId 7)\<rparr>"
  let ?s = "\<lparr>ps_kb = ?kb, ps_pc = Returned NextPending, ps_woken = []\<rparr>"
  let ?t = "\<lparr>ps_kb = ex_statics [30], ps_pc = Returned NextPending, ps_woken = [TaskId 7]\<rparr>"
  have "poll_next ex_once list_queue ex_waker (TaskId 7) (ex_statics []) = Inr (NextPending, ?kb)"
    using poll_next_none [OF list_queue_spec ex_statics_queue, of "[]" ex_waker "TaskId 7"]
    by (simp add: ex_waker_def)
  from poll_next_steps [OF this]
  have 1: "(poll_or_interrupt ex_once list_queue ex_waker (TaskId 7))\<^sup>*\<^sup>* (poll_start (ex_statics [])) ?s"
    by (rule rtranclp_mono [THEN predicate2D, rotated]) (auto simp: poll_or_interrupt_def)
  have "add_scancode ex_once list_queue ex_waker 30 ?kb = (Some (TaskId 7), [], ex_statics [30])"
    by (simp add: add_scancode_def ex_once_def ex_waker_def list_queue_def ex_statics_def)
  then have 2: "poll_or_interrupt ex_once list_queue ex_waker (TaskId 7) ?s ?t"
    using interrupt [of ex_once list_queue ex_waker 30 ?s] by (simp add: poll_or_interrupt_def)
  have r: "(poll_or_interrupt ex_once list_queue ex_waker (TaskId 7))\<^sup>*\<^sup>* (poll_start (ex_statics [])) ?t"
    using 1 2 by (rule rtranclp.rtrancl_into_rtrancl)
  from poll_next_loses_no_wakeup [OF ex_once_spec list_queue_spec ex_waker_spec _ r] r
  show ?thesis by (intro exI [of _ ?t]) (simp add: ex_statics_queue)
qed

text \<open>
  C18: the first poll of \<open>print_keypresses\<close> creates the queue, so that of the scancodes that
  arrive until the next poll the first hundred are kept and printed in order by it; each further
  one is dropped with a warning.
\<close>

theorem keyboard_end_to_end:
  assumes "once_spec OC" "queue_spec Q contents cap" "atomic_waker_spec AW reg"
    and "kb_queue OC kb = None"
  shows "\<exists>kb1 kb2. print_keypresses_poll OC Q AW KB cx NotStarted kb = Some (Inr ([], Looping (kbd_new KB), kb1)) \<and>
    length (fst (add_scancodes OC Q AW cs kb1)) = length cs - 100 \<and>
    print_keypresses_poll OC Q AW KB cx (Looping (kbd_new KB)) (snd (add_scancodes OC Q AW cs kb1)) =
      Some (Inr (fst (decode_all KB (take 100 cs) (kbd_new KB)), Looping (snd (decode_all KB (take 100 cs) (kbd_new KB))), kb2))"
proof -
  obtain kb0 where kb0: "scancode_stream_new OC Q kb = Inr kb0" "kb_queue OC kb0 = Some (aq_new Q 100)"
    using scancode_stream_new_ok [OF assms(1,4)] by blast
  note new = queue_specD(1,2) [OF assms(2), of 100]
  obtain kb1 q1 where kb1: "keypress_loop OC Q AW KB cx [] (kbd_new KB) kb0 = Some (Inr ([], kbd_new KB, kb1))"
      "kb_queue OC kb1 = Some q1" "contents q1 = []" "cap q1 = 100"
    using keypress_loop_drains [OF assms(1-3) kb0(2), of KB cx "[]" "kbd_new KB"] new by auto
  obtain q2 where q2: "kb_queue OC (snd (add_scancodes OC Q AW cs kb1)) = Some q2" "contents q2 = take 100 cs"
      "length (fst (add_scancodes OC Q AW cs kb1)) = length cs - 100"
    using add_scancodes_queue [OF assms(1-3) kb1(2), of cs] kb1(3,4) by auto
  show ?thesis
    using keypress_loop_drains [OF assms(1-3) q2(1), of KB cx "[]" "kbd_new KB"] kb0(1) kb1(1) q2(2,3)
    by (auto simp: print_keypresses_poll_def)
qed

theorem keyboard_end_to_end_witness:
  "\<exists>kb1. print_keypresses_poll ex_once list_queue ex_waker ex_keyboard (TaskId 7) NotStarted
       \<lparr>SCANCODE_QUEUE = None, WAKER = None\<rparr> = Some (Inr ([], Looping (), kb1)) \<and>
     length (fst (add_scancodes ex_once list_queue ex_waker (replicate 103 30) kb1)) = 3"
proof -
  have n: "kb_queue ex_once \<lparr>SCANCODE_QUEUE = None, WAKER = None :: task_id option\<rparr> = None"
    by (simp add: ex_once_def)
  have "length (replicate 103 (30 :: u8)) - 100 = 3" "kbd_new ex_keyboard = ()" by simp_all
  with keyboard_end_to_end [OF ex_once_spec list_queue_spec ex_waker_spec n, of ex_keyboard "TaskId 7" "replicate 103 30"]
  show ?thesis by metis
qed

end
