(* ===== verification/Vga_Buffer.thy ===== *)
theory Vga_Buffer
  imports Prelude
begin

unbundle bit_operations_syntax

text \<open>
  \<^verbatim>\<open>src/vga_buffer.rs\<close>: the text screen. The cells of the buffer are \<open>Volatile\<close>, a third-party
  type: \<open>'c\<close> with the operations of \<open>volatile_ops\<close>, of which the code relies on reading back
  what was written (\<open>volatile_spec\<close>). A formatted message is the list of the strings that
  \<open>core::fmt\<close> hands to \<open>write_str\<close>.
\<close>

section \<open>Colours and cells\<close>

datatype colour =
    Black | Blue | Green | Cyan | Red | Magenta | Brown | LightGray
  | DarkGray | LightBlue | LightGreen | LightCyan | LightRed | Pink | Yellow | White

fun colour_as_u8 :: "colour \<Rightarrow> u8" where
  "colour_as_u8 Black = 0"
| "colour_as_u8 Blue = 1"
| "colour_as_u8 Green = 2"
| "colour_as_u8 Cyan = 3"
| "colour_as_u8 Red = 4"
| "colour_as_u8 Magenta = 5"
| "colour_as_u8 Brown = 6"
| "colour_as_u8 LightGray = 7"
| "colour_as_u8 DarkGray = 8"
| "colour_as_u8 LightBlue = 9"
| "colour_as_u8 LightGreen = 10"
| "colour_as_u8 LightCyan = 11"
| "colour_as_u8 LightRed = 12"
| "colour_as_u8 Pink = 13"
| "colour_as_u8 Yellow = 14"
| "colour_as_u8 White = 15"

datatype colour_code = ColourCode (code_u8: u8)

definition colour_code_new :: "colour \<Rightarrow> colour \<Rightarrow> colour_code" where
  "colour_code_new foreground background =
     ColourCode (push_bit 4 (colour_as_u8 background) OR colour_as_u8 foreground)"

record screen_char =
  ascii_character :: u8
  sc_colour_code :: colour_code

definition BUFFER_HEIGHT :: usize where "BUFFER_HEIGHT = 25"
definition BUFFER_WIDTH :: usize where "BUFFER_WIDTH = 80"

record 'c volatile_ops =
  volatile_read :: "'c \<Rightarrow> screen_char"
  volatile_write :: "'c \<Rightarrow> screen_char \<Rightarrow> 'c"

type_synonym 'c vga_cells = "'c list list"

record 'c writer =
  column_position :: usize
  colour_code :: colour_code
  buffer :: "'c vga_cells"

section \<open>Writing\<close>

text \<open>\<open>buffer.chars[row][col].read()\<close> and \<open>.write(c)\<close>.\<close>

definition chars_read :: "'c volatile_ops \<Rightarrow> 'c vga_cells \<Rightarrow> nat \<Rightarrow> nat \<Rightarrow> screen_char result" where
  "chars_read V chars row col =
     rbind (index_at chars row) (\<lambda>r. rbind (index_at r col) (\<lambda>c. Inr (volatile_read V c)))"

definition chars_write ::
  "'c volatile_ops \<Rightarrow> 'c vga_cells \<Rightarrow> nat \<Rightarrow> nat \<Rightarrow> screen_char \<Rightarrow> 'c vga_cells result" where
  "chars_write V chars row col x =
     rbind (index_at chars row) (\<lambda>r. rbind (index_at r col) (\<lambda>c.
       Inr (chars[row := r[col := volatile_write V c x]])))"

definition clear_row :: "'c volatile_ops \<Rightarrow> 'c writer \<Rightarrow> nat \<Rightarrow> 'c writer result" where
  "clear_row V self row =
     (let blank = \<lparr>ascii_character = 0x20, sc_colour_code = colour_code self\<rparr> in
      rbind (rfold (\<lambda>col chars. chars_write V chars row col blank) [0..<unat BUFFER_WIDTH] (buffer self))
        (\<lambda>chars. Inr (self\<lparr>buffer := chars\<rparr>)))"

definition new_line :: "'c volatile_ops \<Rightarrow> 'c writer \<Rightarrow> 'c writer result" where
  "new_line V self =
     rbind (rfold (\<lambda>row. rfold (\<lambda>col chars.
              rbind (chars_read V chars row col) (\<lambda>character.
                chars_write V chars (row - 1) col character)) [0..<unat BUFFER_WIDTH])
            [1..<unat BUFFER_HEIGHT] (buffer self)) (\<lambda>chars.
     rbind (clear_row V (self\<lparr>buffer := chars\<rparr>) (unat BUFFER_HEIGHT - 1)) (\<lambda>self.
       Inr (self\<lparr>column_position := 0\<rparr>)))"

definition write_byte :: "'c volatile_ops \<Rightarrow> u8 \<Rightarrow> 'c writer \<Rightarrow> 'c writer result" where
  "write_byte V byte self =
     (if byte = 0x0a then new_line V self
      else
        rbind (if column_position self \<ge> BUFFER_WIDTH then new_line V self else Inr self) (\<lambda>self.
        let row = unat BUFFER_HEIGHT - 1; col = unat (column_position self); colour_code = colour_code self in
        rbind (chars_write V (buffer self) row col \<lparr>ascii_character = byte, sc_colour_code = colour_code\<rparr>) (\<lambda>chars.
        rbind (uadd (column_position self) 1) (\<lambda>column.
          Inr (self\<lparr>buffer := chars, column_position := column\<rparr>)))))"

definition write_string :: "'c volatile_ops \<Rightarrow> bytes \<Rightarrow> 'c writer \<Rightarrow> 'c writer result" where
  "write_string V s self =
     rfold (\<lambda>byte. write_byte V (if 0x20 \<le> byte \<and> byte \<le> 0x7e \<or> byte = 0x0a then byte else 0xfe)) s self"

text \<open>\<open>fmt::Write for Writer\<close>: \<open>write_str\<close> always returns \<open>Ok(())\<close>, so \<open>write_fmt\<close> writes every piece.\<close>

definition write_str :: "'c volatile_ops \<Rightarrow> bytes \<Rightarrow> 'c writer \<Rightarrow> 'c writer result" where
  "write_str V s self = write_string V s self"

definition write_fmt :: "'c volatile_ops \<Rightarrow> bytes list \<Rightarrow> 'c writer \<Rightarrow> 'c writer result" where
  "write_fmt V args self = rfold (write_str V) args self"

text \<open>The initial value of the static \<open>WRITER\<close>, over the cells that are at \<open>0xb8000\<close>.\<close>

definition WRITER_new :: "'c vga_cells \<Rightarrow> 'c writer" where
  "WRITER_new cells =
     \<lparr>column_position = 0, colour_code = colour_code_new Pink Black, buffer = cells\<rparr>"

definition print_something :: "'c volatile_ops \<Rightarrow> 'c vga_cells \<Rightarrow> 'c writer result" where
  "print_something V cells =
     rbind (write_byte V 0x57 \<lparr>column_position = 0, colour_code = colour_code_new Pink Black, buffer = cells\<rparr>) (\<lambda>w.
     rbind (write_string V (ascii ''ello '') w) (\<lambda>w.
     rbind (write_string V (ascii ''W'' @ [0xc3, 0xb6] @ ascii ''rt! '' @ [0x0a]) w) (\<lambda>w.
       write_fmt V [ascii ''Print numbers '', ascii ''42'', ascii '' and '', ascii ''0.3333333333333333''] w)))"

text \<open>\<open>println!\<close> appends a newline to the formatted message.\<close>

definition println_args :: "bytes list \<Rightarrow> bytes list" where
  "println_args args = args @ [[0x0a]]"

definition println :: "'c volatile_ops \<Rightarrow> bytes list \<Rightarrow> 'c writer \<Rightarrow> 'c writer result" where
  "println V args w = write_fmt V (println_args args) w"

text \<open>The tests \<open>test_println_simple\<close> and \<open>test_println_many\<close>.\<close>

definition test_println_simple :: "'c volatile_ops \<Rightarrow> 'c writer \<Rightarrow> 'c writer result" where
  "test_println_simple V writer = println V [ascii ''test_println_simple output''] writer"

definition test_println_many :: "'c volatile_ops \<Rightarrow> 'c writer \<Rightarrow> 'c writer result" where
  "test_println_many V writer = rfold (\<lambda>_. println V [ascii ''test_println_many output'']) [0..<200] writer"

text \<open>
  The test \<open>test_println_output\<close>, for any string: write it between two newlines, and compare the
  last row but one with it.
\<close>

definition test_println_output :: "'c volatile_ops \<Rightarrow> bytes \<Rightarrow> 'c writer \<Rightarrow> 'c writer result" where
  "test_println_output V s writer =
     rbind (write_fmt V [[0x0a], s, [0x0a]] writer) (\<lambda>writer.
     rfold (\<lambda>(i, c) writer.
       rbind (chars_read V (buffer writer) (unat BUFFER_HEIGHT - 2) i) (\<lambda>screen_char.
       rbind (rassert (ascii_character screen_char = c)) (\<lambda>_. Inr writer))) (enumerate 0 s) writer)"

section \<open>The screen\<close>

text \<open>What is shown: the values of the cells.\<close>

definition volatile_spec :: "'c volatile_ops \<Rightarrow> bool" where
  "volatile_spec V = (\<forall>c x. volatile_read V (volatile_write V c x) = x)"

definition screen :: "'c volatile_ops \<Rightarrow> 'c vga_cells \<Rightarrow> screen_char list list" where
  "screen V chars = map (map (volatile_read V)) chars"

definition wf_cells :: "'c vga_cells \<Rightarrow> bool" where
  "wf_cells chars = (length chars = 25 \<and> (\<forall>r \<in> set chars. length r = 80))"

definition wf_writer :: "'c writer \<Rightarrow> bool" where
  "wf_writer w = (wf_cells (buffer w) \<and> unat (column_position w) \<le> 80)"

lemma unat_BUFFER [simp]: "unat BUFFER_HEIGHT = 25" "unat BUFFER_WIDTH = 80"
  by (simp_all add: BUFFER_HEIGHT_def BUFFER_WIDTH_def)

lemma screen_dims:
  assumes "wf_cells chars"
  shows "length (screen V chars) = 25" "i < 25 \<Longrightarrow> length (screen V chars ! i) = 80"
  using assms by (simp_all add: wf_cells_def screen_def)

lemma chars_read_ok:
  assumes "wf_cells chars" "row < 25" "col < 80"
  shows "chars_read V chars row col = Inr (screen V chars ! row ! col)"
  using assms by (simp add: chars_read_def wf_cells_def screen_def)

lemma chars_write_ok:
  assumes "volatile_spec V" "wf_cells chars" "row < 25" "col < 80"
  shows "\<exists>chars'. chars_write V chars row col x = Inr chars' \<and> wf_cells chars' \<and>
    screen V chars' = (screen V chars)[row := (screen V chars ! row)[col := x]]"
  using assms
  by (auto simp: chars_write_def wf_cells_def screen_def volatile_spec_def map_update
      dest: set_update_subset_insert [THEN subsetD])

section \<open>The loops of new_line and clear_row\<close>

lemma copy_row:
  assumes V: "volatile_spec V" and wf: "wf_cells chars" and row: "1 \<le> row" "row < 25"
  shows "\<exists>chars'. rfold (\<lambda>col chars. rbind (chars_read V chars row col) (\<lambda>character.
      chars_write V chars (row - 1) col character)) [0..<80] chars = Inr chars' \<and> wf_cells chars' \<and>
    screen V chars' = (screen V chars)[row - 1 := screen V chars ! row]"
proof -
  let ?S = "screen V chars"
  let ?P = "\<lambda>n chars'. wf_cells chars' \<and>
    screen V chars' = ?S[row - 1 := take n (?S ! row) @ drop n (?S ! (row - 1))]"
  note dims = screen_dims [OF wf, where V = V]
  have "\<exists>chars'. rfold (\<lambda>col chars. rbind (chars_read V chars row col) (\<lambda>character.
      chars_write V chars (row - 1) col character)) [0..<80] chars = Inr chars' \<and> ?P 80 chars'"
  proof (rule rfold_upt)
    show "?P 0 chars" using wf by simp
    fix col c assume col: "col < 80" and P: "?P col c"
    have "chars_read V c row col = Inr (?S ! row ! col)"
      using chars_read_ok [of c row col V] P row col by simp
    moreover obtain c' where c': "chars_write V c (row - 1) col (?S ! row ! col) = Inr c'" "wf_cells c'"
        "screen V c' = (screen V c)[row - 1 := (screen V c ! (row - 1))[col := ?S ! row ! col]]"
      using chars_write_ok [OF V, of c "row - 1" col "?S ! row ! col"] P less_imp_diff_less [OF row(2)] col by blast
    moreover have "(take col (?S ! row) @ drop col (?S ! (row - 1)))[col := ?S ! row ! col] =
        take (Suc col) (?S ! row) @ drop (Suc col) (?S ! (row - 1))"
      using dims(2) [of row] dims(2) [of "row - 1"] row col
      by (simp add: list_update_append take_Suc_conv_app_nth Cons_nth_drop_Suc [symmetric])
    ultimately show "\<exists>c'. rbind (chars_read V c row col) (\<lambda>character.
        chars_write V c (row - 1) col character) = Inr c' \<and> ?P (Suc col) c'"
      using P row dims(1) by simp
  qed simp
  moreover have "take 80 (?S ! row) @ drop 80 (?S ! (row - 1)) = ?S ! row"
    using dims(2) [of row] dims(2) [of "row - 1"] row by simp
  ultimately show ?thesis by simp
qed

lemma scroll_rows:
  assumes V: "volatile_spec V" and wf: "wf_cells chars"
  shows "\<exists>chars'. rfold (\<lambda>row. rfold (\<lambda>col chars. rbind (chars_read V chars row col) (\<lambda>character.
      chars_write V chars (row - 1) col character)) [0..<80]) [1..<25] chars = Inr chars' \<and> wf_cells chars' \<and>
    screen V chars' = tl (screen V chars) @ [last (screen V chars)]"
proof -
  let ?S = "screen V chars"
  let ?P = "\<lambda>n chars'. wf_cells chars' \<and> screen V chars' = take (n - 1) (tl ?S) @ drop (n - 1) ?S"
  note dims = screen_dims [OF wf, where V = V]
  have "\<exists>chars'. rfold (\<lambda>row. rfold (\<lambda>col chars. rbind (chars_read V chars row col) (\<lambda>character.
      chars_write V chars (row - 1) col character)) [0..<80]) [1..<25] chars = Inr chars' \<and> ?P 25 chars'"
  proof (rule rfold_upt)
    show "?P 1 chars" using wf by simp
    fix row c assume row: "1 \<le> row" "row < 25" and P: "?P row c"
    obtain k where k: "row = Suc k" using row(1) by (cases row) auto
    have "screen V c ! row = tl ?S ! k" "k < 24" "length (tl ?S) = 24"
      using P row(2) dims(1) k by (simp_all add: nth_append nth_tl)
    moreover have "(take k (tl ?S) @ drop k ?S)[k := tl ?S ! k] = take (Suc k) (tl ?S) @ drop (Suc k) ?S"
      using dims(1) k row(2)
      by (simp add: list_update_append take_Suc_conv_app_nth Cons_nth_drop_Suc [symmetric])
    ultimately show "\<exists>c'. rfold (\<lambda>col chars. rbind (chars_read V chars row col) (\<lambda>character.
        chars_write V chars (row - 1) col character)) [0..<80] c = Inr c' \<and> ?P (Suc row) c'"
      using copy_row [OF V, of c row] P row k by (auto simp: take_Suc)
  qed simp
  moreover have "drop 24 ?S = [last ?S]"
  proof -
    have "?S \<noteq> []" using dims(1) by auto
    then show ?thesis using Cons_nth_drop_Suc [of 24 ?S] last_conv_nth [of ?S] dims(1) by simp
  qed
  ultimately show ?thesis using dims(1) by simp
qed

lemma clear_row_ok:
  assumes V: "volatile_spec V" and wf: "wf_cells (buffer w)" and row: "row < 25"
  shows "\<exists>chars'. clear_row V w row = Inr (w\<lparr>buffer := chars'\<rparr>) \<and> wf_cells chars' \<and>
    screen V chars' = (screen V (buffer w))[row := replicate 80 \<lparr>ascii_character = 0x20, sc_colour_code = colour_code w\<rparr>]"
proof -
  let ?S = "screen V (buffer w)" and ?b = "\<lparr>ascii_character = 0x20, sc_colour_code = colour_code w\<rparr>"
  let ?P = "\<lambda>n c. wf_cells c \<and> screen V c = ?S[row := replicate n ?b @ drop n (?S ! row)]"
  note dims = screen_dims [OF wf, where V = V]
  have "\<exists>c. rfold (\<lambda>col chars. chars_write V chars row col ?b) [0..<80] (buffer w) = Inr c \<and> ?P 80 c"
  proof (rule rfold_upt)
    show "?P 0 (buffer w)" using wf by simp
    fix col c assume col: "col < 80" and P: "?P col c"
    have "(replicate col ?b @ drop col (?S ! row))[col := ?b] = replicate (Suc col) ?b @ drop (Suc col) (?S ! row)"
      using dims(2) [OF row] col
      by (simp add: list_update_append replicate_append_same [symmetric] Cons_nth_drop_Suc [symmetric])
    then show "\<exists>c'. chars_write V c row col ?b = Inr c' \<and> ?P (Suc col) c'"
      using chars_write_ok [OF V, of c row col ?b] P row col dims(1) by auto
  qed simp
  then show ?thesis using dims(2) [OF row] by (auto simp: clear_row_def Let_def)
qed

lemma new_line_ok:
  assumes V: "volatile_spec V" and wf: "wf_cells (buffer w)"
  shows "\<exists>chars'. new_line V w = Inr (w\<lparr>buffer := chars', column_position := 0\<rparr>) \<and> wf_cells chars' \<and>
    screen V chars' = tl (screen V (buffer w)) @
      [replicate 80 \<lparr>ascii_character = 0x20, sc_colour_code = colour_code w\<rparr>]"
proof -
  let ?S = "screen V (buffer w)"
  obtain c where c: "rfold (\<lambda>row. rfold (\<lambda>col chars. rbind (chars_read V chars row col) (\<lambda>character.
      chars_write V chars (row - 1) col character)) [0..<80]) [1..<25] (buffer w) = Inr c" "wf_cells c"
      "screen V c = tl ?S @ [last ?S]"
    using scroll_rows [OF V wf] by blast
  obtain d where d: "clear_row V (w\<lparr>buffer := c\<rparr>) 24 = Inr (w\<lparr>buffer := d\<rparr>)" "wf_cells d"
      "screen V d = (tl ?S @ [last ?S])[24 := replicate 80 \<lparr>ascii_character = 0x20, sc_colour_code = colour_code w\<rparr>]"
    using clear_row_ok [OF V, of "w\<lparr>buffer := c\<rparr>" 24] c(2,3) by auto
  have "length (tl ?S) = 24" using screen_dims(1) [OF wf, of V] by simp
  then show ?thesis
    using c(1) d by (auto simp: new_line_def list_update_append)
qed

section \<open>An unbounded terminal as the specification\<close>

text \<open>
  The specification of the writer is a terminal that never forgets a row. The screen shows
  its last 25 rows.
\<close>

record terminal =
  t_rows :: "screen_char list list"
  t_col :: nat

definition blank_row :: "colour_code \<Rightarrow> screen_char list" where
  "blank_row cc = replicate 80 \<lparr>ascii_character = 0x20, sc_colour_code = cc\<rparr>"

definition term_newline :: "colour_code \<Rightarrow> terminal \<Rightarrow> terminal" where
  "term_newline cc t = \<lparr>t_rows = t_rows t @ [blank_row cc], t_col = 0\<rparr>"

definition term_put :: "colour_code \<Rightarrow> u8 \<Rightarrow> terminal \<Rightarrow> terminal" where
  "term_put cc b t =
     \<lparr>t_rows = butlast (t_rows t) @ [(last (t_rows t))[t_col t := \<lparr>ascii_character = b, sc_colour_code = cc\<rparr>]],
      t_col = Suc (t_col t)\<rparr>"

definition term_byte :: "colour_code \<Rightarrow> u8 \<Rightarrow> terminal \<Rightarrow> terminal" where
  "term_byte cc b t =
     (if b = 0x0a then term_newline cc t
      else if t_col t < 80 then term_put cc b t
      else term_put cc b (term_newline cc t))"

definition printable :: "u8 \<Rightarrow> u8" where
  "printable b = (if 0x20 \<le> b \<and> b \<le> 0x7e \<or> b = 0x0a then b else 0xfe)"

definition term_write :: "colour_code \<Rightarrow> bytes \<Rightarrow> terminal \<Rightarrow> terminal" where
  "term_write cc s t = fold (\<lambda>b. term_byte cc (printable b)) s t"

definition shows_terminal :: "'c volatile_ops \<Rightarrow> 'c writer \<Rightarrow> terminal \<Rightarrow> bool" where
  "shows_terminal V w t =
     (wf_writer w \<and> 25 \<le> length (t_rows t) \<and>
      screen V (buffer w) = drop (length (t_rows t) - 25) (t_rows t) \<and> unat (column_position w) = t_col t)"

lemma new_line_shows:
  assumes "volatile_spec V" "shows_terminal V w t"
  shows "\<exists>w'. new_line V w = Inr w' \<and> shows_terminal V w' (term_newline (colour_code w) t) \<and>
    colour_code w' = colour_code w"
proof -
  have wf: "wf_cells (buffer w)" using assms(2) by (simp add: shows_terminal_def wf_writer_def)
  obtain c where c: "new_line V w = Inr (w\<lparr>buffer := c, column_position := 0\<rparr>)" "wf_cells c"
      "screen V c = tl (screen V (buffer w)) @ [blank_row (colour_code w)]"
    using new_line_ok [OF assms(1) wf] by (auto simp: blank_row_def)
  have "Suc (length (t_rows t)) - 25 = Suc (length (t_rows t) - 25)"
    using assms(2) unfolding shows_terminal_def by linarith
  then have "tl (drop (length (t_rows t) - 25) (t_rows t)) = drop (Suc (length (t_rows t)) - 25) (t_rows t)"
    by (simp add: tl_drop drop_Suc)
  then show ?thesis
    using c assms(2) by (auto simp: shows_terminal_def wf_writer_def term_newline_def Suc_diff_le)
qed

lemma put_shows:
  assumes V: "volatile_spec V" and sh: "shows_terminal V w t" and col: "unat (column_position w) < 80"
  shows "\<exists>w'. rbind (chars_write V (buffer w) 24 (unat (column_position w)) \<lparr>ascii_character = b, sc_colour_code = colour_code w\<rparr>)
      (\<lambda>chars. rbind (uadd (column_position w) 1) (\<lambda>column.
        Inr (w\<lparr>buffer := chars, column_position := column\<rparr>))) = Inr w' \<and>
    shows_terminal V w' (term_put (colour_code w) b t) \<and> colour_code w' = colour_code w"
proof -
  let ?x = "\<lparr>ascii_character = b, sc_colour_code = colour_code w\<rparr>" and ?col = "unat (column_position w)"
  let ?d = "length (t_rows t) - 25"
  have wf: "wf_cells (buffer w)" and len: "25 \<le> length (t_rows t)"
    and S: "screen V (buffer w) = drop ?d (t_rows t)" and tc: "t_col t = ?col"
    using sh by (simp_all add: shows_terminal_def wf_writer_def)
  obtain c where c: "chars_write V (buffer w) 24 ?col ?x = Inr c" "wf_cells c"
      "screen V c = (drop ?d (t_rows t))[24 := (drop ?d (t_rows t) ! 24)[?col := ?x]]"
    using chars_write_ok [OF V wf, of 24 ?col ?x] col S by auto
  have "t_rows t \<noteq> []" using len by auto
  then obtain rs r where rs: "t_rows t = rs @ [r]" by (cases "t_rows t" rule: rev_cases) auto
  then have "24 \<le> length rs" using len by simp
  then have "screen V c = drop ?d (rs @ [r[?col := ?x]])"
    using c(3) rs by (simp add: nth_append list_update_append)
  then have sc: "screen V c = drop ?d (t_rows (term_put (colour_code w) b t))"
    using rs tc by (simp add: term_put_def)
  have u: "uadd (column_position w) 1 = Inr (column_position w + 1)" "unat (column_position w + 1) = Suc ?col"
    using col unat_add64 [of "column_position w" 1] by (simp_all add: uadd_def)
  have "length (t_rows (term_put (colour_code w) b t)) = length (t_rows t)"
    using rs by (simp add: term_put_def)
  then show ?thesis
    using c(1,2) sc u col len tc by (simp add: shows_terminal_def wf_writer_def) (simp add: term_put_def)
qed

lemma write_byte_shows:
  assumes V: "volatile_spec V" and sh: "shows_terminal V w t"
  shows "\<exists>w'. write_byte V b w = Inr w' \<and> shows_terminal V w' (term_byte (colour_code w) b t) \<and>
    colour_code w' = colour_code w"
proof -
  have tc: "t_col t = unat (column_position w)" using sh by (simp add: shows_terminal_def)
  consider "b = 0x0a" | "b \<noteq> 0x0a" "t_col t < 80" | "b \<noteq> 0x0a" "80 \<le> t_col t" by linarith
  then show ?thesis
  proof cases
    case 1
    then show ?thesis using new_line_shows [OF assms] by (simp add: write_byte_def term_byte_def)
  next
    case 2
    then have "\<not> BUFFER_WIDTH \<le> column_position w" using tc by (simp add: word_le_nat_alt)
    then show ?thesis
      using put_shows [OF assms, of b] 2 tc by (simp add: write_byte_def term_byte_def Let_def)
  next
    case 3
    then have "BUFFER_WIDTH \<le> column_position w" using tc by (simp add: word_le_nat_alt)
    moreover obtain w1 where w1: "new_line V w = Inr w1" "shows_terminal V w1 (term_newline (colour_code w) t)"
        "colour_code w1 = colour_code w"
      using new_line_shows [OF assms] by blast
    moreover have "unat (column_position w1) < 80" using w1(2) by (simp add: shows_terminal_def term_newline_def)
    ultimately show ?thesis
      using put_shows [OF V w1(2), of b] 3 by (auto simp: write_byte_def term_byte_def Let_def)
  qed
qed

lemma write_string_shows:
  assumes "volatile_spec V" "shows_terminal V w t"
  shows "\<exists>w'. write_string V s w = Inr w' \<and> shows_terminal V w' (term_write (colour_code w) s t) \<and>
    colour_code w' = colour_code w"
  using assms(2)
proof (induction s arbitrary: w t)
  case (Cons b s)
  obtain w1 where w1: "write_byte V (printable b) w = Inr w1"
      "shows_terminal V w1 (term_byte (colour_code w) (printable b) t)" "colour_code w1 = colour_code w"
    using write_byte_shows [OF assms(1) Cons.prems] by blast
  from Cons.IH [OF w1(2)] w1 show ?case by (simp add: write_string_def term_write_def printable_def)
qed (simp add: write_string_def term_write_def)

lemma write_fmt_shows:
  assumes "volatile_spec V" "shows_terminal V w t"
  shows "\<exists>w'. write_fmt V args w = Inr w' \<and> shows_terminal V w' (term_write (colour_code w) (concat args) t) \<and>
    colour_code w' = colour_code w"
  using assms(2)
proof (induction args arbitrary: w t)
  case (Cons s args)
  obtain w1 where w1: "write_string V s w = Inr w1" "shows_terminal V w1 (term_write (colour_code w) s t)"
      "colour_code w1 = colour_code w"
    using write_string_shows [OF assms(1) Cons.prems] by blast
  from Cons.IH [OF w1(2)] w1 show ?case by (simp add: write_fmt_def write_str_def term_write_def)
qed (simp add: write_fmt_def term_write_def)

text \<open>A line of printable characters that fits into the row appears in it unchanged.\<close>

definition chars_of :: "colour_code \<Rightarrow> bytes \<Rightarrow> screen_char list" where
  "chars_of cc s = map (\<lambda>b. \<lparr>ascii_character = b, sc_colour_code = cc\<rparr>) s"

lemma term_write_line:
  assumes "\<forall>b \<in> set s. 0x20 \<le> b \<and> b \<le> 0x7e" "n + length s \<le> 80" "length r = 80"
  shows "term_write cc s \<lparr>t_rows = rs @ [r], t_col = n\<rparr> =
    \<lparr>t_rows = rs @ [take n r @ chars_of cc s @ drop (n + length s) r], t_col = n + length s\<rparr>"
  using assms
proof (induction s arbitrary: n r)
  case Nil
  then show ?case by (simp add: term_write_def chars_of_def)
next
  case (Cons b s)
  let ?x = "\<lparr>ascii_character = b, sc_colour_code = cc\<rparr>"
  have b: "printable b = b" "b \<noteq> 0x0a" "n < 80" using Cons.prems by (auto simp: printable_def)
  have r: "take n (r[n := ?x]) = take n r" "drop (Suc n + length s) (r[n := ?x]) = drop (Suc n + length s) r"
    "take (Suc n) (r[n := ?x]) = take n r @ [?x]"
    using b(3) Cons.prems(3) by (simp_all add: take_Suc_conv_app_nth)
  have "term_write cc s \<lparr>t_rows = rs @ [r[n := ?x]], t_col = Suc n\<rparr> =
      \<lparr>t_rows = rs @ [take (Suc n) (r[n := ?x]) @ chars_of cc s @ drop (Suc n + length s) (r[n := ?x])],
       t_col = Suc n + length s\<rparr>"
    using Cons.prems by (intro Cons.IH) simp_all
  then show ?case
    using b r by (simp add: term_write_def term_byte_def term_put_def chars_of_def)
qed

lemma println_shows:
  assumes "\<forall>b \<in> set s. 0x20 \<le> b \<and> b \<le> 0x7e" "length s \<le> 80"
  shows "term_write cc (concat [[0x0a], s, [0x0a]]) t =
    \<lparr>t_rows = t_rows t @ [chars_of cc s @ drop (length s) (blank_row cc), blank_row cc], t_col = 0\<rparr>"
proof -
  have nl: "printable 0x0a = 0x0a" by (simp add: printable_def)
  have "term_write cc (concat [[0x0a], s, [0x0a]]) t =
      term_newline cc (term_write cc s \<lparr>t_rows = t_rows t @ [blank_row cc], t_col = 0\<rparr>)"
    by (simp add: term_write_def term_byte_def nl term_newline_def)
  also have "\<dots> = \<lparr>t_rows = t_rows t @ [chars_of cc s @ drop (length s) (blank_row cc), blank_row cc], t_col = 0\<rparr>"
    using assms by (subst term_write_line) (simp_all add: blank_row_def term_newline_def)
  finally show ?thesis .
qed

lemma wf_shows: "wf_writer w \<Longrightarrow> shows_terminal V w \<lparr>t_rows = screen V (buffer w), t_col = unat (column_position w)\<rparr>"
  by (simp add: shows_terminal_def wf_writer_def screen_dims)

lemma println_screen:
  assumes "volatile_spec V" "wf_writer w" "\<forall>b \<in> set s. 0x20 \<le> b \<and> b \<le> 0x7e" "length s \<le> 80"
  shows "\<exists>w'. write_fmt V [[0x0a], s, [0x0a]] w = Inr w' \<and> wf_writer w' \<and> column_position w' = 0 \<and>
    screen V (buffer w') = drop 2 (screen V (buffer w)) @
      [chars_of (colour_code w) s @ drop (length s) (blank_row (colour_code w)), blank_row (colour_code w)]"
proof -
  have "length (screen V (buffer w)) = 25" using assms(2) by (simp add: wf_writer_def screen_dims)
  moreover obtain w' where "write_fmt V [[0x0a], s, [0x0a]] w = Inr w'"
      "shows_terminal V w' (term_write (colour_code w) (concat [[0x0a], s, [0x0a]])
        \<lparr>t_rows = screen V (buffer w), t_col = unat (column_position w)\<rparr>)"
    using write_fmt_shows [OF assms(1) wf_shows [OF assms(2)]] by blast
  ultimately show ?thesis
    unfolding println_shows [OF assms(3,4)] by (simp add: shows_terminal_def unsigned_eq_0_iff)
qed

text \<open>What is on the screen, and in which colour the next byte is written.\<close>

definition console_at :: "'c volatile_ops \<Rightarrow> colour_code \<Rightarrow> terminal \<Rightarrow> 'c writer \<Rightarrow> bool" where
  "console_at V cc t w = (shows_terminal V w t \<and> colour_code w = cc)"

lemma term_write_append: "term_write cc (a @ b) t = term_write cc b (term_write cc a t)"
  by (simp add: term_write_def)

lemma write_str_at:
  assumes "volatile_spec V" "console_at V cc t w"
  shows "\<exists>w'. write_str V s w = Inr w' \<and> console_at V cc (term_write cc s t) w'"
  using write_string_shows [OF assms(1), of w t s] assms(2) by (auto simp: console_at_def write_str_def)

lemma write_fmt_at:
  assumes "volatile_spec V" "console_at V cc t w"
  shows "\<exists>w'. write_fmt V args w = Inr w' \<and> console_at V cc (term_write cc (concat args) t) w'"
  using write_fmt_shows [OF assms(1), of w t args] assms(2) by (auto simp: console_at_def)

lemma println_at:
  assumes "volatile_spec V" "console_at V cc t w"
  shows "\<exists>w'. println V args w = Inr w' \<and> console_at V cc (term_write cc (concat args @ [0x0a]) t) w'"
  using write_fmt_at [OF assms, of "println_args args"] by (simp add: println_def println_args_def)

lemma printlns_at:
  assumes "volatile_spec V" "console_at V cc t w"
  shows "\<exists>w'. rfold (\<lambda>_. println V args) xs w = Inr w' \<and>
    console_at V cc (term_write cc (concat (replicate (length xs) (concat args @ [0x0a]))) t) w'"
  using assms(2)
proof (induction xs arbitrary: w t)
  case (Cons x xs)
  obtain w1 where "println V args w = Inr w1" "console_at V cc (term_write cc (concat args @ [0x0a]) t) w1"
    using println_at [OF assms(1) Cons.prems] by blast
  then show ?case using Cons.IH [of "term_write cc (concat args @ [0x0a]) t" w1]
    by (simp only: rfold.simps rbind_Inr length_Cons replicate_Suc concat.simps term_write_append [of cc "concat args @ [0x0a]"])
qed (simp add: term_write_def)

lemma term_write_nl: "term_write cc [0x0a] t = term_newline cc t"
  by (simp add: term_write_def term_byte_def printable_def)

lemma term_lines:
  assumes "\<forall>b \<in> set s. 0x20 \<le> b \<and> b \<le> 0x7e" "length s \<le> 80"
  shows "term_write cc (concat (replicate n (s @ [0x0a]))) \<lparr>t_rows = rs @ [blank_row cc], t_col = 0\<rparr> =
    \<lparr>t_rows = rs @ replicate n (chars_of cc s @ drop (length s) (blank_row cc)) @ [blank_row cc], t_col = 0\<rparr>"
proof (induction n arbitrary: rs)
  case (Suc n)
  have "term_write cc (s @ [0x0a]) \<lparr>t_rows = rs @ [blank_row cc], t_col = 0\<rparr> =
      \<lparr>t_rows = (rs @ [chars_of cc s @ drop (length s) (blank_row cc)]) @ [blank_row cc], t_col = 0\<rparr>"
    unfolding term_write_append term_write_nl using assms
    by (subst term_write_line) (simp_all add: blank_row_def term_newline_def)
  then show ?case using Suc.IH [of "rs @ [chars_of cc s @ drop (length s) (blank_row cc)]"]
    unfolding replicate_Suc concat.simps term_write_append [of cc "s @ [0x0a]"] by simp
qed (simp add: term_write_def)

lemma printlns_fill:
  assumes "volatile_spec V" "wf_writer w" "\<forall>b \<in> set s. 0x20 \<le> b \<and> b \<le> 0x7e" "length s \<le> 80" "25 \<le> length xs"
  shows "\<exists>w'. rfold (\<lambda>_. println V [s]) xs w = Inr w' \<and> wf_writer w' \<and> column_position w' = 0 \<and>
    screen V (buffer w') = replicate 24 (chars_of (colour_code w) s @ drop (length s) (blank_row (colour_code w))) @ [blank_row (colour_code w)]"
proof -
  let ?cc = "colour_code w" and ?t = "\<lparr>t_rows = screen V (buffer w), t_col = unat (column_position w)\<rparr>"
  obtain n where n: "length xs = Suc n" "24 \<le> n" using assms(5) by (cases "length xs") auto
  have "console_at V ?cc ?t w" using wf_shows [OF assms(2)] by (simp add: console_at_def)
  from printlns_at [OF assms(1) this, of "[s]" xs] obtain w' where w': "rfold (\<lambda>_. println V [s]) xs w = Inr w'"
      "console_at V ?cc (term_write ?cc (concat (replicate (Suc n) (s @ [0x0a]))) ?t) w'"
    by (auto simp: n(1))
  have "term_write ?cc (concat (replicate (Suc n) (s @ [0x0a]))) ?t =
      term_write ?cc (concat (replicate n (s @ [0x0a]))) (term_newline ?cc (term_write ?cc s ?t))"
    by (simp only: replicate_Suc concat.simps term_write_append term_write_nl)
  also have "\<dots> = \<lparr>t_rows = t_rows (term_write ?cc s ?t) @ replicate n (chars_of ?cc s @ drop (length s) (blank_row ?cc)) @ [blank_row ?cc], t_col = 0\<rparr>"
    unfolding term_newline_def by (rule term_lines [OF assms(3,4)])
  finally have "screen V (buffer w') = drop (length (t_rows (term_write ?cc s ?t)) + n + 1 - 25)
      (t_rows (term_write ?cc s ?t) @ replicate n (chars_of ?cc s @ drop (length s) (blank_row ?cc)) @ [blank_row ?cc])"
      "wf_writer w'" "column_position w' = 0"
    using w'(2) by (simp_all add: console_at_def shows_terminal_def unsigned_eq_0_iff)
  moreover have "drop (m + n + 1 - 25) (rs @ replicate n L @ [b]) = replicate 24 L @ [b]" if "m = length rs" for m rs L and b :: "screen_char list"
    using that n(2) by simp
  ultimately show ?thesis using w'(1) by simp
qed

lemma rfold_check:
  assumes "\<And>x. x \<in> set xs \<Longrightarrow> f x s = Inr s"
  shows "rfold f xs s = Inr s"
  using assms by (induction xs) auto

section \<open>Colour codes\<close>

lemma colour_as_u8_lt: "unat (colour_as_u8 c) < 16"
  by (cases c) simp_all

lemma colour_of_u8:
  "[Black, Blue, Green, Cyan, Red, Magenta, Brown, LightGray, DarkGray, LightBlue, LightGreen, LightCyan,
    LightRed, Pink, Yellow, White] ! unat (colour_as_u8 c) = c"
  by (cases c) simp_all

lemma colour_as_u8_inj: "colour_as_u8 c = colour_as_u8 d \<Longrightarrow> c = d"
  by (metis colour_of_u8)

lemma u8_nibble: "unat (x :: u8) < 16 \<Longrightarrow> take_bit 4 x = x"
  by (simp add: word_unat_eq_iff unsigned_take_bit_eq take_bit_nat_eq_self)

lemma nibbles:
  assumes "unat f < 16" "unat b < 16"
  shows "take_bit 4 (push_bit 4 b OR f :: u8) = f" "drop_bit 4 (push_bit 4 b OR f :: u8) = b"
proof -
  have f: "\<And>n. bit f n \<Longrightarrow> n < 4" and b: "\<And>n. bit b n \<Longrightarrow> n < 4"
    using u8_nibble [OF assms(1)] u8_nibble [OF assms(2)] by (metis bit_take_bit_iff)+
  show "take_bit 4 (push_bit 4 b OR f) = f"
    by (rule bit_eqI) (auto simp: bit_simps dest: f)
  show "drop_bit 4 (push_bit 4 b OR f) = b"
    by (rule bit_eqI) (auto simp: bit_simps dest: f b)
qed

section \<open>A concrete screen, for the witnesses\<close>

abbreviation (input) ex_volatile :: "screen_char volatile_ops" where
  "ex_volatile \<equiv> \<lparr>volatile_read = \<lambda>c. c, volatile_write = \<lambda>c x. x\<rparr>"

definition ex_cells :: "screen_char vga_cells" where
  "ex_cells = replicate 25 (blank_row (colour_code_new Pink Black))"

lemma ex_volatile_spec: "volatile_spec ex_volatile"
  by (simp add: volatile_spec_def)

lemma ex_wf_cells: "wf_cells ex_cells"
  by (simp add: wf_cells_def ex_cells_def blank_row_def)

lemma ex_wf: "wf_writer (WRITER_new ex_cells)"
  by (simp add: wf_writer_def ex_wf_cells WRITER_new_def)

section \<open>Properties\<close>

text \<open>
  C12: writing a formatted message never panics and shows on the screen the last 25 rows of a
  terminal that keeps every row: a newline or a full row starts a new one at the bottom, other
  bytes fill the bottom row from left to right, and bytes that are not printable ASCII appear
  as \<open>0xfe\<close>.
\<close>

theorem write_fmt_refines_terminal:
  assumes "volatile_spec V" "shows_terminal V w t"
  shows "\<exists>w'. write_fmt V args w = Inr w' \<and> colour_code w' = colour_code w \<and>
    shows_terminal V w' (term_write (colour_code w) (concat args) t)"
  using write_fmt_shows [OF assms] by blast

theorem write_fmt_refines_terminal_witness:
  "\<exists>w'. write_fmt ex_volatile [ascii ''Hello'', [0x0a]] (WRITER_new ex_cells) = Inr w' \<and> wf_writer w'"
proof -
  from write_fmt_refines_terminal [OF ex_volatile_spec wf_shows [OF ex_wf], of "[ascii ''Hello'', [0x0a]]"]
  show ?thesis unfolding shows_terminal_def by blast
qed

text \<open>
  C31: the assertions of \<open>test_println_output\<close> hold for every string of printable characters that
  fits on a line, and in every state of the writer: the string is in the last row but one,
  padded with blanks, the last row is blank, and the other rows have moved up by two.
\<close>

theorem println_output_correct:
  assumes "volatile_spec V" "wf_writer w" "\<forall>b \<in> set s. 0x20 \<le> b \<and> b \<le> 0x7e" "length s \<le> 80"
  shows "\<exists>w'. test_println_output V s w = Inr w' \<and> wf_writer w' \<and> column_position w' = 0 \<and>
    screen V (buffer w') = drop 2 (screen V (buffer w)) @
      [chars_of (colour_code w) s @ drop (length s) (blank_row (colour_code w)), blank_row (colour_code w)]"
proof -
  obtain w' where w': "write_fmt V [[0x0a], s, [0x0a]] w = Inr w'" "wf_writer w'" "column_position w' = 0"
      "screen V (buffer w') = drop 2 (screen V (buffer w)) @
        [chars_of (colour_code w) s @ drop (length s) (blank_row (colour_code w)), blank_row (colour_code w)]"
    using println_screen [OF assms] by blast
  have "length (screen V (buffer w)) = 25" using assms(2) by (simp add: wf_writer_def screen_dims)
  then have "ascii_character (screen V (buffer w') ! 23 ! i) = s ! i" if "i < length s" for i
    using that by (simp add: w'(4) nth_append chars_of_def)
  then have "rfold (\<lambda>(i, c) writer.
       rbind (chars_read V (buffer writer) (unat BUFFER_HEIGHT - 2) i) (\<lambda>screen_char.
       rbind (rassert (ascii_character screen_char = c)) (\<lambda>_. Inr writer))) (enumerate 0 s) w' = Inr w'"
    using w'(2) assms(4)
    by (intro rfold_check) (auto simp: in_set_enumerate_eq chars_read_ok wf_writer_def)
  then show ?thesis using w' by (simp add: test_println_output_def)
qed

theorem println_output_correct_witness:
  "\<exists>w'. test_println_output ex_volatile (ascii ''Some test string that fits on a single line'')
     (WRITER_new ex_cells) = Inr w' \<and> column_position w' = 0"
  using println_output_correct [OF ex_volatile_spec ex_wf,
      of "ascii ''Some test string that fits on a single line''"] by auto

text \<open>
  C32: \<open>test_println_many\<close> does not panic, and scrolling works in every state of the writer: whatever
  was on the screen and wherever the column was, the first 24 rows show the line of the test,
  padded with blanks, and the last row is blank.
\<close>

theorem println_many_fills_screen:
  assumes "volatile_spec V" "wf_writer w"
  shows "let cc = colour_code w; s = ascii ''test_println_many output'' in
    \<exists>w'. test_println_many V w = Inr w' \<and> wf_writer w' \<and> column_position w' = 0 \<and>
      screen V (buffer w') = replicate 24 (chars_of cc s @ drop (length s) (blank_row cc)) @ [blank_row cc]"
  unfolding Let_def test_println_many_def
  by (rule printlns_fill [OF assms]) auto

theorem println_many_fills_screen_witness:
  "\<exists>w'. test_println_many ex_volatile (WRITER_new ex_cells) = Inr w' \<and> column_position w' = 0"
  using println_many_fills_screen [OF ex_volatile_spec ex_wf] unfolding Let_def by blast

text \<open>
  \<open>ColourCode::new\<close> packs the colours without loss: the low four bits are the foreground and
  the high four bits the background, so different pairs of colours have different codes.
\<close>

lemma colour_code_lossless:
  "take_bit 4 (code_u8 (colour_code_new fg bg)) = colour_as_u8 fg \<and>
   drop_bit 4 (code_u8 (colour_code_new fg bg)) = colour_as_u8 bg \<and>
   (colour_code_new fg bg = colour_code_new fg' bg' \<longleftrightarrow> fg = fg' \<and> bg = bg')"
proof -
  have code: "take_bit 4 (code_u8 (colour_code_new f b)) = colour_as_u8 f"
    "drop_bit 4 (code_u8 (colour_code_new f b)) = colour_as_u8 b" for f b
    unfolding colour_code_new_def colour_code.sel by (rule nibbles [OF colour_as_u8_lt colour_as_u8_lt])+
  then show ?thesis by (metis colour_as_u8_inj)
qed

text \<open>
  C40: two writers on the same cells do not know of each other's column: what the second one
  writes replaces what the first one had just written to the bottom row.
\<close>

theorem two_writers_overwrite:
  assumes "volatile_spec V" "wf_cells cells" "0x20 \<le> a" "a \<le> 0x7e" "0x20 \<le> b" "b \<le> 0x7e"
  shows "\<exists>w v. write_string V [a] (WRITER_new cells) = Inr w \<and>
    write_string V [b] ((WRITER_new cells)\<lparr>buffer := buffer w\<rparr>) = Inr v \<and>
    column_position w = 1 \<and> column_position v = 1 \<and>
    screen V (buffer v) = (screen V cells)[24 := (screen V cells ! 24)
      [0 := \<lparr>ascii_character = b, sc_colour_code = colour_code_new Pink Black\<rparr>]]"
proof -
  have one: "\<exists>c'. write_string V [x] ((WRITER_new cells)\<lparr>buffer := c\<rparr>) =
      Inr ((WRITER_new cells)\<lparr>buffer := c', column_position := 1\<rparr>) \<and> wf_cells c' \<and>
      screen V c' = (screen V c)[24 := (screen V c ! 24)
        [0 := \<lparr>ascii_character = x, sc_colour_code = colour_code_new Pink Black\<rparr>]]"
    if "wf_cells c" "0x20 \<le> x" "x \<le> 0x7e" for c x
  proof -
    have "x \<noteq> 0x0a" using that(2) by auto
    then show ?thesis
      using chars_write_ok [OF assms(1) that(1), of 24 0 "\<lparr>ascii_character = x, sc_colour_code = colour_code_new Pink Black\<rparr>"] that
      by (auto simp: write_string_def write_byte_def WRITER_new_def word_le_nat_alt uadd_def)
  qed
  obtain c1 where c1: "write_string V [a] (WRITER_new cells) =
      Inr ((WRITER_new cells)\<lparr>buffer := c1, column_position := 1\<rparr>)" "wf_cells c1"
      "screen V c1 = (screen V cells)[24 := (screen V cells ! 24)
        [0 := \<lparr>ascii_character = a, sc_colour_code = colour_code_new Pink Black\<rparr>]]"
    using one [OF assms(2-4)] by (auto simp: WRITER_new_def)
  from one [OF c1(2) assms(5,6)] show ?thesis
    using c1 screen_dims(1) [OF assms(2), where V = V] by auto
qed

theorem two_writers_overwrite_witness:
  "\<exists>w v. write_string ex_volatile [0x61] (WRITER_new ex_cells) = Inr w \<and>
     write_string ex_volatile [0x62] ((WRITER_new ex_cells)\<lparr>buffer := buffer w\<rparr>) = Inr v"
proof -
  from two_writers_overwrite [OF ex_volatile_spec ex_wf_cells, where a = "0x61" and b = "0x62"] show ?thesis by auto
qed

end
