(* ===== verification/Interrupts.thy ===== *)
theory Interrupts
  imports Console Gdt Keyboard Vga_Buffer
begin

text \<open>
  \<^verbatim>\<open>src/interrupts.rs\<close>: the interrupt descriptor table, the handlers, and the programmable interrupt
  controllers; and the machine that runs the kernel's code statement by statement and takes
  interrupts between them. The descriptor table and the controllers are of the crates \<open>x86_64\<close>
  and \<open>pic8259\<close>: records of operations, with \<open>idt_spec\<close> and \<open>pics_spec\<close> for their documentation.
\<close>

section \<open>Interrupt numbers\<close>

definition PIC_1_OFFSET :: u8 where "PIC_1_OFFSET = 32"
definition PIC_2_OFFSET :: u8 where "PIC_2_OFFSET = PIC_1_OFFSET + 8"

datatype interrupt_index = Timer | Keyboard

fun as_u8 :: "interrupt_index \<Rightarrow> u8" where
  "as_u8 Timer = PIC_1_OFFSET"
| "as_u8 Keyboard = PIC_1_OFFSET + 1"

definition as_usize :: "interrupt_index \<Rightarrow> usize" where
  "as_usize self = ucast (as_u8 self)"

section \<open>The descriptor table\<close>

datatype handler = BreakpointHandler | DoubleFaultHandler | TimerHandler | KeyboardHandler | PageFaultHandler

text \<open>\<open>'hd\<close> are the handler functions; \<open>idt_set_double_fault\<close> is \<open>set_handler_fn\<close> followed by \<open>set_stack_index\<close>.\<close>

record ('hd, 'idt) idt_ops =
  idt_new :: 'idt
  idt_set_breakpoint :: "'hd \<Rightarrow> 'idt \<Rightarrow> 'idt"
  idt_set_double_fault :: "'hd \<Rightarrow> u16 \<Rightarrow> 'idt \<Rightarrow> 'idt"
  idt_set_page_fault :: "'hd \<Rightarrow> 'idt \<Rightarrow> 'idt"
  idt_set_index :: "usize \<Rightarrow> 'hd \<Rightarrow> 'idt \<Rightarrow> 'idt result"

definition IDT_new :: "(handler, 'idt) idt_ops \<Rightarrow> 'idt result" where
  "IDT_new I =
     (let idt = idt_set_breakpoint I BreakpointHandler (idt_new I);
          idt = idt_set_double_fault I DoubleFaultHandler DOUBLE_FAULT_IST_INDEX idt in
      rbind (idt_set_index I (as_usize Timer) TimerHandler idt) (\<lambda>idt.
      rbind (idt_set_index I (as_usize Keyboard) KeyboardHandler idt) (\<lambda>idt.
        Inr (idt_set_page_fault I PageFaultHandler idt))))"

definition init_idt :: "(handler, 'idt) idt_ops \<Rightarrow> ('gdt, 'sel, 'idt) cpu \<Rightarrow> ('gdt, 'sel, 'idt) cpu result" where
  "init_idt I c = rbind (IDT_new I) (\<lambda>idt. Inr (c\<lparr>cpu_idtr := Some idt\<rparr>))"

text \<open>
  \<open>entry\<close> gives the handler of a vector, and the index of its stack if it has one of its own.
  The vectors from 32 to 255 can be set by index.
\<close>

definition idt_spec :: "('hd, 'idt) idt_ops \<Rightarrow> ('idt \<Rightarrow> nat \<rightharpoonup> 'hd \<times> u16 option) \<Rightarrow> bool" where
  "idt_spec I entry =
     (entry (idt_new I) = Map.empty \<and>
      (\<forall>h t. entry (idt_set_breakpoint I h t) = (entry t)(3 \<mapsto> (h, None))) \<and>
      (\<forall>h i t. entry (idt_set_double_fault I h i t) = (entry t)(8 \<mapsto> (h, Some i))) \<and>
      (\<forall>h t. entry (idt_set_page_fault I h t) = (entry t)(14 \<mapsto> (h, None))) \<and>
      (\<forall>n h t. 32 \<le> unat n \<and> unat n < 256 \<longrightarrow>
         (\<exists>t'. idt_set_index I n h t = Inr t' \<and> entry t' = (entry t)(unat n \<mapsto> (h, None)))))"

section \<open>The handlers\<close>

text \<open>
  The texts that \<open>Debug\<close> and \<open>Display\<close> of the crates give for the stack frame, the page fault
  address, the error code and a panic message.
\<close>

record trap_info =
  fmt_stack_frame :: bytes
  fmt_cr2 :: bytes
  fmt_error_code :: bytes
  fmt_panic_info :: "bytes \<Rightarrow> bytes"

text \<open>\<open>hlt_loop\<close> of \<^verbatim>\<open>src/lib.rs\<close> never returns; the panic handler of \<^verbatim>\<open>src/main.rs\<close> ends in it.\<close>

definition hlt_loop :: "stmt list" where "hlt_loop = [HltLoop]"

definition panic_handler :: "bytes \<Rightarrow> stmt list" where
  "panic_handler info = vga_print (println_args [info]) @ hlt_loop"

definition end_of_interrupt :: "interrupt_index \<Rightarrow> stmt list" where
  "end_of_interrupt i = [Lock PICS_lock, NotifyEndOfInterrupt (as_u8 i), Unlock PICS_lock]"

definition breakpoint_handler :: "trap_info \<Rightarrow> stmt list" where
  "breakpoint_handler ti = vga_print (println_args [ascii ''EXCEPTION: BREAKPOINT'' @ [0x0a], fmt_stack_frame ti])"

definition double_fault_handler :: "trap_info \<Rightarrow> stmt list" where
  "double_fault_handler ti =
     panic_handler (fmt_panic_info ti (ascii ''EXCEPTION: DOUBLE FAULT'' @ [0x0a] @ fmt_stack_frame ti))"

definition timer_interrupt_handler :: "stmt list" where
  "timer_interrupt_handler = vga_print [ascii ''.''] @ end_of_interrupt Timer"

definition keyboard_interrupt_handler :: "stmt list" where
  "keyboard_interrupt_handler = [ReadPort 0x60, AddScancode] @ end_of_interrupt Keyboard"

definition page_fault_handler :: "trap_info \<Rightarrow> stmt list" where
  "page_fault_handler ti =
     vga_print (println_args [ascii ''EXCEPTION: PAGE FAULT'']) @
     vga_print (println_args [ascii ''Accessed Address: '', fmt_cr2 ti]) @
     vga_print (println_args [ascii ''Error Code: '', fmt_error_code ti]) @
     vga_print (println_args [fmt_stack_frame ti]) @
     hlt_loop"

fun handler_code :: "trap_info \<Rightarrow> handler \<Rightarrow> stmt list" where
  "handler_code ti BreakpointHandler = breakpoint_handler ti"
| "handler_code ti DoubleFaultHandler = double_fault_handler ti"
| "handler_code ti TimerHandler = timer_interrupt_handler"
| "handler_code ti KeyboardHandler = keyboard_interrupt_handler"
| "handler_code ti PageFaultHandler = page_fault_handler ti"

section \<open>The machine\<close>

text \<open>
  A stack of activations, the running one first: the code that is left, the flag that
  \<open>without_interrupts\<close> remembers, and for a handler the interrupt flag that its return restores
  and the byte it has read from the keyboard port.
\<close>

record frame =
  fr_code :: "stmt list"
  fr_saved :: bool
  fr_if :: bool
  fr_scancode :: u8

text \<open>\<open>mc_in_service\<close> are the interrupts the controllers have delivered and wait to be ended.\<close>

record ('c, 'sp, 'oc, 'aw, 'wk) machine =
  mc_if :: bool
  mc_locks :: "lock set"
  mc_writer :: "'c writer"
  mc_serial :: 'sp
  mc_kb :: "('oc, 'aw) keyboard_statics"
  mc_woken :: "'wk list"
  mc_in_service :: "u8 set"
  mc_frames :: "frame list"

record ('c, 'sp, 'oc, 'q, 'aw, 'wk) machine_ops =
  mo_volatile :: "'c volatile_ops"
  mo_serial :: "'sp serial_ops"
  mo_once :: "('oc, 'q) once_ops"
  mo_queue :: "('q, u8) queue_ops"
  mo_waker :: "('aw, 'wk) atomic_waker_ops"
  mo_notify_end_of_interrupt :: "u8 \<Rightarrow> u8 set \<Rightarrow> u8 set"
  mo_initialize :: "u8 set \<Rightarrow> u8 set"
  mo_idt :: "nat \<rightharpoonup> handler"

text \<open>The activation of a handler: a gate set by \<open>set_handler_fn\<close> disables interrupts.\<close>

definition enter :: "trap_info \<Rightarrow> handler \<Rightarrow> bool \<Rightarrow> frame" where
  "enter ti h flag = \<lparr>fr_code = handler_code ti h, fr_saved = False, fr_if = flag, fr_scancode = 0\<rparr>"

text \<open>
  A step runs the first statement of the running activation, enters the handler of an interrupt,
  or returns from a handler. A thread that waits for a lock that is taken has no step, and
  neither has code that panics.
\<close>

inductive machine_step ::
  "('c, 'sp, 'oc, 'q, 'aw, 'wk) machine_ops \<Rightarrow> ('c, 'sp, 'oc, 'aw, 'wk) machine \<Rightarrow> ('c, 'sp, 'oc, 'aw, 'wk) machine \<Rightarrow> bool"
  for MO where
  st_without: "mc_frames m = f # fs \<Longrightarrow> fr_code f = WithoutInterrupts # c \<Longrightarrow>
    machine_step MO m (m\<lparr>mc_if := False, mc_frames := f\<lparr>fr_code := c, fr_saved := mc_if m\<rparr> # fs\<rparr>)"
| st_end_without: "mc_frames m = f # fs \<Longrightarrow> fr_code f = EndWithoutInterrupts # c \<Longrightarrow>
    machine_step MO m (m\<lparr>mc_if := (if fr_saved f then True else mc_if m), mc_frames := f\<lparr>fr_code := c\<rparr> # fs\<rparr>)"
| st_lock: "mc_frames m = f # fs \<Longrightarrow> fr_code f = Lock l # c \<Longrightarrow> l \<notin> mc_locks m \<Longrightarrow>
    machine_step MO m (m\<lparr>mc_locks := insert l (mc_locks m), mc_frames := f\<lparr>fr_code := c\<rparr> # fs\<rparr>)"
| st_unlock: "mc_frames m = f # fs \<Longrightarrow> fr_code f = Unlock l # c \<Longrightarrow>
    machine_step MO m (m\<lparr>mc_locks := mc_locks m - {l}, mc_frames := f\<lparr>fr_code := c\<rparr> # fs\<rparr>)"
| st_write: "mc_frames m = f # fs \<Longrightarrow> fr_code f = WriterWriteStr s # c \<Longrightarrow>
    write_str (mo_volatile MO) s (mc_writer m) = Inr w \<Longrightarrow>
    machine_step MO m (m\<lparr>mc_writer := w, mc_frames := f\<lparr>fr_code := c\<rparr> # fs\<rparr>)"
| st_serial: "mc_frames m = f # fs \<Longrightarrow> fr_code f = SerialWriteStr s # c \<Longrightarrow>
    serial_write (mo_serial MO) s (mc_serial m) = Inr p \<Longrightarrow>
    machine_step MO m (m\<lparr>mc_serial := p, mc_frames := f\<lparr>fr_code := c\<rparr> # fs\<rparr>)"
| st_initialize: "mc_frames m = f # fs \<Longrightarrow> fr_code f = InitializePics # c \<Longrightarrow>
    machine_step MO m (m\<lparr>mc_in_service := mo_initialize MO (mc_in_service m), mc_frames := f\<lparr>fr_code := c\<rparr> # fs\<rparr>)"
| st_notify: "mc_frames m = f # fs \<Longrightarrow> fr_code f = NotifyEndOfInterrupt n # c \<Longrightarrow>
    machine_step MO m (m\<lparr>mc_in_service := mo_notify_end_of_interrupt MO n (mc_in_service m),
      mc_frames := f\<lparr>fr_code := c\<rparr> # fs\<rparr>)"
| st_enable: "mc_frames m = f # fs \<Longrightarrow> fr_code f = EnableInterrupts # c \<Longrightarrow>
    machine_step MO m (m\<lparr>mc_if := True, mc_frames := f\<lparr>fr_code := c\<rparr> # fs\<rparr>)"
| st_use_allocator: "mc_frames m = f # fs \<Longrightarrow> fr_code f = UseAllocator # c \<Longrightarrow>
    machine_step MO m (m\<lparr>mc_frames := f\<lparr>fr_code := c\<rparr> # fs\<rparr>)"
| st_read_port: "mc_frames m = f # fs \<Longrightarrow> fr_code f = ReadPort p # c \<Longrightarrow>
    machine_step MO m (m\<lparr>mc_frames := f\<lparr>fr_code := c, fr_scancode := b\<rparr> # fs\<rparr>)"
| st_add_scancode: "mc_frames m = f # fs \<Longrightarrow> fr_code f = AddScancode # c \<Longrightarrow>
    add_scancode (mo_once MO) (mo_queue MO) (mo_waker MO) (fr_scancode f) (mc_kb m) = (woken, messages, kb) \<Longrightarrow>
    machine_step MO m (m\<lparr>mc_kb := kb, mc_woken := mc_woken m @ (case woken of None \<Rightarrow> [] | Some k \<Rightarrow> [k]),
      mc_frames := f\<lparr>fr_code := concat (map (\<lambda>x. vga_print [x]) messages) @ c\<rparr> # fs\<rparr>)"
| st_raise: "mc_frames m = f # fs \<Longrightarrow> fr_code f = Raise n # c \<Longrightarrow> mo_idt MO (unat n) = Some h \<Longrightarrow>
    machine_step MO m (m\<lparr>mc_if := False, mc_frames := enter ti h (mc_if m) # f\<lparr>fr_code := c\<rparr> # fs\<rparr>)"
| st_hlt: "mc_frames m = f # fs \<Longrightarrow> fr_code f = HltLoop # c \<Longrightarrow> machine_step MO m m"
| st_interrupt: "mc_if m \<Longrightarrow> as_u8 i \<notin> mc_in_service m \<Longrightarrow> mo_idt MO (unat (as_u8 i)) = Some h \<Longrightarrow>
    machine_step MO m (m\<lparr>mc_if := False, mc_in_service := insert (as_u8 i) (mc_in_service m),
      mc_frames := enter ti h True # mc_frames m\<rparr>)"
| st_iret: "mc_frames m = f # g # fs \<Longrightarrow> fr_code f = [] \<Longrightarrow>
    machine_step MO m (m\<lparr>mc_if := fr_if f, mc_frames := g # fs\<rparr>)"

section \<open>Normal code\<close>

text \<open>\<open>interrupts\<close> part of \<open>init\<close> in \<^verbatim>\<open>src/lib.rs\<close>, and the code that runs before and after it: calls
  of the print functions and of the allocator, and instructions that raise an exception.\<close>

definition init_code :: "stmt list" where
  "init_code = [Lock PICS_lock, InitializePics, Unlock PICS_lock, EnableInterrupts]"

datatype call = Print "bytes list" | SerialPrint "bytes list" | HeapCall | Exception u8

fun call_code :: "call \<Rightarrow> stmt list" where
  "call_code (Print args) = vga_print args"
| "call_code (SerialPrint args) = serial_print args"
| "call_code HeapCall = locked_allocator_call"
| "call_code (Exception n) = [Raise n]"

definition kernel_code :: "bytes list list \<Rightarrow> call list \<Rightarrow> stmt list" where
  "kernel_code before after = concat (map vga_print before) @ init_code @ concat (map call_code after)"

definition machine_start :: "stmt list \<Rightarrow> 'c writer \<Rightarrow> 'sp \<Rightarrow> ('oc, 'aw) keyboard_statics \<Rightarrow> ('c, 'sp, 'oc, 'aw, 'wk) machine" where
  "machine_start code w p kb =
     \<lparr>mc_if = False, mc_locks = {}, mc_writer = w, mc_serial = p, mc_kb = kb, mc_woken = [], mc_in_service = {},
      mc_frames = [\<lparr>fr_code = code, fr_saved = False, fr_if = False, fr_scancode = 0\<rparr>]\<rparr>"

section \<open>The dispatch table\<close>

definition idt_table :: "nat \<rightharpoonup> handler \<times> u16 option" where
  "idt_table = [3 \<mapsto> (BreakpointHandler, None), 8 \<mapsto> (DoubleFaultHandler, Some 0), 14 \<mapsto> (PageFaultHandler, None),
     32 \<mapsto> (TimerHandler, None), 33 \<mapsto> (KeyboardHandler, None)]"

lemma unat_as_u8: "unat (as_u8 Timer) = 32" "unat (as_u8 Keyboard) = 33"
  by (simp_all add: PIC_1_OFFSET_def)

lemma as_usize_eq: "as_usize Timer = 32" "as_usize Keyboard = 33"
  by (simp_all add: as_usize_def PIC_1_OFFSET_def)

lemma IDT_new_ok:
  assumes "idt_spec I entry"
  shows "\<exists>t. IDT_new I = Inr t \<and> entry t = idt_table"
proof -
  let ?t = "idt_set_double_fault I DoubleFaultHandler 0 (idt_set_breakpoint I BreakpointHandler (idt_new I))"
  have set_index: "\<exists>t'. idt_set_index I n h t = Inr t' \<and> entry t' = (entry t)(unat n \<mapsto> (h, None))"
    if "32 \<le> unat n" "unat n < 256" for n h t
    using assms that by (simp add: idt_spec_def)
  obtain t1 where 1: "idt_set_index I 32 TimerHandler ?t = Inr t1" "entry t1 = (entry ?t)(32 \<mapsto> (TimerHandler, None))"
    using set_index [of 32 TimerHandler ?t] by auto
  obtain t2 where 2: "idt_set_index I 33 KeyboardHandler t1 = Inr t2" "entry t2 = (entry t1)(33 \<mapsto> (KeyboardHandler, None))"
    using set_index [of 33 KeyboardHandler t1] by auto
  have "IDT_new I = Inr (idt_set_page_fault I PageFaultHandler t2)"
    using 1 2 by (simp add: IDT_new_def as_usize_eq DOUBLE_FAULT_IST_INDEX_def)
  moreover have "entry (idt_set_page_fault I PageFaultHandler t2) = idt_table"
    using assms 1(2) 2(2) by (auto simp: idt_spec_def idt_table_def)
  ultimately show ?thesis by blast
qed

section \<open>The invariant\<close>

text \<open>Statements of normal code and of handlers.\<close>

fun normal_stmt :: "stmt \<Rightarrow> bool" where
  "normal_stmt (Raise n) = (n \<in> {3, 8, 14})"
| "normal_stmt (ReadPort p) = False"
| "normal_stmt AddScancode = False"
| "normal_stmt (NotifyEndOfInterrupt n) = False"
| "normal_stmt _ = True"

fun handler_stmt :: "stmt \<Rightarrow> bool" where
  "handler_stmt (Raise n) = False"
| "handler_stmt (Lock l) = (l \<noteq> ALLOCATOR_lock)"
| "handler_stmt (Unlock l) = (l \<noteq> ALLOCATOR_lock)"
| "handler_stmt UseAllocator = False"
| "handler_stmt EnableInterrupts = False"
| "handler_stmt InitializePics = False"
| "handler_stmt _ = True"

definition ends_interrupts :: "stmt list \<Rightarrow> u8 set" where
  "ends_interrupts c = {n. NotifyEndOfInterrupt n \<in> set c}"

text \<open>
  Either normal code runs and no interrupt is in service, or one handler runs over normal code
  that holds no lock or that of the allocator, which the handler does not touch, with interrupts
  disabled, and what is in service is what it will end.
\<close>

definition normal_inv :: "bool \<Rightarrow> lock set \<Rightarrow> frame \<Rightarrow> bool" where
  "normal_inv i H f = (locks_ok i (fr_saved f) H (fr_code f) \<and> list_all normal_stmt (fr_code f))"

definition handler_inv :: "lock set \<Rightarrow> u8 set \<Rightarrow> frame \<Rightarrow> bool" where
  "handler_inv H S h =
     (\<not> fr_saved h \<and> locks_ok False False H (fr_code h) \<and> list_all handler_stmt (fr_code h) \<and> S = ends_interrupts (fr_code h))"

definition machine_inv :: "('c, 'sp, 'oc, 'aw, 'wk) machine \<Rightarrow> bool" where
  "machine_inv m =
     (wf_writer (mc_writer m) \<and>
      (case mc_frames m of
         [f] \<Rightarrow> mc_in_service m = {} \<and> normal_inv (mc_if m) (mc_locks m) f
       | [h, f] \<Rightarrow> \<not> mc_if m \<and> handler_inv (mc_locks m - {ALLOCATOR_lock}) (mc_in_service m) h \<and>
           normal_inv (fr_if h) (mc_locks m \<inter> {ALLOCATOR_lock}) f
       | _ \<Rightarrow> False))"

text \<open>What the kernel relies on: the screen, the serial port, the controllers, and its own table.\<close>

definition pics_spec :: "(u8 \<Rightarrow> u8 set \<Rightarrow> u8 set) \<Rightarrow> (u8 set \<Rightarrow> u8 set) \<Rightarrow> bool" where
  "pics_spec notify initialize = ((\<forall>n S. notify n S = S - {n}) \<and> (\<forall>S. initialize S = {}))"

definition machine_ok :: "('c, 'sp, 'oc, 'q, 'aw, 'wk) machine_ops \<Rightarrow> bool" where
  "machine_ok MO =
     (volatile_spec (mo_volatile MO) \<and> serial_spec (mo_serial MO) \<and>
      pics_spec (mo_notify_end_of_interrupt MO) (mo_initialize MO) \<and> mo_idt MO = map_option fst \<circ> idt_table)"

lemma write_str_wf:
  assumes "volatile_spec V" "wf_writer w"
  shows "\<exists>w'. write_str V s w = Inr w' \<and> wf_writer w'"
  using write_string_shows [OF assms(1) wf_shows [OF assms(2)]] by (auto simp: write_str_def shows_terminal_def)

lemma machine_write:
  "machine_ok MO \<Longrightarrow> wf_writer w \<Longrightarrow> \<exists>w'. write_str (mo_volatile MO) s w = Inr w' \<and> wf_writer w'"
  by (rule write_str_wf) (simp_all add: machine_ok_def)

lemma print_stmts [simp]:
  "list_all normal_stmt (vga_print args)" "list_all normal_stmt (serial_print args)"
  "list_all handler_stmt (vga_print args)" "ends_interrupts (vga_print args) = {}"
  by (auto simp: vga_print_def serial_print_def list_all_iff ends_interrupts_def)

lemma ends_interrupts_simps [simp]:
  "ends_interrupts [] = {}" "ends_interrupts (b @ c) = ends_interrupts b \<union> ends_interrupts c"
  "ends_interrupts (NotifyEndOfInterrupt n # c) = insert n (ends_interrupts c)"
  "(\<forall>n. x \<noteq> NotifyEndOfInterrupt n) \<Longrightarrow> ends_interrupts (x # c) = ends_interrupts c"
  by (auto simp: ends_interrupts_def)

lemma prints_stmts [simp]:
  "list_all handler_stmt (concat (map (\<lambda>x. vga_print (g x)) xs))"
  "ends_interrupts (concat (map (\<lambda>x. vga_print (g x)) xs)) = {}"
  by (induction xs) simp_all

lemmas handler_defs = breakpoint_handler_def double_fault_handler_def timer_interrupt_handler_def
  keyboard_interrupt_handler_def page_fault_handler_def panic_handler_def hlt_loop_def end_of_interrupt_def

text \<open>Every handler keeps the discipline, and ends the interrupt it is entered for and no other.\<close>

lemma enter_inv:
  "handler_inv {} (ends_interrupts (handler_code ti h)) (enter ti h i)"
  by (cases h) (simp_all add: handler_inv_def enter_def handler_defs)

lemma handler_ends:
  "idt_table (unat (as_u8 i)) = Some (h, k) \<Longrightarrow> ends_interrupts (handler_code ti h) = {as_u8 i}"
  "(n :: u8) \<in> {3, 8, 14} \<Longrightarrow> idt_table (unat n) = Some (h, k) \<Longrightarrow> ends_interrupts (handler_code ti h) = {}"
  by (cases i; simp add: idt_table_def unat_as_u8 handler_defs del: as_u8.simps)
    (auto simp: idt_table_def handler_defs)

lemma fr_if_enter [simp]: "fr_if (enter ti h i) = i"
  by (simp add: enter_def)

lemma normal_step:
  assumes "machine_step MO m m'" "machine_ok MO" "mc_frames m = [f]" "machine_inv m"
  shows "machine_inv m'"
  using assms
proof cases
  case (st_raise f' fs n c h ti)
  then have n: "n \<in> {3, 8, 14}" and H: "mc_locks m = {}" using assms(3,4) by (auto simp: machine_inv_def normal_inv_def)
  obtain k where "idt_table (unat n) = Some (h, k)" using assms(2) st_raise by (auto simp: machine_ok_def)
  from handler_ends(2) [OF n this] enter_inv [of ti h "mc_if m"] st_raise assms(3,4) H
  show ?thesis by (simp add: machine_inv_def normal_inv_def)
next
  case (st_interrupt i h ti)
  then have "mc_locks m \<subseteq> {ALLOCATOR_lock}" using assms(3,4) locks_ok_enabled [of True "fr_saved f" "mc_locks m" "fr_code f"]
    by (simp add: machine_inv_def normal_inv_def)
  then have H: "mc_locks m - {ALLOCATOR_lock} = {}" "mc_locks m \<inter> {ALLOCATOR_lock} = mc_locks m" by auto
  obtain k where "idt_table (unat (as_u8 i)) = Some (h, k)" using assms(2) st_interrupt by (auto simp: machine_ok_def)
  from enter_inv [of ti h True, unfolded handler_ends(1) [OF this]]
  have "handler_inv (mc_locks m - {ALLOCATOR_lock}) {as_u8 i} (enter ti h True)" unfolding H .
  then show ?thesis using st_interrupt assms(3,4) H(2) by (simp add: machine_inv_def del: as_u8.simps)
next
  case (st_write f' fs s c w)
  obtain w' where "write_str (mo_volatile MO) s (mc_writer m) = Inr w'" "wf_writer w'"
    using machine_write [OF assms(2), of "mc_writer m" s] assms(4) by (auto simp: machine_inv_def)
  with st_write assms(3,4) show ?thesis by (auto simp: machine_inv_def normal_inv_def)
qed (auto simp: machine_inv_def normal_inv_def machine_ok_def pics_spec_def)

lemma handler_step:
  assumes "machine_step MO m m'" "machine_ok MO" "mc_frames m = [h, f]" "machine_inv m"
  shows "machine_inv m'"
  using assms
proof cases
  case (st_write f' fs s c w)
  obtain w' where "write_str (mo_volatile MO) s (mc_writer m) = Inr w'" "wf_writer w'"
    using machine_write [OF assms(2), of "mc_writer m" s] assms(4) by (auto simp: machine_inv_def)
  with st_write assms(3,4) show ?thesis by (auto simp: machine_inv_def handler_inv_def)
next
  case (st_notify f' fs n c)
  then have "ends_interrupts c = {}" using assms(3,4) by (auto simp: machine_inv_def handler_inv_def ends_interrupts_def)
  with st_notify assms show ?thesis by (auto simp: machine_inv_def handler_inv_def machine_ok_def pics_spec_def)
next
  case (st_lock f' fs l c)
  then have "l \<noteq> ALLOCATOR_lock" using assms(3,4) by (auto simp: machine_inv_def handler_inv_def)
  with st_lock assms(3,4) show ?thesis by (auto simp: machine_inv_def handler_inv_def insert_Diff_if)
next
  case (st_unlock f' fs l c)
  then have "l \<noteq> ALLOCATOR_lock" using assms(3,4) by (auto simp: machine_inv_def handler_inv_def)
  then have sets: "mc_locks m - {l} - {ALLOCATOR_lock} = mc_locks m - {ALLOCATOR_lock} - {l}"
      "(mc_locks m - {l}) \<inter> {ALLOCATOR_lock} = mc_locks m \<inter> {ALLOCATOR_lock}" by auto
  have "locks_ok False False (mc_locks m - {l} - {ALLOCATOR_lock}) c" "normal_inv (fr_if h) ((mc_locks m - {l}) \<inter> {ALLOCATOR_lock}) f"
    using st_unlock assms(3,4) unfolding sets by (auto simp: machine_inv_def handler_inv_def)
  with st_unlock assms(3,4) show ?thesis by (auto simp: machine_inv_def handler_inv_def)
next
  case (st_add_scancode f' fs c woken messages kb)
  then have f: "f' = h" "fs = [f]" and L: "mc_locks m - {ALLOCATOR_lock} = {}"
    using assms(3,4) by (auto simp: machine_inv_def handler_inv_def)
  show ?thesis using st_add_scancode(1,3) assms(3,4) unfolding f by (simp add: L machine_inv_def handler_inv_def)
next
  case (st_iret f' g fs)
  then have f: "f' = h" "g = f" "fs = []" and L: "mc_locks m \<inter> {ALLOCATOR_lock} = mc_locks m"
    using assms(3,4) by (auto simp: machine_inv_def handler_inv_def)
  show ?thesis using st_iret(1,3) assms(3,4) unfolding f by (simp add: L machine_inv_def handler_inv_def)
qed (auto simp: machine_inv_def handler_inv_def)

lemma machine_inv_frames: "machine_inv m \<Longrightarrow> (\<exists>f. mc_frames m = [f]) \<or> (\<exists>h f. mc_frames m = [h, f])"
  by (auto simp: machine_inv_def split: list.splits)

lemma machine_inv_locks:
  assumes "machine_inv m" "mc_if m"
  shows "mc_locks m \<subseteq> {ALLOCATOR_lock}"
proof -
  obtain f where "mc_frames m = [f]" using machine_inv_frames [OF assms(1)] assms by (auto simp: machine_inv_def)
  then show ?thesis
    using assms locks_ok_enabled [of True "fr_saved f" "mc_locks m" "fr_code f"] by (simp add: machine_inv_def normal_inv_def)
qed

lemma machine_step_inv: "machine_step MO m m' \<Longrightarrow> machine_ok MO \<Longrightarrow> machine_inv m \<Longrightarrow> machine_inv m'"
  using machine_inv_frames normal_step handler_step by metis

lemma machine_reach_inv:
  assumes "(machine_step MO)\<^sup>*\<^sup>* m m'" "machine_ok MO" "machine_inv m"
  shows "machine_inv m'"
  using assms(1) by induction (use assms(2,3) machine_step_inv in blast)+

text \<open>A machine that satisfies the invariant can go on, until normal code has come to its end.\<close>

lemma stmt_progress:
  assumes "machine_ok MO" "wf_writer (mc_writer m)" "mc_frames m = f # fs" "fr_code f = x # c"
    and "\<And>l. x = Lock l \<Longrightarrow> l \<notin> mc_locks m" "\<And>n. x = Raise n \<Longrightarrow> n \<in> {3, 8, 14}"
  shows "\<exists>m'. machine_step MO m m'"
proof (cases x)
  case (WriterWriteStr s)
  obtain w where "write_str (mo_volatile MO) s (mc_writer m) = Inr w"
    using machine_write [OF assms(1,2)] by blast
  then show ?thesis using st_write assms(3,4) WriterWriteStr by metis
next
  case (SerialWriteStr s)
  obtain p where "serial_write (mo_serial MO) s (mc_serial m) = Inr p"
    using serial_write_ok [of "mo_serial MO" s "mc_serial m"] assms(1) by (auto simp: machine_ok_def)
  then show ?thesis using st_serial assms(3,4) SerialWriteStr by metis
next
  case AddScancode
  then show ?thesis using st_add_scancode assms(3,4) by (metis prod_cases3)
next
  case (Raise n)
  then have "n \<in> {3, 8, 14}" by (rule assms(6))
  then obtain h where "mo_idt MO (unat n) = Some h" using assms(1) by (auto simp: machine_ok_def idt_table_def)
  then show ?thesis using st_raise assms(3,4) Raise by metis
next
  case WithoutInterrupts
  then show ?thesis using st_without assms(3-4) by metis
next
  case EndWithoutInterrupts
  then show ?thesis using st_end_without assms(3-4) by metis
next
  case (Lock l)
  then show ?thesis using st_lock assms(3-5) by metis
next
  case (Unlock l)
  then show ?thesis using st_unlock assms(3-4) by metis
next
  case InitializePics
  then show ?thesis using st_initialize assms(3-4) by metis
next
  case (NotifyEndOfInterrupt n)
  then show ?thesis using st_notify assms(3-4) by metis
next
  case EnableInterrupts
  then show ?thesis using st_enable assms(3-4) by metis
next
  case UseAllocator
  then show ?thesis using st_use_allocator assms(3-4) by metis
next
  case (ReadPort p)
  then show ?thesis using st_read_port assms(3-4) by metis
next
  case HltLoop
  then show ?thesis using st_hlt assms(3-4) by metis
qed

lemma machine_progress:
  assumes "machine_ok MO" "machine_inv m"
  shows "(\<exists>m'. machine_step MO m m') \<or> (\<exists>f. mc_frames m = [f] \<and> fr_code f = [])"
proof -
  have w: "wf_writer (mc_writer m)" using assms(2) by (simp add: machine_inv_def)
  consider f where "mc_frames m = [f]" | h f where "mc_frames m = [h, f]" using machine_inv_frames [OF assms(2)] by blast
  then show ?thesis
  proof cases
    case 1
    show ?thesis
    proof (cases "fr_code f")
      case (Cons x c)
      have "\<exists>m'. machine_step MO m m'"
        by (rule stmt_progress [OF assms(1) w 1 Cons]) (use assms(2) 1 Cons in \<open>auto simp: machine_inv_def normal_inv_def\<close>)
      then show ?thesis ..
    qed (simp add: 1)
  next
    case 2
    show ?thesis
    proof (cases "fr_code h")
      case Nil
      then show ?thesis using st_iret [OF 2] by blast
    next
      case (Cons x c)
      have "\<exists>m'. machine_step MO m m'"
        by (rule stmt_progress [OF assms(1) w 2 Cons]) (use assms(2) 2 Cons in \<open>auto simp: machine_inv_def handler_inv_def\<close>)
      then show ?thesis ..
    qed
  qed
qed

text \<open>The kernel's code keeps the discipline: \<open>init\<close> locks the controllers before interrupts are on.\<close>

lemma calls_ok: "locks_ok i sv {} (concat (map call_code after))"
proof (induction after arbitrary: sv)
  case (Cons x xs)
  then show ?case by (cases x) simp_all
qed simp

definition calls_valid :: "call list \<Rightarrow> bool" where
  "calls_valid cs = list_all (\<lambda>x. case x of Exception n \<Rightarrow> n \<in> {3, 8, 14} | _ \<Rightarrow> True) cs"

lemma calls_normal: "calls_valid cs \<Longrightarrow> list_all normal_stmt (concat (map call_code cs))"
proof (induction cs)
  case (Cons x xs)
  then show ?case by (cases x) (auto simp: calls_valid_def locked_allocator_call_def)
qed simp

lemma prints_normal: "list_all normal_stmt (concat (map vga_print before))"
  by (induction before) simp_all

lemma machine_start_inv:
  assumes "calls_valid after" "wf_writer w"
  shows "machine_inv (machine_start (kernel_code before after) w p kb)"
  using assms calls_normal [OF assms(1)] prints_normal [of before]
    locks_ok_prints [of False "\<lambda>x. x" before] calls_ok [of True False after]
  by (simp add: machine_inv_def machine_start_def kernel_code_def init_code_def normal_inv_def)

section \<open>Concrete crates, for the witnesses\<close>

definition ex_idt :: "('hd, nat \<rightharpoonup> 'hd \<times> u16 option) idt_ops" where
  "ex_idt = \<lparr>idt_new = Map.empty, idt_set_breakpoint = \<lambda>h t. t(3 \<mapsto> (h, None)),
     idt_set_double_fault = \<lambda>h i t. t(8 \<mapsto> (h, Some i)), idt_set_page_fault = \<lambda>h t. t(14 \<mapsto> (h, None)),
     idt_set_index = \<lambda>n h t. if unat n < 256 then Inr (t(unat n \<mapsto> (h, None))) else Inl IndexOutOfBounds\<rparr>"

lemma ex_idt_spec: "idt_spec ex_idt (\<lambda>t. t)"
  by (simp add: idt_spec_def ex_idt_def)

definition ex_serial :: "bytes serial_ops" where
  "ex_serial = \<lparr>serial_port_new = \<lambda>_. [], serial_port_init = \<lambda>p. p, serial_write_str = \<lambda>p s. (True, p @ s)\<rparr>"

lemma ex_serial_spec: "serial_spec ex_serial"
  by (simp add: serial_spec_def ex_serial_def)

definition ex_machine_ops ::
  "(screen_char, bytes, (u8 list \<times> nat) option, u8 list \<times> nat, task_id option, task_id) machine_ops" where
  "ex_machine_ops = \<lparr>mo_volatile = ex_volatile, mo_serial = ex_serial, mo_once = ex_once, mo_queue = list_queue,
     mo_waker = ex_waker, mo_notify_end_of_interrupt = \<lambda>n S. S - {n}, mo_initialize = \<lambda>S. {},
     mo_idt = map_option fst \<circ> idt_table\<rparr>"

definition ex_machine ::
  "(screen_char, bytes, (u8 list \<times> nat) option, task_id option, task_id) machine" where
  "ex_machine = machine_start (kernel_code [[[72, 105]]] [Exception 3]) (WRITER_new ex_cells) [] (ex_statics [])"

section \<open>Properties\<close>





end
