(* ===== verification/Console_Log.thy ===== *)
theory Console_Log
  imports Interrupts
begin

text \<open>
  What reaches the screen when the machine of \<open>Interrupts\<close> runs the kernel: the output as a sequence
  of whole messages.
\<close>

section \<open>The messages of a piece of code\<close>

text \<open>
  A message is what is written between the lock and the unlock of the writer; \<open>cur\<close> are the pieces
  already written if the code starts inside a message.
\<close>

fun messages :: "bytes list option \<Rightarrow> stmt list \<Rightarrow> bytes list list" where
  "messages cur [] = []"
| "messages cur (x # c) =
     (case (x, cur) of
        (Lock l, _) \<Rightarrow> if l = WRITER_lock then messages (Some []) c else messages cur c
      | (WriterWriteStr s, Some acc) \<Rightarrow> messages (Some (acc @ [s])) c
      | (Unlock l, Some acc) \<Rightarrow> if l = WRITER_lock then acc # messages None c else messages cur c
      | _ \<Rightarrow> messages cur c)"

lemma messages_writes: "messages (Some acc) (map WriterWriteStr args @ c) = messages (Some (acc @ args)) c"
  by (induction args arbitrary: acc) simp_all

lemma messages_serial: "messages None (map SerialWriteStr args @ c) = messages None c"
  by (induction args) simp_all

lemma messages_calls [simp]:
  "messages None (vga_print args @ c) = args # messages None c"
  "messages None (serial_print args @ c) = messages None c"
  "messages None (locked_allocator_call @ c) = messages None c"
  by (simp_all add: vga_print_def serial_print_def locked_allocator_call_def messages_writes messages_serial)

lemma messages_prints [simp]:
  "messages None (concat (map (\<lambda>x. vga_print (g x)) xs) @ c) = map g xs @ messages None c"
  by (induction xs) simp_all

fun call_messages :: "call \<Rightarrow> bytes list list" where
  "call_messages (Print args) = [args]"
| "call_messages _ = []"

lemma messages_kernel: "messages None (kernel_code before after) = before @ concat (map call_messages after)"
proof -
  have "messages None (concat (map call_code after)) = concat (map call_messages after)" for after
  proof (induction after)
    case (Cons x xs)
    then show ?case by (cases x) simp_all
  qed simp
  then show ?thesis using messages_prints [of "\<lambda>x. x" before] by (simp add: kernel_code_def init_code_def)
qed

text \<open>The messages that come from a handler: its own, and the two warnings of \<open>add_scancode\<close>.\<close>

definition handler_message :: "bytes list \<Rightarrow> bool" where
  "handler_message a =
     ((\<exists>ti h. a \<in> set (messages None (handler_code ti h))) \<or>
      a \<in> {[ascii ''WARNING: scancode queue fill; dropping keyboard input'' @ [0x0a]],
           [ascii ''WARNING: scancode queue uninitialised'' @ [0x0a]]})"

lemma add_scancode_messages:
  "add_scancode OC Q AW b kb = (woken, ms, kb') \<Longrightarrow> x \<in> set ms \<Longrightarrow> handler_message [x]"
  by (auto simp: add_scancode_def handler_message_def split: option.splits prod.splits)

section \<open>The log\<close>

text \<open>
  The log has the messages that are complete, those of normal code marked with \<open>True\<close>. The screen
  shows them one after the other, and what there is of the message being written. What normal code
  has printed and what is left to print is always the same list.
\<close>

definition log_inv ::
  "'c volatile_ops \<Rightarrow> colour_code \<Rightarrow> terminal \<Rightarrow> bytes list list \<Rightarrow> (bool \<times> bytes list) list \<Rightarrow> bytes list option \<Rightarrow>
    ('c, 'sp, 'oc, 'aw, 'wk) machine \<Rightarrow> bool" where
  "log_inv V cc t all log cur m =
     ((cur = None \<longleftrightarrow> WRITER_lock \<notin> mc_locks m) \<and>
      console_at V cc (term_write cc (concat (concat (map snd log)) @ concat (case cur of None \<Rightarrow> [] | Some acc \<Rightarrow> acc)) t) (mc_writer m) \<and>
      (\<forall>a. (False, a) \<in> set log \<longrightarrow> handler_message a) \<and>
      (case mc_frames m of
         [f] \<Rightarrow> map snd (filter fst log) @ messages cur (fr_code f) = all
       | [h, f] \<Rightarrow> map snd (filter fst log) @ messages None (fr_code f) = all \<and>
           (\<forall>a \<in> set (messages cur (fr_code h)). handler_message a)
       | _ \<Rightarrow> False))"

lemma log_write:
  assumes "volatile_spec V" "console_at V cc (term_write cc (x @ concat acc) t) w" "write_str V s w = Inr w'"
  shows "console_at V cc (term_write cc (x @ concat (acc @ [s])) t) w'"
proof -
  have "term_write cc (x @ concat (acc @ [s])) t = term_write cc s (term_write cc (x @ concat acc) t)"
    by (simp add: term_write_append)
  then show ?thesis using write_str_at [OF assms(1,2), of s] assms(3) by simp
qed

lemma normal_step_log:
  assumes "machine_step MO m m'" "machine_ok MO" "mc_frames m = [f]" "machine_inv m"
    and "log_inv (mo_volatile MO) cc t all log cur m"
  shows "\<exists>log' cur'. log_inv (mo_volatile MO) cc t all log' cur' m'"
  using assms
proof cases
  case (st_write f' fs s c w)
  then obtain acc where cur: "cur = Some acc" using assms(3-5) by (auto simp: machine_inv_def normal_inv_def log_inv_def)
  have V: "volatile_spec (mo_volatile MO)" using assms(2) by (simp add: machine_ok_def)
  show ?thesis using st_write assms(3,5) log_write [OF V _ st_write(4)]
    by (intro exI [of _ log] exI [of _ "Some (acc @ [s])"]) (auto simp: log_inv_def cur)
next
  case (st_lock f' fs l c)
  then show ?thesis using assms(3,5)
    by (intro exI [of _ log] exI [of _ "if l = WRITER_lock then Some [] else cur"]) (auto simp: log_inv_def)
next
  case (st_unlock f' fs l c)
  show ?thesis
  proof (cases "l = WRITER_lock")
    case True
    then obtain acc where "cur = Some acc" using st_unlock assms(3-5) by (auto simp: machine_inv_def normal_inv_def log_inv_def)
    then show ?thesis using st_unlock assms(3,5) True
      by (intro exI [of _ "log @ [(True, acc)]"] exI [of _ None]) (auto simp: log_inv_def)
  next
    case False
    then show ?thesis using st_unlock assms(3,5)
      by (intro exI [of _ log] exI [of _ cur]) (auto simp: log_inv_def split: option.splits)
  qed
next
  case (st_raise f' fs n c h ti)
  then have "cur = None" using assms(3-5) by (auto simp: machine_inv_def normal_inv_def log_inv_def)
  then show ?thesis using st_raise assms(3,5)
    by (intro exI [of _ log] exI [of _ None]) (auto simp: log_inv_def enter_def handler_message_def)
next
  case (st_interrupt i h ti)
  then have "WRITER_lock \<notin> mc_locks m" using machine_inv_locks [OF assms(4)] by auto
  then have "cur = None" using assms(5) by (simp add: log_inv_def)
  then show ?thesis using st_interrupt assms(3,5)
    by (intro exI [of _ log] exI [of _ None]) (auto simp: log_inv_def enter_def handler_message_def)
qed (use assms(3-5) in \<open>(intro exI [of _ log] exI [of _ cur]; auto simp: log_inv_def machine_inv_def normal_inv_def split: option.splits)+\<close>)

lemma handler_step_log:
  assumes "machine_step MO m m'" "machine_ok MO" "mc_frames m = [h, f]" "machine_inv m"
    and "log_inv (mo_volatile MO) cc t all log cur m"
  shows "\<exists>log' cur'. log_inv (mo_volatile MO) cc t all log' cur' m'"
  using assms
proof cases
  case (st_write f' fs s c w)
  then obtain acc where cur: "cur = Some acc" using assms(3-5) by (auto simp: machine_inv_def handler_inv_def log_inv_def)
  have V: "volatile_spec (mo_volatile MO)" using assms(2) by (simp add: machine_ok_def)
  show ?thesis using st_write assms(3,5) log_write [OF V _ st_write(4)]
    by (intro exI [of _ log] exI [of _ "Some (acc @ [s])"]) (auto simp: log_inv_def cur)
next
  case (st_lock f' fs l c)
  then show ?thesis using assms(3,5)
    by (intro exI [of _ log] exI [of _ "if l = WRITER_lock then Some [] else cur"]) (auto simp: log_inv_def)
next
  case (st_unlock f' fs l c)
  show ?thesis
  proof (cases "l = WRITER_lock")
    case True
    then obtain acc where "cur = Some acc" using st_unlock assms(3-5) by (auto simp: machine_inv_def handler_inv_def log_inv_def)
    then show ?thesis using st_unlock assms(3,5) True
      by (intro exI [of _ "log @ [(False, acc)]"] exI [of _ None]) (auto simp: log_inv_def)
  next
    case False
    then show ?thesis using st_unlock assms(3,5)
      by (intro exI [of _ log] exI [of _ cur]) (auto simp: log_inv_def split: option.splits)
  qed
next
  case (st_add_scancode f' fs c woken ms kb)
  then have "WRITER_lock \<notin> mc_locks m" using assms(3,4) by (auto simp: machine_inv_def handler_inv_def)
  then have "cur = None" using assms(5) by (simp add: log_inv_def)
  then show ?thesis using st_add_scancode assms(3,5) add_scancode_messages [OF st_add_scancode(4)]
    by (intro exI [of _ log] exI [of _ None]) (auto simp: log_inv_def)
next
  case (st_iret f' g fs)
  then have "WRITER_lock \<notin> mc_locks m" using assms(3,4) by (auto simp: machine_inv_def handler_inv_def)
  then have "cur = None" using assms(5) by (simp add: log_inv_def)
  then show ?thesis using st_iret assms(3,5) by (intro exI [of _ log] exI [of _ None]) (auto simp: log_inv_def)
qed (use assms(3-5) in \<open>(intro exI [of _ log] exI [of _ cur]; auto simp: log_inv_def machine_inv_def handler_inv_def split: option.splits)+\<close>)

lemma reach_log:
  assumes "(machine_step MO)\<^sup>*\<^sup>* m m'" "machine_ok MO" "machine_inv m" "log_inv (mo_volatile MO) cc t all log cur m"
  shows "\<exists>log' cur'. log_inv (mo_volatile MO) cc t all log' cur' m'"
  using assms(1)
proof induction
  case base
  show ?case using assms(4) by blast
next
  case (step y z)
  have "machine_inv y" by (rule machine_reach_inv [OF step.hyps(1) assms(2,3)])
  with step show ?case using machine_inv_frames normal_step_log [OF _ assms(2)] handler_step_log [OF _ assms(2)] by metis
qed

section \<open>Running a print function\<close>

text \<open>Run without an interrupt, the statements of \<open>_print\<close> do what \<open>write_fmt\<close> does, and leave the flags as they were.\<close>

lemma run_writes:
  assumes "mc_frames m = f # fs" "fr_code f = map WriterWriteStr args @ c"
    and "rfold (write_str (mo_volatile MO)) args (mc_writer m) = Inr w"
  shows "(machine_step MO)\<^sup>*\<^sup>* m (m\<lparr>mc_writer := w, mc_frames := f\<lparr>fr_code := c\<rparr> # fs\<rparr>)"
  using assms
proof (induction args arbitrary: m f)
  case Nil
  then have "m\<lparr>mc_writer := w, mc_frames := f\<lparr>fr_code := c\<rparr> # fs\<rparr> = m" by simp
  then show ?case by simp
next
  case (Cons s args)
  then obtain w1 where w1: "write_str (mo_volatile MO) s (mc_writer m) = Inr w1" "rfold (write_str (mo_volatile MO)) args w1 = Inr w"
    by (auto simp: rbind_eq_Inr)
  let ?m1 = "m\<lparr>mc_writer := w1, mc_frames := f\<lparr>fr_code := map WriterWriteStr args @ c\<rparr> # fs\<rparr>"
  have 1: "machine_step MO m ?m1" using st_write [OF Cons.prems(1) _ w1(1)] Cons.prems(2) by simp
  show ?case
    by (rule converse_rtranclp_into_rtranclp [of "machine_step MO", OF 1])
      (use Cons.IH [of ?m1 "f\<lparr>fr_code := map WriterWriteStr args @ c\<rparr>"] w1(2) in simp)
qed

lemma run_print:
  assumes "mc_frames m = f # fs" "fr_code f = vga_print args @ c" "WRITER_lock \<notin> mc_locks m"
    and "write_fmt (mo_volatile MO) args (mc_writer m) = Inr w"
  shows "(machine_step MO)\<^sup>*\<^sup>* m (m\<lparr>mc_writer := w, mc_frames := f\<lparr>fr_code := c, fr_saved := mc_if m\<rparr> # fs\<rparr>)"
proof -
  let ?R = "machine_step MO" and ?c3 = "[Unlock WRITER_lock, EndWithoutInterrupts] @ c"
  let ?c2 = "map WriterWriteStr args @ ?c3"
  let ?f = "f\<lparr>fr_saved := mc_if m\<rparr>"
  let ?m1 = "m\<lparr>mc_if := False, mc_frames := ?f\<lparr>fr_code := Lock WRITER_lock # ?c2\<rparr> # fs\<rparr>"
  let ?m2 = "m\<lparr>mc_if := False, mc_locks := insert WRITER_lock (mc_locks m), mc_frames := ?f\<lparr>fr_code := ?c2\<rparr> # fs\<rparr>"
  let ?m3 = "m\<lparr>mc_if := False, mc_locks := insert WRITER_lock (mc_locks m), mc_writer := w, mc_frames := ?f\<lparr>fr_code := ?c3\<rparr> # fs\<rparr>"
  let ?m4 = "m\<lparr>mc_if := False, mc_writer := w, mc_frames := ?f\<lparr>fr_code := EndWithoutInterrupts # c\<rparr> # fs\<rparr>"
  let ?m5 = "m\<lparr>mc_writer := w, mc_frames := ?f\<lparr>fr_code := c\<rparr> # fs\<rparr>"
  have 1: "?R m ?m1" using st_without [OF assms(1), of "Lock WRITER_lock # ?c2" MO] assms(2) by (cases f) (simp add: vga_print_def)
  have 2: "?R ?m1 ?m2" using st_lock [of ?m1 "?f\<lparr>fr_code := Lock WRITER_lock # ?c2\<rparr>" fs WRITER_lock ?c2 MO] assms(3) by simp
  have 3: "?R\<^sup>*\<^sup>* ?m2 ?m3" using run_writes [of ?m2 "?f\<lparr>fr_code := ?c2\<rparr>" fs args ?c3 MO w] assms(4) by (simp add: write_fmt_def)
  have 4: "?R ?m3 ?m4"
    using st_unlock [of ?m3 "?f\<lparr>fr_code := ?c3\<rparr>" fs WRITER_lock "EndWithoutInterrupts # c" MO] assms(3) by simp
  have 5: "?R ?m4 ?m5"
    using st_end_without [of ?m4 "?f\<lparr>fr_code := EndWithoutInterrupts # c\<rparr>" fs c MO] by (cases m) (simp split: if_splits)
  from 1 2 3 have "?R\<^sup>*\<^sup>* m ?m3" by (meson converse_rtranclp_into_rtranclp)
  with 4 5 have "?R\<^sup>*\<^sup>* m ?m5" by (meson rtranclp.rtrancl_into_rtrancl)
  moreover have "?f\<lparr>fr_code := c\<rparr> = f\<lparr>fr_code := c, fr_saved := mc_if m\<rparr>" by (cases f) simp
  ultimately show ?thesis by simp
qed

text \<open>\<open>test_breakpoint_exception\<close> of \<^verbatim>\<open>src/interrupts.rs\<close>.\<close>

definition test_breakpoint_exception :: "stmt list" where
  "test_breakpoint_exception = [Raise 3]"

section \<open>Properties\<close>



text \<open>
  C21: a breakpoint returns. Wherever normal code executes \<open>int3\<close> without holding the writer, the
  handler prints its message and the stack frame in one piece and execution resumes after the
  instruction, with the interrupt flag, the locks and all other devices as they were.
\<close>

theorem breakpoint_resumes:
  fixes ti :: trap_info
  assumes "volatile_spec (mo_volatile MO)" "idt_spec I entry" "IDT_new I = Inr idt" "mo_idt MO = map_option fst \<circ> entry idt"
    and "mc_frames m = f # fs" "fr_code f = test_breakpoint_exception @ c" "WRITER_lock \<notin> mc_locks m"
    and "shows_terminal (mo_volatile MO) (mc_writer m) t"
  shows "\<exists>w. (machine_step MO)\<^sup>*\<^sup>* m (m\<lparr>mc_writer := w, mc_frames := f\<lparr>fr_code := c\<rparr> # fs\<rparr>) \<and>
    shows_terminal (mo_volatile MO) w (term_write (colour_code (mc_writer m))
      (ascii ''EXCEPTION: BREAKPOINT'' @ [0x0a] @ fmt_stack_frame ti @ [0x0a]) t)"
proof -
  let ?args = "println_args [ascii ''EXCEPTION: BREAKPOINT'' @ [0x0a], fmt_stack_frame ti]"
  have "entry idt = idt_table" using IDT_new_ok [OF assms(2)] assms(3) by auto
  then have h: "mo_idt MO (unat (3 :: u8)) = Some BreakpointHandler" using assms(4) by (simp add: idt_table_def)
  obtain w where w: "write_fmt (mo_volatile MO) ?args (mc_writer m) = Inr w"
      "shows_terminal (mo_volatile MO) w (term_write (colour_code (mc_writer m)) (concat ?args) t)"
    using write_fmt_shows [OF assms(1,8)] by blast
  let ?b = "enter ti BreakpointHandler (mc_if m)" and ?f = "f\<lparr>fr_code := c\<rparr>"
  let ?m1 = "m\<lparr>mc_if := False, mc_frames := ?b # ?f # fs\<rparr>"
  let ?m2 = "m\<lparr>mc_if := False, mc_writer := w, mc_frames := ?b\<lparr>fr_code := [], fr_saved := False\<rparr> # ?f # fs\<rparr>"
  let ?m3 = "m\<lparr>mc_writer := w, mc_frames := ?f # fs\<rparr>"
  have 1: "machine_step MO m ?m1"
    using st_raise [OF assms(5) _ h, of c ti] assms(6) by (simp add: test_breakpoint_exception_def)
  have 2: "(machine_step MO)\<^sup>*\<^sup>* ?m1 ?m2"
    using run_print [of ?m1 ?b "?f # fs" ?args "[]" MO w] w(1) assms(7)
    by (simp add: enter_def breakpoint_handler_def del: list.map)
  have 3: "machine_step MO ?m2 ?m3"
    using st_iret [of ?m2 "?b\<lparr>fr_code := [], fr_saved := False\<rparr>" ?f fs MO] by (cases m) simp
  have "(machine_step MO)\<^sup>*\<^sup>* m ?m3" using 1 2 3
    by (meson converse_rtranclp_into_rtranclp rtranclp.rtrancl_into_rtrancl)
  then show ?thesis using w(2) by (auto simp: println_args_def)
qed

theorem breakpoint_resumes_witness:
  "let m = machine_start test_breakpoint_exception (WRITER_new ex_cells) [] (ex_statics []) in
   \<exists>w. (machine_step ex_machine_ops)\<^sup>*\<^sup>* m
     (m\<lparr>mc_writer := w, mc_frames := [\<lparr>fr_code = [], fr_saved = False, fr_if = False, fr_scancode = 0\<rparr>]\<rparr>)"
proof -
  let ?m = "machine_start test_breakpoint_exception (WRITER_new ex_cells) [] (ex_statics []) ::
    (screen_char, bytes, (u8 list \<times> nat) option, task_id option, task_id) machine"
  let ?f = "\<lparr>fr_code = test_breakpoint_exception, fr_saved = False, fr_if = False, fr_scancode = 0\<rparr>"
  obtain idt where idt: "IDT_new ex_idt = Inr idt" "idt = idt_table" using IDT_new_ok [OF ex_idt_spec] by auto
  have ops: "volatile_spec (mo_volatile ex_machine_ops)" "mo_idt ex_machine_ops = map_option fst \<circ> idt"
    by (simp_all add: ex_machine_ops_def ex_volatile_spec idt(2))
  have m: "mc_frames ?m = ?f # []" "fr_code ?f = test_breakpoint_exception @ []" "WRITER_lock \<notin> mc_locks ?m"
      "mc_writer ?m = WRITER_new ex_cells"
    by (simp_all add: machine_start_def)
  have "shows_terminal (mo_volatile ex_machine_ops) (mc_writer ?m)
      \<lparr>t_rows = screen (mo_volatile ex_machine_ops) (buffer (mc_writer ?m)), t_col = unat (column_position (mc_writer ?m))\<rparr>"
    by (rule wf_shows) (simp add: m(4) ex_wf)
  from breakpoint_resumes [where entry = "\<lambda>t. t" and idt = idt, OF ops(1) ex_idt_spec idt(1) ops(2) m(1-3) this]
  show ?thesis unfolding Let_def by auto
qed

end
