(* ===== verification/Executor.thy ===== *)
theory Executor
  imports Task
begin

text \<open>
  \<^verbatim>\<open>src/task/executor.rs\<close>: the executor, its wakers, and how it puts the CPU to sleep. The
  queue is shared with the wakers: a waker is the identifier it pushes. \<open>run_ready_tasks\<close> may
  run forever when tasks keep waking each other, so \<open>None\<close> is the value of a call that does
  not return. \<open>sleep_if_idle\<close> races with interrupt handlers and is a step relation.
\<close>

section \<open>State and operations\<close>

record task_waker =
  tw_task_id :: task_id

record ('f, 'q) executor =
  ex_tasks :: "task_id \<rightharpoonup> 'f task"
  ex_task_queue :: 'q
  ex_waker_cache :: "task_id \<rightharpoonup> task_waker"

definition executor_new :: "('q, task_id) queue_ops \<Rightarrow> ('f, 'q) executor" where
  "executor_new Q =
     \<lparr>ex_tasks = Map.empty, ex_task_queue = aq_new Q 100, ex_waker_cache = Map.empty\<rparr>"

definition spawn :: "('q, task_id) queue_ops \<Rightarrow> 'f task \<Rightarrow> ('f, 'q) executor \<Rightarrow> ('f, 'q) executor result" where
  "spawn Q task self =
     (let task_id = t_id task in
      if ex_tasks self task_id \<noteq> None then Inl (Message ''task with the same ID already exists'')
      else rbind (expect ''queue full'' (aq_push Q (ex_task_queue self) task_id)) (\<lambda>q.
        Inr (self\<lparr>ex_tasks := (ex_tasks self)(task_id \<mapsto> task), ex_task_queue := q\<rparr>)))"

definition task_waker_new :: "task_id \<Rightarrow> task_waker" where
  "task_waker_new task_id = \<lparr>tw_task_id = task_id\<rparr>"

definition wake_task :: "('q, task_id) queue_ops \<Rightarrow> task_waker \<Rightarrow> 'q \<Rightarrow> 'q result" where
  "wake_task Q self task_queue = expect ''task queue full'' (aq_push Q task_queue (tw_task_id self))"

definition wake :: "('q, task_id) queue_ops \<Rightarrow> task_waker \<Rightarrow> 'q \<Rightarrow> 'q result" where
  "wake Q self task_queue = wake_task Q self task_queue"

definition wake_by_ref :: "('q, task_id) queue_ops \<Rightarrow> task_waker \<Rightarrow> 'q \<Rightarrow> 'q result" where
  "wake_by_ref Q self task_queue = wake_task Q self task_queue"

text \<open>The wake-ups that happen while a task is polled, one after the other.\<close>

definition wake_all :: "('q, task_id) queue_ops \<Rightarrow> task_id list \<Rightarrow> 'q \<Rightarrow> 'q result" where
  "wake_all Q ids task_queue = rfold (\<lambda>id. wake Q (task_waker_new id)) ids task_queue"

partial_function (option) run_ready_tasks ::
  "('q, task_id) queue_ops \<Rightarrow> ('f, task_waker, 'w) future_poll \<Rightarrow> ('f, 'q) executor \<Rightarrow> 'w \<Rightarrow>
    (('f, 'q) executor \<times> 'w) result option" where
  "run_ready_tasks Q FP self w =
     (case aq_pop Q (ex_task_queue self) of
        None \<Rightarrow> Some (Inr (self, w))
      | Some (task_id, q) \<Rightarrow>
          let self = self\<lparr>ex_task_queue := q\<rparr> in
          (case ex_tasks self task_id of
             None \<Rightarrow> run_ready_tasks Q FP self w
           | Some task \<Rightarrow>
               let waker = (case ex_waker_cache self task_id of
                              Some waker \<Rightarrow> waker
                            | None \<Rightarrow> task_waker_new task_id);
                   waker_cache = (ex_waker_cache self)(task_id \<mapsto> waker) in
               (case task_poll FP task waker w of
                  None \<Rightarrow> None
                | Some (Inl e) \<Rightarrow> Some (Inl e)
                | Some (Inr (p, task', wakes, w')) \<Rightarrow>
                    (case wake_all Q wakes q of
                       Inl e \<Rightarrow> Some (Inl e)
                     | Inr q' \<Rightarrow>
                         (case p of
                            Ready \<Rightarrow> run_ready_tasks Q FP
                              (self\<lparr>ex_tasks := (ex_tasks self)(task_id := None), ex_task_queue := q',
                                    ex_waker_cache := waker_cache(task_id := None)\<rparr>) w'
                          | Pending \<Rightarrow> run_ready_tasks Q FP
                              (self\<lparr>ex_tasks := (ex_tasks self)(task_id \<mapsto> task'), ex_task_queue := q',
                                    ex_waker_cache := waker_cache\<rparr>) w')))))"

section \<open>Sleeping\<close>

text \<open>
  \<open>sleep_if_idle\<close> statement by statement: the interrupt flag of the CPU, the queue, the world
  the interrupt handlers act on, and the statement that is next. \<open>enable_and_hlt\<close> is one step:
  the CPU delays interrupts until the instruction after \<open>sti\<close>, the \<open>hlt\<close>, has begun.
\<close>

datatype sleep_pc = Check1 | Disable | Check2 | EnableAndHlt | Halted | Enable | Return

record ('q, 'w) sleep_state =
  sl_if :: bool
  sl_queue :: 'q
  sl_world :: 'w
  sl_pc :: sleep_pc

text \<open>
  An interrupt is possible whenever the flag is set. What its handler does to the world, and
  which tasks it wakes, is the parameter \<open>irq\<close>; a halted CPU continues after it.
\<close>

inductive sleep_step ::
  "('q, task_id) queue_ops \<Rightarrow> ('w \<Rightarrow> task_id list \<Rightarrow> 'w \<Rightarrow> bool) \<Rightarrow> ('q, 'w) sleep_state \<Rightarrow> ('q, 'w) sleep_state \<Rightarrow> bool"
  for Q irq where
  check1_empty: "sl_pc s = Check1 \<Longrightarrow> aq_is_empty Q (sl_queue s) \<Longrightarrow> sleep_step Q irq s (s\<lparr>sl_pc := Disable\<rparr>)"
| check1_tasks: "sl_pc s = Check1 \<Longrightarrow> \<not> aq_is_empty Q (sl_queue s) \<Longrightarrow> sleep_step Q irq s (s\<lparr>sl_pc := Return\<rparr>)"
| disable: "sl_pc s = Disable \<Longrightarrow> sleep_step Q irq s (s\<lparr>sl_if := False, sl_pc := Check2\<rparr>)"
| check2_empty: "sl_pc s = Check2 \<Longrightarrow> aq_is_empty Q (sl_queue s) \<Longrightarrow> sleep_step Q irq s (s\<lparr>sl_pc := EnableAndHlt\<rparr>)"
| check2_tasks: "sl_pc s = Check2 \<Longrightarrow> \<not> aq_is_empty Q (sl_queue s) \<Longrightarrow> sleep_step Q irq s (s\<lparr>sl_pc := Enable\<rparr>)"
| enable_and_hlt: "sl_pc s = EnableAndHlt \<Longrightarrow> sleep_step Q irq s (s\<lparr>sl_if := True, sl_pc := Halted\<rparr>)"
| enable: "sl_pc s = Enable \<Longrightarrow> sleep_step Q irq s (s\<lparr>sl_if := True, sl_pc := Return\<rparr>)"
| interrupt: "sl_if s \<Longrightarrow> irq (sl_world s) ids w \<Longrightarrow> wake_all Q ids (sl_queue s) = Inr q \<Longrightarrow>
    sleep_step Q irq s (s\<lparr>sl_queue := q, sl_world := w,
      sl_pc := if sl_pc s = Halted then Return else sl_pc s\<rparr>)"

definition sleep_start :: "'q \<Rightarrow> 'w \<Rightarrow> ('q, 'w) sleep_state" where
  "sleep_start q w = \<lparr>sl_if = True, sl_queue = q, sl_world = w, sl_pc = Check1\<rparr>"

text \<open>
  \<open>run\<close> never returns; these are the states it is in before each round of its loop.
\<close>

inductive executor_run ::
  "('q, task_id) queue_ops \<Rightarrow> ('f, task_waker, 'w) future_poll \<Rightarrow> ('w \<Rightarrow> task_id list \<Rightarrow> 'w \<Rightarrow> bool) \<Rightarrow>
    ('f, 'q) executor \<Rightarrow> 'w \<Rightarrow> ('f, 'q) executor \<Rightarrow> 'w \<Rightarrow> bool"
  for Q FP irq ex w where
  run_start: "executor_run Q FP irq ex w ex w"
| run_round: "executor_run Q FP irq ex w ex1 w1 \<Longrightarrow>
    run_ready_tasks Q FP ex1 w1 = Some (Inr (ex2, w2)) \<Longrightarrow>
    (sleep_step Q irq)\<^sup>*\<^sup>* (sleep_start (ex_task_queue ex2) w2) s \<Longrightarrow> sl_pc s = Return \<Longrightarrow>
    executor_run Q FP irq ex w (ex2\<lparr>ex_task_queue := sl_queue s\<rparr>) (sl_world s)"

section \<open>Wake-ups and the queue\<close>

lemma wake_all_Cons: "wake_all Q (i # ids) q = rbind (expect ''task queue full'' (aq_push Q q i)) (wake_all Q ids)"
  by (cases "aq_push Q q i") (simp_all add: wake_all_def wake_def wake_task_def task_waker_new_def)

lemma wake_all_contents:
  assumes "queue_spec Q contents cap" "wake_all Q ids q = Inr q'"
  shows "contents q' = contents q @ ids" "cap q' = cap q"
  using assms(2)
proof (induction ids arbitrary: q)
  case (Cons i ids)
  {
    case 1
    then show ?case using Cons.IH(1) queue_push_Some [OF assms(1)]
      by (fastforce simp: wake_all_Cons rbind_eq_Inr)
  next
    case 2
    then show ?case using Cons.IH(2) queue_push_Some [OF assms(1)]
      by (fastforce simp: wake_all_Cons rbind_eq_Inr)
  }
qed (simp_all add: wake_all_def)

lemma wake_all_room:
  assumes "queue_spec Q contents cap" "length (contents q) + length ids \<le> cap q"
  shows "\<exists>q'. wake_all Q ids q = Inr q'"
  using assms(2)
proof (induction ids arbitrary: q)
  case (Cons i ids)
  then obtain q1 where q1: "aq_push Q q i = Some q1" "contents q1 = contents q @ [i]" "cap q1 = cap q"
    using queue_specD(3) [OF assms(1), of q i] by auto
  then have "\<exists>q'. wake_all Q ids q1 = Inr q'" using Cons by (intro Cons.IH) simp
  then show ?case using q1(1) by (simp add: wake_all_Cons)
qed (simp add: wake_all_def)

section \<open>The specification of run_ready_tasks\<close>

text \<open>
  Without caches and capacities: the identifiers are taken from the front of a list, unknown
  ones are skipped, each known task is polled with its own waker, wake-ups are added at the
  end, and finished tasks are removed. The list argument records which tasks were polled.
\<close>

inductive ready_run ::
  "('f, task_waker, 'w) future_poll \<Rightarrow> (task_id \<rightharpoonup> 'f task) \<Rightarrow> task_id list \<Rightarrow> 'w \<Rightarrow> task_id list \<Rightarrow>
    (task_id \<rightharpoonup> 'f task) \<Rightarrow> 'w \<Rightarrow> bool"
  for FP where
  rr_done: "ready_run FP T [] w [] T w"
| rr_stale: "T i = None \<Longrightarrow> ready_run FP T is w ps T' w' \<Longrightarrow> ready_run FP T (i # is) w ps T' w'"
| rr_ready: "T i = Some t \<Longrightarrow> FP (t_future t) (task_waker_new i) w = Some (Inr (Ready, f, ids, w1)) \<Longrightarrow>
    ready_run FP (T(i := None)) (is @ ids) w1 ps T' w' \<Longrightarrow> ready_run FP T (i # is) w (i # ps) T' w'"
| rr_pending: "T i = Some t \<Longrightarrow> FP (t_future t) (task_waker_new i) w = Some (Inr (Pending, f, ids, w1)) \<Longrightarrow>
    ready_run FP (T(i \<mapsto> t\<lparr>t_future := f\<rparr>)) (is @ ids) w1 ps T' w' \<Longrightarrow> ready_run FP T (i # is) w (i # ps) T' w'"

text \<open>
  The invariant: tasks are filed under their identifier, and only tasks that exist have a
  cached waker, which is their own.
\<close>

definition executor_inv :: "('f, 'q) executor \<Rightarrow> bool" where
  "executor_inv ex =
     ((\<forall>i t. ex_tasks ex i = Some t \<longrightarrow> t_id t = i) \<and> dom (ex_waker_cache ex) \<subseteq> dom (ex_tasks ex) \<and>
      (\<forall>i k. ex_waker_cache ex i = Some k \<longrightarrow> k = task_waker_new i))"

text \<open>One round of the loop, as a function of the state: what is polled and what becomes of it.\<close>

lemma cached_waker:
  assumes "executor_inv ex"
  shows "(case ex_waker_cache ex i of Some k \<Rightarrow> k | None \<Rightarrow> task_waker_new i) = task_waker_new i"
  using assms by (auto simp: executor_inv_def split: option.splits)

lemma executor_inv_ready:
  "executor_inv ex \<Longrightarrow>
     executor_inv (ex\<lparr>ex_tasks := (ex_tasks ex)(i := None), ex_task_queue := q,
       ex_waker_cache := (ex_waker_cache ex)(i := None)\<rparr>)"
  by (auto simp: executor_inv_def)

lemma executor_inv_pending:
  "executor_inv ex \<Longrightarrow> t_id t = i \<Longrightarrow>
     executor_inv (ex\<lparr>ex_tasks := (ex_tasks ex)(i \<mapsto> t), ex_task_queue := q,
       ex_waker_cache := (ex_waker_cache ex)(i \<mapsto> task_waker_new i)\<rparr>)"
  by (auto simp: executor_inv_def)

lemma executor_inv_queue [simp]: "executor_inv (ex\<lparr>ex_task_queue := q\<rparr>) \<longleftrightarrow> executor_inv ex"
  by (simp add: executor_inv_def)

lemma task_poll_Inr:
  "task_poll FP t k w = Some (Inr (p, t', ids, w')) \<longleftrightarrow>
     (\<exists>f. FP (t_future t) k w = Some (Inr (p, f, ids, w')) \<and> t' = t\<lparr>t_future := f\<rparr>)"
  by (auto simp: task_poll_def rbind_eq_Inr)

text \<open>
  One round of the loop over an arbitrary continuation \<open>run\<close>, and what it amounts to under the
  invariant.
\<close>

definition ready_round ::
  "('q, task_id) queue_ops \<Rightarrow> ('f, task_waker, 'w) future_poll \<Rightarrow>
    (('f, 'q) executor \<Rightarrow> 'w \<Rightarrow> (('f, 'q) executor \<times> 'w) result option) \<Rightarrow>
    ('f, 'q) executor \<Rightarrow> 'w \<Rightarrow> (('f, 'q) executor \<times> 'w) result option" where
  "ready_round Q FP run self w =
     (case aq_pop Q (ex_task_queue self) of
        None \<Rightarrow> Some (Inr (self, w))
      | Some (task_id, q) \<Rightarrow>
          let self = self\<lparr>ex_task_queue := q\<rparr> in
          (case ex_tasks self task_id of
             None \<Rightarrow> run self w
           | Some task \<Rightarrow>
               let waker = (case ex_waker_cache self task_id of
                              Some waker \<Rightarrow> waker
                            | None \<Rightarrow> task_waker_new task_id);
                   waker_cache = (ex_waker_cache self)(task_id \<mapsto> waker) in
               (case task_poll FP task waker w of
                  None \<Rightarrow> None
                | Some (Inl e) \<Rightarrow> Some (Inl e)
                | Some (Inr (p, task', wakes, w')) \<Rightarrow>
                    (case wake_all Q wakes q of
                       Inl e \<Rightarrow> Some (Inl e)
                     | Inr q' \<Rightarrow>
                         (case p of
                            Ready \<Rightarrow> run
                              (self\<lparr>ex_tasks := (ex_tasks self)(task_id := None), ex_task_queue := q',
                                    ex_waker_cache := waker_cache(task_id := None)\<rparr>) w'
                          | Pending \<Rightarrow> run
                              (self\<lparr>ex_tasks := (ex_tasks self)(task_id \<mapsto> task'), ex_task_queue := q',
                                    ex_waker_cache := waker_cache\<rparr>) w')))))"

lemma run_ready_tasks_round: "run_ready_tasks Q FP ex w = ready_round Q FP (run_ready_tasks Q FP) ex w"
  by (subst run_ready_tasks.simps) (simp only: ready_round_def)

lemma ready_round_None: "aq_pop Q (ex_task_queue ex) = None \<Longrightarrow> ready_round Q FP run ex w = Some (Inr (ex, w))"
  by (simp add: ready_round_def)

lemma ready_round_stale:
  "aq_pop Q (ex_task_queue ex) = Some (i, q) \<Longrightarrow> ex_tasks ex i = None \<Longrightarrow>
     ready_round Q FP run ex w = run (ex\<lparr>ex_task_queue := q\<rparr>) w"
  by (simp add: ready_round_def)

definition after_poll :: "('f, 'q) executor \<Rightarrow> task_id \<Rightarrow> poll \<Rightarrow> 'f task \<Rightarrow> 'q \<Rightarrow> ('f, 'q) executor" where
  "after_poll ex i p t q =
     (case p of
        Ready \<Rightarrow> ex\<lparr>ex_tasks := (ex_tasks ex)(i := None), ex_task_queue := q,
          ex_waker_cache := (ex_waker_cache ex)(i := None)\<rparr>
      | Pending \<Rightarrow> ex\<lparr>ex_tasks := (ex_tasks ex)(i \<mapsto> t), ex_task_queue := q,
          ex_waker_cache := (ex_waker_cache ex)(i \<mapsto> task_waker_new i)\<rparr>)"

lemma ready_round_poll:
  assumes "executor_inv ex" "aq_pop Q (ex_task_queue ex) = Some (i, q)" "ex_tasks ex i = Some t"
  shows "ready_round Q FP run ex w =
    (case FP (t_future t) (task_waker_new i) w of
       None \<Rightarrow> None
     | Some (Inl e) \<Rightarrow> Some (Inl e)
     | Some (Inr (p, f, ids, w')) \<Rightarrow>
         (case wake_all Q ids q of
            Inl e \<Rightarrow> Some (Inl e)
          | Inr q' \<Rightarrow> run (after_poll ex i p (t\<lparr>t_future := f\<rparr>) q') w'))"
  by (simp add: ready_round_def assms cached_waker Let_def task_poll_def after_poll_def
      split: option.split sum.split poll.split)

lemma after_poll_inv:
  "executor_inv ex \<Longrightarrow> t_id t = i \<Longrightarrow> executor_inv (after_poll ex i p t q)"
  by (cases p) (simp_all add: after_poll_def executor_inv_ready executor_inv_pending)

lemma after_poll_sel [simp]:
  "ex_task_queue (after_poll ex i p t q) = q"
  "ex_tasks (after_poll ex i Ready t q) = (ex_tasks ex)(i := None)"
  "ex_tasks (after_poll ex i Pending t q) = (ex_tasks ex)(i \<mapsto> t)"
  by (cases p; simp add: after_poll_def)+

lemma run_ready_tasks_induct [consumes 1, case_names round]:
  assumes "run_ready_tasks Q FP ex w = Some r"
    and "\<And>run ex w r. (\<And>ex w r. run ex w = Some r \<Longrightarrow> P ex w r) \<Longrightarrow>
      ready_round Q FP run ex w = Some r \<Longrightarrow> P ex w r"
  shows "P ex w r"
proof -
  have "Q = Q \<longrightarrow> FP = FP \<longrightarrow> P ex w r"
    apply (rule run_ready_tasks.raw_induct [where P = "\<lambda>Q' FP' ex w r. Q' = Q \<longrightarrow> FP' = FP \<longrightarrow> P ex w r", rotated,
        OF assms(1)])
    subgoal premises prems for run Q' FP' ex w r
      using assms(2) [of "run Q FP" ex w r] prems unfolding ready_round_def by blast
    done
  then show ?thesis by simp
qed

lemma run_ready_tasks_spec:
  assumes "queue_spec Q contents cap" "executor_inv ex" "run_ready_tasks Q FP ex w = Some (Inr (ex', w'))"
  shows "executor_inv ex' \<and> contents (ex_task_queue ex') = [] \<and>
    (\<exists>ps. ready_run FP (ex_tasks ex) (contents (ex_task_queue ex)) w ps (ex_tasks ex') w')"
proof -
  let ?P = "\<lambda>ex w (r :: _ result). executor_inv ex \<longrightarrow> r = Inr (ex', w') \<longrightarrow> executor_inv ex' \<and> contents (ex_task_queue ex') = [] \<and>
      (\<exists>ps. ready_run FP (ex_tasks ex) (contents (ex_task_queue ex)) w ps (ex_tasks ex') w')"
  have "?P ex w (Inr (ex', w'))"
  proof (rule run_ready_tasks_induct [OF assms(3), where P = ?P])
    fix run ex w r
    assume IH: "\<And>ex w r. run ex w = Some r \<Longrightarrow> ?P ex w r" and hyp: "ready_round Q FP run ex w = Some r"
    show "?P ex w r"
    proof (intro impI)
      assume inv: "executor_inv ex" and r: "r = Inr (ex', w')"
      show "executor_inv ex' \<and> contents (ex_task_queue ex') = [] \<and>
        (\<exists>ps. ready_run FP (ex_tasks ex) (contents (ex_task_queue ex)) w ps (ex_tasks ex') w')"
      proof (cases rule: queue_popE [OF assms(1), of "ex_task_queue ex"])
        case 1
        then show ?thesis using hyp inv r by (auto simp: ready_round_None intro: rr_done)
      next
        case (2 i q)
        show ?thesis
        proof (cases "ex_tasks ex i")
          case None
          then have "run (ex\<lparr>ex_task_queue := q\<rparr>) w = Some r"
            using hyp ready_round_stale [OF 2(2), of FP run w] by simp
          from IH [OF this] inv r 2(1) None show ?thesis by (auto intro: rr_stale)
        next
          case (Some t)
          obtain p f ids w1 q' where p: "FP (t_future t) (task_waker_new i) w = Some (Inr (p, f, ids, w1))"
              "wake_all Q ids q = Inr q'" "run (after_poll ex i p (t\<lparr>t_future := f\<rparr>) q') w1 = Some r"
            using hyp r unfolding ready_round_poll [OF inv 2(2) Some]
            by (auto split: option.splits sum.splits)
          have "t_id t = i" using inv Some by (simp add: executor_inv_def)
          then have "executor_inv (after_poll ex i p (t\<lparr>t_future := f\<rparr>) q')" using inv by (simp add: after_poll_inv)
          moreover have "contents q' = contents q @ ids" using wake_all_contents(1) [OF assms(1) p(2)] .
          ultimately show ?thesis
            using IH [OF p(3)] r 2(1) Some p(1)
            by (cases p) (auto simp del: fun_upd_apply intro: rr_ready rr_pending)
        qed
      qed
    qed
  qed
  then show ?thesis using assms(2) by simp
qed

section \<open>The loop returns\<close>

text \<open>
  Tasks may wake each other without end. If the wake-ups are limited, by a budget of the
  world that every poll pays its wake-ups from, the loop ends; if the queue has room for the
  budget, no wake-up finds it full.
\<close>

definition wakes_bounded :: "('f, task_waker, 'w) future_poll \<Rightarrow> ('w \<Rightarrow> nat) \<Rightarrow> bool" where
  "wakes_bounded FP budget =
     (\<forall>f k w. \<exists>p f' ids w'. FP f k w = Some (Inr (p, f', ids, w')) \<and> length ids + budget w' \<le> budget w)"

lemma run_ready_tasks_total:
  assumes "queue_spec Q contents cap" "wakes_bounded FP budget"
    and "executor_inv ex" "length (contents (ex_task_queue ex)) + budget w \<le> cap (ex_task_queue ex)"
  shows "\<exists>ex' w'. run_ready_tasks Q FP ex w = Some (Inr (ex', w'))"
  using assms(3,4)
proof (induction "length (contents (ex_task_queue ex)) + budget w" arbitrary: ex w rule: less_induct)
  case less
  show ?case
  proof (cases rule: queue_popE [OF assms(1), of "ex_task_queue ex"])
    case 1
    then show ?thesis by (simp add: run_ready_tasks_round ready_round_None)
  next
    case (2 i q)
    show ?thesis
    proof (cases "ex_tasks ex i")
      case None
      then have "run_ready_tasks Q FP ex w = run_ready_tasks Q FP (ex\<lparr>ex_task_queue := q\<rparr>) w"
        using ready_round_stale [OF 2(2), of FP "run_ready_tasks Q FP" w] by (subst run_ready_tasks_round) simp
      then show ?thesis
        using less.hyps [of "ex\<lparr>ex_task_queue := q\<rparr>" w] less.prems 2(1,3) by simp
    next
      case (Some t)
      obtain p f ids w1 where p: "FP (t_future t) (task_waker_new i) w = Some (Inr (p, f, ids, w1))"
          "length ids + budget w1 \<le> budget w"
        using assms(2) unfolding wakes_bounded_def by blast
      have "length (contents q) + length ids \<le> cap q" using less.prems(2) 2(1,3) p(2) by simp
      then obtain q' where q': "wake_all Q ids q = Inr q'" using wake_all_room [OF assms(1)] by blast
      note c = wake_all_contents [OF assms(1) q']
      let ?ex = "after_poll ex i p (t\<lparr>t_future := f\<rparr>) q'"
      have "run_ready_tasks Q FP ex w = run_ready_tasks Q FP ?ex w1"
        using ready_round_poll [OF less.prems(1) 2(2) Some, of FP "run_ready_tasks Q FP" w] p(1) q'
        by (subst run_ready_tasks_round) simp
      moreover have "t_id t = i" using less.prems(1) Some by (simp add: executor_inv_def)
      then have "executor_inv ?ex" using less.prems(1) by (simp add: after_poll_inv)
      ultimately show ?thesis
        using less.hyps [of ?ex w1] less.prems(2) c p(2) 2(1,3) by simp
    qed
  qed
qed

section \<open>Spawning\<close>

text \<open>\<open>executor.spawn(Task::new(future))\<close> for each of the futures.\<close>

fun spawn_all ::
  "('q, task_id) queue_ops \<Rightarrow> 'f list \<Rightarrow> u64 \<Rightarrow> ('f, 'q) executor \<Rightarrow> (u64 \<times> ('f, 'q) executor) result" where
  "spawn_all Q [] NEXT_ID ex = Inr (NEXT_ID, ex)"
| "spawn_all Q (f # fs) NEXT_ID ex =
     (let (task, next) = task_new NEXT_ID f in
      rbind (spawn Q task ex) (\<lambda>ex'. spawn_all Q fs next ex'))"

lemma spawn_ok:
  assumes "queue_spec Q contents cap" "executor_inv ex" "ex_tasks ex (t_id t) = None"
    and "length (contents (ex_task_queue ex)) < cap (ex_task_queue ex)"
  shows "\<exists>ex'. spawn Q t ex = Inr ex' \<and> executor_inv ex' \<and> ex_tasks ex' = (ex_tasks ex)(t_id t \<mapsto> t) \<and>
    contents (ex_task_queue ex') = contents (ex_task_queue ex) @ [t_id t] \<and>
    cap (ex_task_queue ex') = cap (ex_task_queue ex)"
proof -
  obtain q where q: "aq_push Q (ex_task_queue ex) (t_id t) = Some q"
      "contents q = contents (ex_task_queue ex) @ [t_id t]" "cap q = cap (ex_task_queue ex)"
    using queue_specD(3) [OF assms(1,4)] by blast
  have "executor_inv (ex\<lparr>ex_tasks := (ex_tasks ex)(t_id t \<mapsto> t), ex_task_queue := q\<rparr>)"
    using assms(2) by (auto simp: executor_inv_def)
  then show ?thesis using q assms(3) by (simp add: spawn_def)
qed

lemma spawn_all_ok:
  assumes "queue_spec Q contents cap" "executor_inv ex"
    and "length (contents (ex_task_queue ex)) + length fs \<le> cap (ex_task_queue ex)"
    and "\<forall>j < length fs. ex_tasks ex (TaskId (n + word_of_nat j)) = None" "length fs \<le> 2 ^ 64"
  shows "\<exists>ex'. spawn_all Q fs n ex = Inr (n + word_of_nat (length fs), ex') \<and> executor_inv ex' \<and>
    contents (ex_task_queue ex') =
      contents (ex_task_queue ex) @ map (\<lambda>j. TaskId (n + word_of_nat j)) [0..<length fs] \<and>
    cap (ex_task_queue ex') = cap (ex_task_queue ex)"
  using assms(2-)
proof (induction fs arbitrary: n ex)
  case (Cons f fs)
  let ?t = "\<lparr>t_id = TaskId n, t_future = f\<rparr>"
  have "ex_tasks ex (TaskId n) = None" using Cons.prems(3) [rule_format, of 0] by simp
  then obtain ex1 where ex1: "spawn Q ?t ex = Inr ex1" "executor_inv ex1" "ex_tasks ex1 = (ex_tasks ex)(TaskId n \<mapsto> ?t)"
      "contents (ex_task_queue ex1) = contents (ex_task_queue ex) @ [TaskId n]"
      "cap (ex_task_queue ex1) = cap (ex_task_queue ex)"
    using spawn_ok [OF assms(1) Cons.prems(1), of ?t] Cons.prems(2) by auto
  have new: "ex_tasks ex1 (TaskId (n + 1 + word_of_nat j)) = None" if "j < length fs" for j
  proof -
    have "(word_of_nat (Suc j) :: u64) \<noteq> word_of_nat 0"
      using word_of_nat_inj64 [of "Suc j" 0] that Cons.prems(4) by fastforce
    then have "TaskId (n + 1 + word_of_nat j) \<noteq> TaskId n" by (simp add: add.assoc)
    then show ?thesis
      using Cons.prems(3) [rule_format, of "Suc j"] that by (simp add: ex1(3) add.assoc)
  qed
  have "[0..<length (f # fs)] = 0 # map Suc [0..<length fs]"
    by (simp add: upt_conv_Cons map_Suc_upt del: upt_Suc)
  then have ids: "map (\<lambda>j. TaskId (n + word_of_nat j)) [0..<length (f # fs)] =
      TaskId n # map (\<lambda>j. TaskId (n + 1 + word_of_nat j)) [0..<length fs]"
    by (simp add: comp_def add.assoc)
  have "\<exists>ex'. spawn_all Q fs (n + 1) ex1 = Inr (n + 1 + word_of_nat (length fs), ex') \<and> executor_inv ex' \<and>
      contents (ex_task_queue ex') =
        contents (ex_task_queue ex1) @ map (\<lambda>j. TaskId (n + 1 + word_of_nat j)) [0..<length fs] \<and>
      cap (ex_task_queue ex') = cap (ex_task_queue ex1)"
    using Cons.prems(2,4) ex1(4,5) new by (intro Cons.IH [OF ex1(2)]) auto
  then show ?case
    unfolding ids using ex1(1,4,5) by (auto simp: task_new_def task_id_new_def add.assoc)
qed simp

section \<open>Sleeping never misses a wake-up\<close>

text \<open>
  Between the second check and the \<open>hlt\<close> no interrupt can add to the queue, because the flag
  is off.
\<close>

definition sleep_inv :: "('q \<Rightarrow> 'a list) \<Rightarrow> ('q, 'w) sleep_state \<Rightarrow> bool" where
  "sleep_inv contents s =
     ((sl_if s \<longleftrightarrow> sl_pc s \<notin> {Check2, EnableAndHlt, Enable}) \<and>
      (sl_pc s \<in> {EnableAndHlt, Halted} \<longrightarrow> contents (sl_queue s) = []))"

lemma sleep_step_inv:
  assumes "queue_spec Q contents cap" "sleep_step Q irq s s'" "sleep_inv contents s"
  shows "sleep_inv contents s'"
proof -
  have e: "aq_is_empty Q (sl_queue s) \<longleftrightarrow> contents (sl_queue s) = []" by (rule queue_specD(7) [OF assms(1)])
  show ?thesis using assms(2)
    by (cases rule: sleep_step.cases) (use assms(3) e in \<open>simp_all add: sleep_inv_def\<close>)
qed

lemma sleep_reach_inv:
  assumes "queue_spec Q contents cap" "(sleep_step Q irq)\<^sup>*\<^sup>* (sleep_start q w) s"
  shows "sleep_inv contents s"
  using assms(2)
proof (induction rule: rtranclp_induct)
  case base
  show ?case by (simp add: sleep_start_def sleep_inv_def)
next
  case (step s s')
  show ?case by (rule sleep_step_inv [OF assms(1) step.hyps(2) step.IH])
qed

section \<open>A concrete system, for the witnesses\<close>

text \<open>A future that yields until the world's counter is down, waking itself each time.\<close>

abbreviation (input) ex_future :: "(unit, task_waker, nat) future_poll" where
  "ex_future \<equiv> \<lambda>f k w. if w = 0 then Some (Inr (Ready, f, [], 0))
     else Some (Inr (Pending, f, [tw_task_id k], w - 1))"

lemma ex_future_bounded: "wakes_bounded ex_future (\<lambda>w. w)"
  by (auto simp: wakes_bounded_def)

abbreviation (input) ex_executor :: "(unit, task_id list \<times> nat) executor" where
  "ex_executor \<equiv> \<lparr>ex_tasks = [TaskId 0 \<mapsto> \<lparr>t_id = TaskId 0, t_future = ()\<rparr>],
     ex_task_queue = ([TaskId 0], 100), ex_waker_cache = Map.empty\<rparr>"

lemma ex_executor_inv: "executor_inv ex_executor"
  by (simp add: executor_inv_def)

lemma executor_new_inv:
  assumes "queue_spec Q contents cap"
  shows "executor_inv (executor_new Q)" "contents (ex_task_queue (executor_new Q)) = []"
    "cap (ex_task_queue (executor_new Q)) = 100" "ex_tasks (executor_new Q) = Map.empty"
  using queue_specD(1,2) [OF assms] by (simp_all add: executor_new_def executor_inv_def)

lemma ex_sleep:
  "\<exists>s. (sleep_step list_queue irq)\<^sup>*\<^sup>* (sleep_start ([], 100) w) s \<and> sl_pc s = Halted"
proof -
  let ?s = "\<lambda>f pc. \<lparr>sl_if = f, sl_queue = ([], 100), sl_world = w, sl_pc = pc\<rparr>"
  have e: "aq_is_empty list_queue ([], 100)" by (simp add: list_queue_def)
  have "sleep_step list_queue irq (?s True Check1) (?s True Disable)"
    "sleep_step list_queue irq (?s True Disable) (?s False Check2)"
    "sleep_step list_queue irq (?s False Check2) (?s False EnableAndHlt)"
    "sleep_step list_queue irq (?s False EnableAndHlt) (?s True Halted)"
    using check1_empty [of "?s True Check1" list_queue irq] disable [of "?s True Disable" list_queue irq]
      check2_empty [of "?s False Check2" list_queue irq] enable_and_hlt [of "?s False EnableAndHlt" list_queue irq] e
    by simp_all
  then have "(sleep_step list_queue irq)\<^sup>*\<^sup>* (?s True Check1) (?s True Halted)"
    by (meson converse_rtranclp_into_rtranclp rtranclp.rtrancl_refl)
  then show ?thesis unfolding sleep_start_def by (intro exI [of _ "?s True Halted"]) simp
qed

section \<open>Properties\<close>

text \<open>
  C25: if the tasks' wake-ups are limited and the queue has room for them, \<open>run_ready_tasks\<close>
  returns without a panic, with an empty queue and the invariant kept.
\<close>

theorem run_ready_tasks_returns:
  assumes "queue_spec Q contents cap" "wakes_bounded FP budget"
    and "executor_inv ex" "length (contents (ex_task_queue ex)) + budget w \<le> cap (ex_task_queue ex)"
  shows "\<exists>ex' w'. run_ready_tasks Q FP ex w = Some (Inr (ex', w')) \<and> executor_inv ex' \<and>
    contents (ex_task_queue ex') = []"
proof -
  obtain ex' w' where r: "run_ready_tasks Q FP ex w = Some (Inr (ex', w'))"
    using run_ready_tasks_total [OF assms] by blast
  with run_ready_tasks_spec [OF assms(1,3) r] show ?thesis by blast
qed

theorem run_ready_tasks_returns_witness:
  "\<exists>ex' w'. run_ready_tasks list_queue ex_future ex_executor 50 = Some (Inr (ex', w')) \<and>
     fst (ex_task_queue ex') = []"
proof -
  have "length (fst (ex_task_queue ex_executor)) + 50 \<le> snd (ex_task_queue ex_executor)" by simp
  from run_ready_tasks_returns [OF list_queue_spec ex_future_bounded ex_executor_inv this] show ?thesis by blast
qed

text \<open>
  C11: \<open>run_ready_tasks\<close> implements its specification: woken tasks are polled in the order of
  their wake-ups, each with its own waker, wake-ups of tasks that no longer exist are ignored,
  finished tasks and their cached wakers are removed, and it returns only when the queue is empty.
\<close>

theorem run_ready_tasks_refines:
  assumes "queue_spec Q contents cap" "executor_inv ex" "run_ready_tasks Q FP ex w = Some (Inr (ex', w'))"
  shows "contents (ex_task_queue ex') = [] \<and> dom (ex_waker_cache ex') \<subseteq> dom (ex_tasks ex') \<and>
    (\<exists>ps. ready_run FP (ex_tasks ex) (contents (ex_task_queue ex)) w ps (ex_tasks ex') w')"
proof -
  note spec = run_ready_tasks_spec [OF assms]
  then have "dom (ex_waker_cache ex') \<subseteq> dom (ex_tasks ex')" by (simp add: executor_inv_def)
  with spec show ?thesis by simp
qed

theorem run_ready_tasks_refines_witness:
  "\<exists>ps T' w'. ready_run ex_future (ex_tasks ex_executor) [TaskId 0] 50 ps T' w'"
proof -
  have "length (fst (ex_task_queue ex_executor)) + 50 \<le> snd (ex_task_queue ex_executor)" by simp
  then obtain ex' w' where r: "run_ready_tasks list_queue ex_future ex_executor 50 = Some (Inr (ex', w'))"
    using run_ready_tasks_total [OF list_queue_spec ex_future_bounded ex_executor_inv] by blast
  from run_ready_tasks_refines [OF list_queue_spec ex_executor_inv r] show ?thesis
    unfolding executor.simps fst_conv by blast
qed

text \<open>
  C38: a new executor accepts 100 tasks created by \<open>Task::new\<close>, whatever the counter of
  identifiers is, and queues them in order; the next one panics because the queue is full.
\<close>

theorem spawn_capacity:
  assumes "queue_spec Q contents cap" "length fs \<le> 100"
  shows "\<exists>ex. spawn_all Q fs n (executor_new Q) = Inr (n + word_of_nat (length fs), ex) \<and> executor_inv ex \<and>
    contents (ex_task_queue ex) = map (\<lambda>j. TaskId (n + word_of_nat j)) [0..<length fs] \<and>
    (length fs = 100 \<longrightarrow> ex_tasks ex (t_id t) = None \<longrightarrow> spawn Q t ex = Inl (Expect ''queue full''))"
proof -
  note new = executor_new_inv [OF assms(1)]
  obtain ex where ex: "spawn_all Q fs n (executor_new Q) = Inr (n + word_of_nat (length fs), ex)" "executor_inv ex"
      "contents (ex_task_queue ex) = map (\<lambda>j. TaskId (n + word_of_nat j)) [0..<length fs]"
      "cap (ex_task_queue ex) = 100"
    using spawn_all_ok [OF assms(1) new(1), of fs n] assms(2) by (auto simp: new)
  moreover have "spawn Q t ex = Inl (Expect ''queue full'')" if "length fs = 100" "ex_tasks ex (t_id t) = None"
    using queue_specD(4) [OF assms(1), of "ex_task_queue ex" "t_id t"] that ex(3,4) by (simp add: spawn_def)
  ultimately show ?thesis by (intro exI [of _ ex] conjI impI)
qed

theorem spawn_capacity_witness:
  "\<exists>ex. spawn_all list_queue (replicate 100 ()) 7 (executor_new list_queue) = Inr (107, ex)"
proof -
  have "length (replicate 100 ()) \<le> 100" by simp
  from spawn_capacity [OF list_queue_spec this, of 7] obtain ex where
      "spawn_all list_queue (replicate 100 ()) 7 (executor_new list_queue) =
        Inr (7 + word_of_nat (length (replicate 100 ())), ex)"
    by blast
  moreover have "(7 + word_of_nat (length (replicate 100 ())) :: u64) = 107" by simp
  ultimately show ?thesis by metis
qed

text \<open>
  C13: the CPU is never halted with a task in the queue, however interrupts are interleaved with
  the statements of \<open>sleep_if_idle\<close>: a wake-up between the check and the \<open>hlt\<close> is not missed.
  Interrupts are enabled again when it is halted or has returned.
\<close>

theorem sleep_misses_no_wakeup:
  assumes "queue_spec Q contents cap" "(sleep_step Q irq)\<^sup>*\<^sup>* (sleep_start q w) s"
  shows "(sl_pc s = Halted \<longrightarrow> contents (sl_queue s) = []) \<and> (sl_pc s \<in> {Halted, Return} \<longrightarrow> sl_if s)"
  using sleep_reach_inv [OF assms] by (auto simp: sleep_inv_def)

theorem sleep_misses_no_wakeup_witness:
  "\<exists>s. (sleep_step list_queue (\<lambda>w ids w'. False))\<^sup>*\<^sup>* (sleep_start ([], 100) ()) s \<and> sl_pc s = Halted \<and>
     fst (sl_queue s) = []"
proof -
  obtain s where s: "(sleep_step list_queue (\<lambda>w ids w'. False))\<^sup>*\<^sup>* (sleep_start ([], 100) ()) s" "sl_pc s = Halted"
    using ex_sleep [of "\<lambda>w ids w'. False" "()"] by auto
  with sleep_misses_no_wakeup [OF list_queue_spec s(1)] show ?thesis by blast
qed

end
