(* ===== verification/Allocator.thy ===== *)
theory Allocator
  imports Prelude
begin

unbundle bit_operations_syntax

text \<open>
  The parts of \<^verbatim>\<open>src/allocator.rs\<close> that every heap allocator shares: \<open>Layout\<close> (from
  Rust's \<open>core::alloc\<close>), \<open>align_up\<close>, the heap bounds, the \<open>Dummy\<close> allocator, and the
  contract of the \<open>GlobalAlloc\<close> trait as the locale \<open>global_alloc\<close>, which each allocator
  theory interprets on its own operations. \<open>init_heap\<close> is in the theory Heap_Init.
\<close>

section \<open>Layouts\<close>

record layout =
  l_size :: usize
  l_align :: usize

definition is_power_of_two :: "usize \<Rightarrow> bool" where
  "is_power_of_two a = list_ex (\<lambda>k. unat a = 2 ^ k) [0..<64]"

text \<open>
  \<open>Layout::from_size_align\<close>: the alignment is a power of two and the size, rounded up
  to the alignment, does not exceed \<open>usize::MAX\<close>. (Newer releases of \<open>core\<close> bound it by
  \<open>isize::MAX\<close>; every theorem below about valid layouts covers those layouts too.)
\<close>

definition valid_layout :: "layout \<Rightarrow> bool" where
  "valid_layout l = (is_power_of_two (l_align l) \<and> unat (l_size l) + unat (l_align l) \<le> 2 ^ 64)"

definition from_size_align :: "usize \<Rightarrow> usize \<Rightarrow> layout option" where
  "from_size_align sz al =
     (let l = \<lparr>l_size = sz, l_align = al\<rparr> in if valid_layout l then Some l else None)"

definition align_to :: "layout \<Rightarrow> usize \<Rightarrow> layout option" where
  "align_to l al = from_size_align (l_size l) (max (l_align l) al)"

definition pad_to_align :: "layout \<Rightarrow> layout" where
  "pad_to_align l =
     l\<lparr>l_size := (l_size l + l_align l - 1) AND NOT (l_align l - 1)\<rparr>"

section \<open>align_up\<close>

definition align_up :: "usize \<Rightarrow> usize \<Rightarrow> usize result" where
  "align_up addr align =
     rbind (uadd addr align) (\<lambda>x.
     rbind (usub x 1) (\<lambda>y.
     rbind (usub align 1) (\<lambda>m. Inr (y AND NOT m))))"

text \<open>The division-based version that \<^verbatim>\<open>allocator.rs\<close> keeps as a comment, as the reference.\<close>

definition align_up_rem :: "usize \<Rightarrow> usize \<Rightarrow> usize result" where
  "align_up_rem addr align =
     (if align = 0 then Inl (Message ''attempt to calculate the remainder with a divisor of zero'')
      else let remainder = addr mod align in
        if remainder = 0 then Inr addr
        else rbind (usub addr remainder) (\<lambda>x. uadd x align))"

section \<open>The heap region and the dummy allocator\<close>

definition HEAP_START :: usize where
  "HEAP_START = 0x444444440000"

definition HEAP_SIZE :: usize where
  "HEAP_SIZE = 100 * 1024"

text \<open>Raw pointers are addresses; \<open>null_mut()\<close> is the address 0.\<close>

definition null_mut :: usize where
  "null_mut = 0"

definition dummy_alloc :: "layout \<Rightarrow> usize result" where
  "dummy_alloc l = Inr null_mut"

definition dummy_dealloc :: "usize \<Rightarrow> layout \<Rightarrow> unit result" where
  "dummy_dealloc ptr l = Inl (Message ''dealloc should never be called'')"

section \<open>Lemmas on alignment\<close>

lemma is_power_of_two_iff: "is_power_of_two a \<longleftrightarrow> (\<exists>k<64. unat a = 2 ^ k)"
  by (auto simp: is_power_of_two_def list_ex_iff)

lemma is_power_of_twoE:
  assumes "is_power_of_two a"
  obtains k where "k < 64" "unat a = 2 ^ k" "a - 1 = mask k"
proof -
  from assms obtain k where k: "k < 64" "unat a = 2 ^ k"
    by (auto simp: is_power_of_two_iff)
  have "a = word_of_nat (unat a)" by simp
  also have "\<dots> = 2 ^ k" by (simp add: k)
  finally have "a - 1 = mask k"
    by (simp add: mask_eq_exp_minus_1)
  with k that show thesis by blast
qed

lemma power_of_two_pos: "is_power_of_two a \<Longrightarrow> 0 < unat a"
  by (auto simp: is_power_of_two_iff)

lemma power_of_two_le: "is_power_of_two a \<Longrightarrow> unat a \<le> 2 ^ 63"
proof -
  assume "is_power_of_two a"
  then obtain k where "k < 64" "unat a = 2 ^ k" by (auto simp: is_power_of_two_iff)
  then show ?thesis using power_increasing [of k 63 "2::nat"] by simp
qed

lemma power_of_two_dvd:
  assumes "is_power_of_two a" "is_power_of_two b" "unat a \<le> unat b"
  shows "unat a dvd unat b"
proof -
  from assms obtain j k where jk: "unat a = 2 ^ j" "unat b = 2 ^ k"
    by (auto simp: is_power_of_two_iff)
  with assms(3) have "j \<le> k" by simp
  with jk show ?thesis by (simp add: le_imp_power_dvd)
qed

lemma unat_and_not_mask: "unat (y AND NOT (mask k) :: 64 word) = unat y - unat y mod 2 ^ k"
proof -
  have "y - take_bit k y = y AND NOT (take_bit k y)"
    by (rule disjunctive_diff) (simp add: bit_simps)
  also have "\<dots> = y AND NOT (mask k)"
    by (auto simp: bit_eq_iff bit_simps)
  finally have "y AND NOT (mask k) = y - take_bit k y" by simp
  moreover have t: "unat (take_bit k y) = unat y mod 2 ^ k"
    by (simp add: unsigned_take_bit_eq take_bit_eq_mod [of k "unat y"])
  moreover have "take_bit k y \<le> y" by (simp add: word_le_nat_alt t)
  ultimately show ?thesis by (simp add: unat_sub)
qed

text \<open>Rounding \<open>n + m - 1\<close> down to a multiple of \<open>m\<close> is rounding \<open>n\<close> up.\<close>

lemma round_up_bounds:
  fixes n m :: nat
  assumes "0 < m"
  defines "r \<equiv> (n + m - 1) - (n + m - 1) mod m"
  shows "m dvd r" "n \<le> r" "r < n + m"
proof -
  have r: "r = m * ((n + m - 1) div m)"
    unfolding r_def by (simp add: minus_mod_eq_mult_div)
  then show "m dvd r" by simp
  have "(n + m - 1) mod m < m" using assms(1) by simp
  then show "n \<le> r" "r < n + m" using assms(1) unfolding r_def by linarith+
qed

lemma multiple_in_window_unique:
  fixes m r s n :: nat
  assumes "m dvd r" "m dvd s" "n \<le> r" "r < n + m" "n \<le> s" "s < n + m"
  shows "r = s"
proof (rule ccontr)
  assume "r \<noteq> s"
  then consider "r < s" | "s < r" by linarith
  then show False
  proof cases
    case 1
    with assms have "m dvd s - r" "0 < s - r" by (auto intro: dvd_diff_nat)
    then have "m \<le> s - r" by (rule dvd_imp_le)
    with assms show False by linarith
  next
    case 2
    with assms have "m dvd r - s" "0 < r - s" by (auto intro: dvd_diff_nat)
    then have "m \<le> r - s" by (rule dvd_imp_le)
    with assms show False by linarith
  qed
qed

text \<open>What \<open>align_up\<close> returns, on every branch.\<close>

lemma align_up_unfold:
  assumes "is_power_of_two al" "unat a + unat al < 2 ^ 64"
  shows "align_up a al = Inr ((a + al - 1) AND NOT (al - 1))"
proof -
  have "1 \<le> unat al" using power_of_two_pos [OF assms(1)] by simp
  moreover have "unat (a + al) = unat a + unat al" using assms(2) by (rule unat_add64)
  ultimately show ?thesis
    using assms by (simp add: align_up_def uadd_def usub_def word_le_nat_alt)
qed

lemma align_up_overflow:
  "unat a + unat al \<ge> 2 ^ 64 \<Longrightarrow> align_up a al = Inl Overflow"
  by (simp add: align_up_def uadd_def)

lemma align_up_value:
  assumes "is_power_of_two al" "unat a + unat al < 2 ^ 64" "align_up a al = Inr r"
  shows "unat al dvd unat r" "unat a \<le> unat r" "unat r < unat a + unat al"
proof -
  obtain k where k: "unat al = 2 ^ k" "al - 1 = mask k"
    using assms(1) by (rule is_power_of_twoE)
  have pos: "0 < unat al" using assms(1) by (rule power_of_two_pos)
  have "unat (a + al - 1) = unat a + unat al - 1"
    using assms(2) pos by (simp add: unat_sub unat_add64 word_le_nat_alt)
  then have "unat r = (unat a + unat al - 1) - (unat a + unat al - 1) mod unat al"
    using assms(3) align_up_unfold [OF assms(1,2)] unat_and_not_mask [of "a + al - 1" k] k by auto
  then show "unat al dvd unat r" "unat a \<le> unat r" "unat r < unat a + unat al"
    using round_up_bounds [OF pos, of "unat a"] by simp_all
qed

lemma align_up_Inr_iff:
  assumes "is_power_of_two al"
  shows "align_up a al = Inr r \<longleftrightarrow>
    unat a + unat al < 2 ^ 64 \<and> unat al dvd unat r \<and> unat a \<le> unat r \<and> unat r < unat a + unat al"
    (is "?l \<longleftrightarrow> ?r")
proof
  assume ?l
  moreover from this have "unat a + unat al < 2 ^ 64"
    using align_up_overflow [of a al] by (cases "unat a + unat al < 2 ^ 64") auto
  ultimately show ?r using align_up_value [OF assms] by blast
next
  assume r: ?r
  then obtain q where q: "align_up a al = Inr q" using align_up_unfold [OF assms] by blast
  then have "unat q = unat r"
    using r align_up_value [OF assms, of a q] multiple_in_window_unique [of "unat al" "unat q" "unat r"]
    by blast
  with q show ?l by (simp add: word_unat_eq_iff)
qed

lemma align_up_aligned:
  assumes "is_power_of_two al" "unat a + unat al < 2 ^ 64"
  shows "align_up a al = Inr a \<longleftrightarrow> unat al dvd unat a"
  using assms by (auto simp: align_up_Inr_iff power_of_two_pos)

lemma align_up_zero: "align_up a 0 = Inl Overflow"
  by (auto simp: align_up_def uadd_def usub_def)

section \<open>Lemmas on layouts\<close>

lemma pad_to_align_size:
  assumes "valid_layout l"
  shows "unat (l_align l) dvd unat (l_size (pad_to_align l))"
    and "unat (l_size l) \<le> unat (l_size (pad_to_align l))"
    and "unat (l_size (pad_to_align l)) < unat (l_size l) + unat (l_align l)"
    and "l_align (pad_to_align l) = l_align l"
proof -
  let ?s = "l_size l" and ?al = "l_align l"
  have p: "is_power_of_two ?al" and b: "unat ?s + unat ?al \<le> 2 ^ 64"
    using assms by (auto simp: valid_layout_def)
  obtain k where k: "unat ?al = 2 ^ k" "?al - 1 = mask k" using p by (rule is_power_of_twoE)
  have pos: "0 < unat ?al" using p by (rule power_of_two_pos)
  have one: "unat (?al - 1) = unat ?al - 1" using pos by (simp add: unat_sub word_le_nat_alt)
  have "unat (?s + (?al - 1)) = unat ?s + unat (?al - 1)"
    using b pos one by (intro unat_add64) linarith
  then have e: "unat (?s + ?al - 1) = unat ?s + unat ?al - 1"
    using one pos by (simp add: algebra_simps)
  have "unat (l_size (pad_to_align l)) = (unat ?s + unat ?al - 1) - (unat ?s + unat ?al - 1) mod unat ?al"
    using unat_and_not_mask [of "?s + ?al - 1" k] e k by (simp add: pad_to_align_def)
  then show "unat ?al dvd unat (l_size (pad_to_align l))"
    and "unat ?s \<le> unat (l_size (pad_to_align l))"
    and "unat (l_size (pad_to_align l)) < unat ?s + unat ?al"
    using round_up_bounds [OF pos, of "unat ?s"] by simp_all
  show "l_align (pad_to_align l) = l_align l" by (simp add: pad_to_align_def)
qed

lemma power_of_two_max:
  "is_power_of_two a \<Longrightarrow> is_power_of_two b \<Longrightarrow> is_power_of_two (max a b)"
  by (simp add: max_def)

lemma from_size_align_eq_Some:
  "from_size_align sz al = Some l \<longleftrightarrow> l = \<lparr>l_size = sz, l_align = al\<rparr> \<and> valid_layout l"
  by (auto simp: from_size_align_def Let_def)

section \<open>Blocks of memory\<close>

text \<open>
  A block handed out by an allocator is its address and the layout it was requested with.
  Two blocks are disjoint when one ends before the other starts.
\<close>

type_synonym block = "usize \<times> layout"

definition block_lo :: "block \<Rightarrow> nat" where
  "block_lo b = unat (fst b)"

definition block_hi :: "block \<Rightarrow> nat" where
  "block_hi b = unat (fst b) + unat (l_size (snd b))"

definition disjoint_blocks :: "block \<Rightarrow> block \<Rightarrow> bool" where
  "disjoint_blocks b c = (block_hi b \<le> block_lo c \<or> block_hi c \<le> block_lo b)"

definition block_ok :: "nat \<Rightarrow> nat \<Rightarrow> block \<Rightarrow> bool" where
  "block_ok lo hi b =
     (fst b \<noteq> 0 \<and> lo \<le> block_lo b \<and> block_hi b \<le> hi \<and> unat (l_align (snd b)) dvd unat (fst b))"

lemmas block_defs = block_lo_def block_hi_def

lemma disjoint_blocks_sym: "disjoint_blocks b c \<longleftrightarrow> disjoint_blocks c b"
  by (auto simp: disjoint_blocks_def)

text \<open>A relation that holds between any two entries of a multiset (an entry that occurs twice
  is related to itself).\<close>

definition pairwise_mset :: "('a \<Rightarrow> 'a \<Rightarrow> bool) \<Rightarrow> 'a multiset \<Rightarrow> bool" where
  "pairwise_mset R M = (\<forall>b \<in># M. \<forall>c \<in># M - {#b#}. R b c)"

lemma pairwise_mset_empty [simp]: "pairwise_mset R {#}"
  by (simp add: pairwise_mset_def)

lemma diff_mset_mono: "M \<subseteq># N \<Longrightarrow> M - D \<subseteq># N - D"
  by (simp add: subseteq_mset_def diff_le_mono)

lemma pairwise_mset_mono: "pairwise_mset R N \<Longrightarrow> M \<subseteq># N \<Longrightarrow> pairwise_mset R M"
  unfolding pairwise_mset_def by (meson mset_subset_eqD diff_mset_mono)

lemma pairwise_mset_add:
  assumes "\<And>x y. R x y \<longleftrightarrow> R y x"
  shows "pairwise_mset R (add_mset a M) \<longleftrightarrow> (\<forall>c \<in># M. R a c) \<and> pairwise_mset R M"
    (is "?l \<longleftrightarrow> ?r")
proof
  assume l: ?l
  then have "\<forall>c \<in># M. R a c" by (simp add: pairwise_mset_def)
  moreover have "pairwise_mset R M"
    using l by (rule pairwise_mset_mono) simp
  ultimately show ?r by blast
next
  assume r: ?r
  show ?l unfolding pairwise_mset_def
  proof (intro ballI)
    fix b c assume b: "b \<in># add_mset a M" and c: "c \<in># add_mset a M - {#b#}"
    show "R b c"
    proof (cases "b = a")
      case True
      with c r show ?thesis by simp
    next
      case False
      with b have bM: "b \<in># M" by simp
      with False c have "c = a \<or> c \<in># M - {#b#}" by auto
      with bM r assms show ?thesis by (auto simp: pairwise_mset_def)
    qed
  qed
qed

lemmas pairwise_disjoint_add = pairwise_mset_add [where R = disjoint_blocks, OF disjoint_blocks_sym]

section \<open>The GlobalAlloc contract\<close>

text \<open>
  Callers of \<open>GlobalAlloc::alloc\<close> must pass a layout of non-zero size. \<open>heap_run\<close> is what a
  program can do with an allocator: it requests blocks, returns blocks it holds with the
  layout it requested them with, and, as \<open>wr\<close> allows, changes the memory inside the blocks
  it holds. The multiset is the set of blocks it holds. \<open>alloc\<close> has the value \<open>None\<close> where its
  search does not return.
\<close>

definition good_layout :: "layout \<Rightarrow> bool" where
  "good_layout l = (valid_layout l \<and> l_size l \<noteq> 0)"

inductive heap_run ::
  "('s \<Rightarrow> layout \<Rightarrow> (usize \<times> 's) result option) \<Rightarrow> ('s \<Rightarrow> usize \<Rightarrow> layout \<Rightarrow> 's result) \<Rightarrow>
   (block multiset \<Rightarrow> 's \<Rightarrow> 's \<Rightarrow> bool) \<Rightarrow> 's \<Rightarrow> 's \<Rightarrow> block multiset \<Rightarrow> bool"
  for alloc dealloc wr s0 where
  start: "heap_run alloc dealloc wr s0 s0 {#}"
| request: "heap_run alloc dealloc wr s0 s L \<Longrightarrow> good_layout l \<Longrightarrow> alloc s l = Some (Inr (p, s')) \<Longrightarrow> p \<noteq> 0
    \<Longrightarrow> heap_run alloc dealloc wr s0 s' (add_mset (p, l) L)"
| refused: "heap_run alloc dealloc wr s0 s L \<Longrightarrow> good_layout l \<Longrightarrow> alloc s l = Some (Inr (0, s'))
    \<Longrightarrow> heap_run alloc dealloc wr s0 s' L"
| return: "heap_run alloc dealloc wr s0 s (add_mset (p, l) L) \<Longrightarrow> dealloc s p l = Inr s'
    \<Longrightarrow> heap_run alloc dealloc wr s0 s' L"
| use: "heap_run alloc dealloc wr s0 s L \<Longrightarrow> wr L s s' \<Longrightarrow> heap_run alloc dealloc wr s0 s' L"

text \<open>
  The contract. \<open>inv s L\<close> relates the allocator's state to the blocks the program holds;
  \<open>lo\<close> and \<open>hi\<close> bound the heap. A block that is handed out lies in the heap, is aligned,
  and is disjoint from every block already held; \<open>alloc\<close> always returns (a null pointer, a block
  or a panic); taking back a held block never panics.
\<close>

locale global_alloc =
  fixes alloc :: "'s \<Rightarrow> layout \<Rightarrow> (usize \<times> 's) result option"
    and dealloc :: "'s \<Rightarrow> usize \<Rightarrow> layout \<Rightarrow> 's result"
    and wr :: "block multiset \<Rightarrow> 's \<Rightarrow> 's \<Rightarrow> bool"
    and inv :: "'s \<Rightarrow> block multiset \<Rightarrow> bool"
    and lo hi :: nat
  assumes alloc_block: "inv s L \<Longrightarrow> good_layout l \<Longrightarrow> alloc s l = Some (Inr (p, s')) \<Longrightarrow> p \<noteq> 0 \<Longrightarrow>
      block_ok lo hi (p, l) \<and> (\<forall>b \<in># L. disjoint_blocks (p, l) b)"
    and alloc_inv: "inv s L \<Longrightarrow> good_layout l \<Longrightarrow> alloc s l = Some (Inr (p, s')) \<Longrightarrow> p \<noteq> 0 \<Longrightarrow>
      inv s' (add_mset (p, l) L)"
    and alloc_null: "inv s L \<Longrightarrow> good_layout l \<Longrightarrow> alloc s l = Some (Inr (0, s')) \<Longrightarrow> inv s' L"
    and alloc_returns: "inv s L \<Longrightarrow> good_layout l \<Longrightarrow> \<exists>r. alloc s l = Some r"
    and dealloc_inv: "inv s (add_mset (p, l) L) \<Longrightarrow> \<exists>s'. dealloc s p l = Inr s' \<and> inv s' L"
    and wr_inv: "inv s L \<Longrightarrow> wr L s s' \<Longrightarrow> inv s' L"
begin

lemma run_inv:
  assumes "heap_run alloc dealloc wr s0 s L" "inv s0 {#}"
  shows "inv s L"
  using assms
proof (induction rule: heap_run.induct)
  case (return s p l L s')
  then show ?case using dealloc_inv [of s p l L] by auto
qed (auto intro: alloc_inv alloc_null wr_inv)

lemma run_blocks:
  assumes "heap_run alloc dealloc wr s0 s L" "inv s0 {#}"
  shows "(\<forall>b \<in># L. block_ok lo hi b) \<and> pairwise_mset disjoint_blocks L"
  using assms
proof (induction rule: heap_run.induct)
  case (request s L l p s')
  then have "inv s L" by (blast intro: run_inv)
  with request show ?case
    using alloc_block [of s L l p s'] by (simp add: pairwise_disjoint_add)
next
  case (return s p l L s')
  then show ?case by (simp add: pairwise_disjoint_add)
qed auto

lemma run_alloc_returns:
  assumes "heap_run alloc dealloc wr s0 s L" "inv s0 {#}" "good_layout l"
  shows "\<exists>r. alloc s l = Some r"
  using alloc_returns [OF run_inv [OF assms(1,2)] assms(3)] .

lemma run_dealloc_ok:
  assumes "heap_run alloc dealloc wr s0 s (add_mset (p, l) L)" "inv s0 {#}"
  shows "\<exists>s'. dealloc s p l = Inr s' \<and> heap_run alloc dealloc wr s0 s' L"
  using dealloc_inv [OF run_inv [OF assms]] assms(1) by (auto intro: heap_run.return)

end

section \<open>Properties of align_up and the dummy allocator\<close>

text \<open>
  C37: for a power-of-two alignment, \<open>align_up\<close> returns exactly the least multiple of the
  alignment that is not below the address, provided \<open>addr + align\<close> fits in a \<open>usize\<close>;
  otherwise the addition overflows and it panics.
\<close>

theorem align_up_spec:
  assumes "is_power_of_two align"
  shows "(align_up addr align = Inr r \<longleftrightarrow>
      unat addr + unat align < 2 ^ 64 \<and> unat align dvd unat r \<and>
      unat addr \<le> unat r \<and> unat r < unat addr + unat align) \<and>
    (align_up addr align = Inl e \<longleftrightarrow> e = Overflow \<and> 2 ^ 64 \<le> unat addr + unat align)"
proof
  show "align_up addr align = Inr r \<longleftrightarrow>
      unat addr + unat align < 2 ^ 64 \<and> unat align dvd unat r \<and>
      unat addr \<le> unat r \<and> unat r < unat addr + unat align"
    using assms by (rule align_up_Inr_iff)
  show "align_up addr align = Inl e \<longleftrightarrow> e = Overflow \<and> 2 ^ 64 \<le> unat addr + unat align"
    using align_up_unfold [OF assms] align_up_overflow
    by (cases "unat addr + unat align < 2 ^ 64") (auto simp: not_less)
qed

theorem align_up_spec_witness:
  "align_up 13 8 = Inr 16 \<and> align_up (2 ^ 64 - 1) 8 = Inl Overflow"
proof -
  have p: "is_power_of_two 8" by (auto simp: is_power_of_two_iff intro!: exI [of _ 3])
  show ?thesis
    using align_up_spec [OF p, of 13 16] align_up_spec [OF p, of "2 ^ 64 - 1" _ Overflow] by simp
qed

text \<open>
  The bit-mask version agrees with the division-based version that the source keeps as
  a comment, wherever the bit-mask version does not overflow.
\<close>

lemma align_up_equiv_rem:
  assumes "is_power_of_two align" "unat addr + unat align < 2 ^ 64"
  shows "align_up addr align = align_up_rem addr align"
proof -
  let ?r = "unat addr mod unat align"
  have pos: "0 < unat align" using assms(1) by (rule power_of_two_pos)
  then have nz: "align \<noteq> 0" by auto
  have lt: "?r < unat align" using pos by simp
  have rem: "unat (addr mod align) = ?r" by (simp add: unat_mod)
  show ?thesis
  proof (cases "addr mod align = 0")
    case True
    then have "unat align dvd unat addr" using rem by (simp add: dvd_eq_mod_eq_0)
    then show ?thesis
      using True nz align_up_aligned [OF assms] by (simp add: align_up_rem_def)
  next
    case False
    have le: "addr mod align \<le> addr" by (simp add: word_le_nat_alt rem)
    then have d: "unat (addr - addr mod align) = unat addr - ?r" by (simp add: unat_sub rem)
    have "0 < ?r" using False rem by (metis gr0I unat_eq_zero)
    define q where "q = addr - addr mod align + align"
    have q: "unat q = unat addr - ?r + unat align"
      using assms(2) d by (simp add: q_def unat_add64)
    have "align_up_rem addr align = Inr q"
      using False nz le d assms(2)
      by (simp add: align_up_rem_def Let_def usub_def uadd_def q_def)
    moreover have "unat align dvd unat q"
      by (simp add: q minus_mod_eq_mult_div)
    moreover have "unat addr \<le> unat q" "unat q < unat addr + unat align"
      using q lt \<open>0 < ?r\<close> mod_less_eq_dividend [of "unat addr" "unat align"] by linarith+
    ultimately show ?thesis using assms align_up_Inr_iff [OF assms(1), of addr q] by simp
  qed
qed

end
