(* ===== verification/Linked_List.thy ===== *)
theory Linked_List
  imports Allocator
begin

text \<open>
  \<^verbatim>\<open>src/allocator/linked_list.rs\<close>: a first-fit allocator that keeps its free regions in a
  linked list whose nodes live in the free memory itself. The nodes are kept in an explicit
  store from addresses to \<open>ListNode\<close> values, so that the in-band list, its mutation through
  \<open>&mut\<close> references and the blocks of the program share one memory.
\<close>

section \<open>State and operations\<close>

record list_node =
  nd_size :: usize
  nd_next :: "usize option"

type_synonym node_store = "usize \<rightharpoonup> list_node"

text \<open>\<open>LinkedListAllocator\<close> has the field \<open>head\<close>; \<open>ll_mem\<close> is the heap memory it writes to.\<close>

record ll_allocator =
  ll_head :: list_node
  ll_mem :: node_store

text \<open>\<open>mem::size_of\<close> and \<open>mem::align_of\<close> of a node: a \<open>usize\<close> and an optional reference.\<close>

definition SIZE_OF_NODE :: usize where "SIZE_OF_NODE = 16"
definition ALIGN_OF_NODE :: usize where "ALIGN_OF_NODE = 8"

definition node_new :: "usize \<Rightarrow> list_node" where
  "node_new sz = \<lparr>nd_size = sz, nd_next = None\<rparr>"

definition start_addr :: "usize \<Rightarrow> usize" where
  "start_addr self = self"

definition end_addr :: "usize \<Rightarrow> list_node \<Rightarrow> usize result" where
  "end_addr self nd = uadd (start_addr self) (nd_size nd)"

definition ll_new :: "node_store \<Rightarrow> ll_allocator" where
  "ll_new m = \<lparr>ll_head = node_new 0, ll_mem = m\<rparr>"

definition add_free_region :: "ll_allocator \<Rightarrow> usize \<Rightarrow> usize \<Rightarrow> ll_allocator result" where
  "add_free_region s addr sz =
     rbind (align_up addr ALIGN_OF_NODE) (\<lambda>a.
     rbind (rassert (a = addr)) (\<lambda>_.
     rbind (rassert (sz \<ge> SIZE_OF_NODE)) (\<lambda>_.
       let node = (node_new sz)\<lparr>nd_next := nd_next (ll_head s)\<rparr> in
       Inr (s\<lparr>ll_mem := (ll_mem s)(addr \<mapsto> node),
              ll_head := (ll_head s)\<lparr>nd_next := Some addr\<rparr>\<rparr>))))"

definition ll_init :: "ll_allocator \<Rightarrow> usize \<Rightarrow> usize \<Rightarrow> ll_allocator result" where
  "ll_init s heap_start heap_size = add_free_region s heap_start heap_size"

definition alloc_from_region :: "usize \<Rightarrow> list_node \<Rightarrow> usize \<Rightarrow> usize \<Rightarrow> (usize option) result" where
  "alloc_from_region r region sz align =
     rbind (align_up (start_addr r) align) (\<lambda>alloc_start.
       case checked_add alloc_start sz of
         None \<Rightarrow> Inr None
       | Some alloc_end \<Rightarrow>
           rbind (end_addr r region) (\<lambda>e.
             Inr (if alloc_end > e then None else Some alloc_start)))"

text \<open>
  The references that \<open>find_region\<close> walks through: \<open>None\<close> is \<open>&mut self.head\<close>, \<open>Some a\<close> the
  node stored at \<open>a\<close>. Reading a node where none is stored is a fault.
\<close>

definition node_at :: "ll_allocator \<Rightarrow> usize \<Rightarrow> list_node result" where
  "node_at s a = (case ll_mem s a of None \<Rightarrow> Inl (Fault a) | Some nd \<Rightarrow> Inr nd)"

definition get_next :: "ll_allocator \<Rightarrow> usize option \<Rightarrow> (usize option) result" where
  "get_next s cur =
     (case cur of None \<Rightarrow> Inr (nd_next (ll_head s)) | Some a \<Rightarrow> rbind (node_at s a) (\<lambda>nd. Inr (nd_next nd)))"

definition set_next :: "ll_allocator \<Rightarrow> usize option \<Rightarrow> usize option \<Rightarrow> ll_allocator" where
  "set_next s cur n =
     (case cur of
        None \<Rightarrow> s\<lparr>ll_head := (ll_head s)\<lparr>nd_next := n\<rparr>\<rparr>
      | Some a \<Rightarrow> s\<lparr>ll_mem := (ll_mem s)(a := map_option (\<lambda>nd. nd\<lparr>nd_next := n\<rparr>) (ll_mem s a))\<rparr>)"

text \<open>
  The \<open>while let\<close> loop of \<open>find_region\<close>. On a suitable region, \<open>region.next.take()\<close> and
  \<open>current.next = next\<close> unlink it.
\<close>

partial_function (option) find_region_loop ::
  "ll_allocator \<Rightarrow> usize option \<Rightarrow> usize \<Rightarrow> usize \<Rightarrow> ((usize \<times> usize) option \<times> ll_allocator) result option"
where
  "find_region_loop s cur sz align =
     (case get_next s cur of
        Inl e \<Rightarrow> Some (Inl e)
      | Inr None \<Rightarrow> Some (Inr (None, s))
      | Inr (Some r) \<Rightarrow>
          (case node_at s r of
             Inl e \<Rightarrow> Some (Inl e)
           | Inr region \<Rightarrow>
               (case alloc_from_region r region sz align of
                  Inl e \<Rightarrow> Some (Inl e)
                | Inr (Some alloc_start) \<Rightarrow>
                    Some (Inr (Some (r, alloc_start),
                      set_next (set_next s (Some r) None) cur (nd_next region)))
                | Inr None \<Rightarrow> find_region_loop s (Some r) sz align)))"

definition find_region ::
  "ll_allocator \<Rightarrow> usize \<Rightarrow> usize \<Rightarrow> ((usize \<times> usize) option \<times> ll_allocator) result option" where
  "find_region s sz align = find_region_loop s None sz align"

definition size_align :: "layout \<Rightarrow> (usize \<times> usize) result" where
  "size_align l =
     rbind (expect ''adjusting alignment failed'' (align_to l ALIGN_OF_NODE)) (\<lambda>l'.
       let l'' = pad_to_align l' in Inr (max (l_size l'') SIZE_OF_NODE, l_align l''))"

definition ll_alloc :: "ll_allocator \<Rightarrow> layout \<Rightarrow> (usize \<times> ll_allocator) result option" where
  "ll_alloc s l =
     (case size_align l of
        Inl e \<Rightarrow> Some (Inl e)
      | Inr (sz, align) \<Rightarrow>
          (case find_region s sz align of
             None \<Rightarrow> None
           | Some (Inl e) \<Rightarrow> Some (Inl e)
           | Some (Inr (None, s)) \<Rightarrow> Some (Inr (null_mut, s))
           | Some (Inr (Some (r, alloc_start), s)) \<Rightarrow> Some (
               rbind (expect ''overflow'' (checked_add alloc_start sz)) (\<lambda>alloc_end.
               rbind (node_at s r) (\<lambda>region.
               rbind (end_addr r region) (\<lambda>e.
               rbind (usub e alloc_end) (\<lambda>excess_size.
                 if excess_size > 0
                 then rbind (add_free_region s alloc_end excess_size) (\<lambda>s. Inr (alloc_start, s))
                 else Inr (alloc_start, s))))))))"

definition ll_dealloc :: "ll_allocator \<Rightarrow> usize \<Rightarrow> layout \<Rightarrow> ll_allocator result" where
  "ll_dealloc s ptr l = rbind (size_align l) (\<lambda>(sz, _). add_free_region s ptr sz)"

section \<open>The list in memory\<close>

text \<open>
  \<open>chain m p bs\<close>: following \<open>next\<close> from \<open>p\<close> through the store visits exactly the regions \<open>bs\<close>,
  each a block whose size is the size stored in its node.
\<close>

fun chain :: "node_store \<Rightarrow> usize option \<Rightarrow> block list \<Rightarrow> bool" where
  "chain m p [] = (p = None)"
| "chain m p (b # bs) =
     (p = Some (fst b) \<and> (case m (fst b) of None \<Rightarrow> False
        | Some nd \<Rightarrow> nd_size nd = l_size (snd b) \<and> chain m (nd_next nd) bs))"

lemma chain_Cons:
  "chain m p (b # bs) \<longleftrightarrow> p = Some (fst b) \<and>
     (\<exists>nd. m (fst b) = Some nd \<and> nd_size nd = l_size (snd b) \<and> chain m (nd_next nd) bs)"
  by (auto split: option.splits)

declare chain.simps(2) [simp del]

lemma chain_cong:
  assumes "\<And>b. b \<in> set bs \<Longrightarrow> m' (fst b) = m (fst b)"
  shows "chain m' p bs = chain m p bs"
  using assms by (induction bs arbitrary: p) (auto simp: chain_Cons)

lemma chain_node:
  assumes "chain m p bs" "b \<in> set bs"
  shows "\<exists>nd. m (fst b) = Some nd \<and> nd_size nd = l_size (snd b)"
  using assms by (induction bs arbitrary: p) (auto simp: chain_Cons)

lemma chain_upd [simp]: "a \<notin> fst ` set bs \<Longrightarrow> chain (m(a := x)) p bs = chain m p bs"
  by (rule chain_cong) force

text \<open>The reference \<open>find_region\<close> holds after walking past some regions.\<close>

fun last_ref :: "usize option \<Rightarrow> block list \<Rightarrow> usize option" where
  "last_ref cur [] = cur"
| "last_ref cur (c # cs) = last_ref (Some (fst c)) cs"

lemma last_ref_cases: "last_ref cur cs = cur \<or> last_ref cur cs \<in> Some ` fst ` set cs"
  by (induction cs arbitrary: cur) force+

lemma node_at_set_next:
  "node_at (set_next s cur n) a =
     (if cur = Some a then rbind (node_at s a) (\<lambda>nd. Inr (nd\<lparr>nd_next := n\<rparr>)) else node_at s a)"
  by (auto simp: node_at_def set_next_def split: option.splits)

text \<open>Unlinking the region after \<open>pre\<close> leaves the list with exactly that region removed.\<close>

definition unlink :: "ll_allocator \<Rightarrow> usize option \<Rightarrow> usize \<Rightarrow> ll_allocator" where
  "unlink s cur r =
     (case ll_mem s r of None \<Rightarrow> s | Some nd \<Rightarrow> set_next (set_next s (Some r) None) cur (nd_next nd))"

lemma unlink_mem:
  assumes "a \<noteq> r" "cur \<noteq> Some a"
  shows "ll_mem (unlink s cur r) a = ll_mem s a"
  using assms by (auto simp: unlink_def set_next_def split: option.splits)

lemma unlink_size:
  "map_option nd_size (ll_mem (unlink s cur r) a) = map_option nd_size (ll_mem s a)"
  by (auto simp: unlink_def set_next_def option.map_comp comp_def split: option.splits)

lemma unlink_get_next:
  assumes "cur \<noteq> cur'" "cur \<noteq> Some r"
  shows "get_next (unlink s cur' r) cur = get_next s cur"
  using assms
  by (auto simp: unlink_def set_next_def get_next_def node_at_def split: option.splits)

lemma unlink_chain:
  assumes "get_next s cur = Inr p" "chain (ll_mem s) p (pre @ b # post)"
    and "distinct (map fst (pre @ b # post))" "\<forall>a. cur = Some a \<longrightarrow> a \<notin> fst ` set (pre @ b # post)"
  shows "\<exists>p'. get_next (unlink s (last_ref cur pre) (fst b)) cur = Inr p' \<and>
    chain (ll_mem (unlink s (last_ref cur pre) (fst b))) p' (pre @ post)"
  using assms
proof (induction pre arbitrary: cur p)
  case Nil
  then obtain nd where nd: "ll_mem s (fst b) = Some nd" "chain (ll_mem s) (nd_next nd) post"
    by (auto simp: chain_Cons)
  have "ll_mem (unlink s cur (fst b)) (fst c) = ll_mem s (fst c)" if "c \<in> set post" for c
  proof -
    from that have "fst c \<in> fst ` set post" by simp
    with Nil.prems(3) have "fst c \<noteq> fst b" by (cases "fst c = fst b") simp_all
    moreover have "cur \<noteq> Some (fst c)" using that Nil.prems(4) by auto
    ultimately show ?thesis by (rule unlink_mem)
  qed
  then have "chain (ll_mem (unlink s cur (fst b))) (nd_next nd) post"
    using nd(2) chain_cong [of post "ll_mem (unlink s cur (fst b))" "ll_mem s"] by simp
  moreover have "get_next (unlink s cur (fst b)) cur = Inr (nd_next nd)"
    using nd(1) Nil.prems(1,4)
    by (auto simp: unlink_def set_next_def get_next_def node_at_def rbind_simps split: option.splits)
  ultimately show ?case by simp
next
  case (Cons c pre)
  let ?s' = "unlink s (last_ref cur (c # pre)) (fst b)"
  from Cons.prems(2) obtain nd where p: "p = Some (fst c)"
    and nd: "ll_mem s (fst c) = Some nd" "nd_size nd = l_size (snd c)"
    "chain (ll_mem s) (nd_next nd) (pre @ b # post)"
    by (auto simp: chain_Cons)
  have "get_next s (Some (fst c)) = Inr (nd_next nd)"
    using nd(1) by (simp add: get_next_def node_at_def)
  then obtain p' where p': "get_next ?s' (Some (fst c)) = Inr p'" "chain (ll_mem ?s') p' (pre @ post)"
    using Cons.IH [OF _ nd(3), of "Some (fst c)"] Cons.prems(3) by auto
  then obtain nd' where nd': "ll_mem ?s' (fst c) = Some nd'" "nd_next nd' = p'"
    by (auto simp: get_next_def node_at_def rbind_simps split: option.splits)
  moreover have "nd_size nd' = nd_size nd"
    using unlink_size [of s "last_ref cur (c # pre)" "fst b" "fst c"] nd(1) nd'(1) by simp
  moreover have "get_next ?s' cur = get_next s cur"
    using last_ref_cases [of "Some (fst c)" pre] Cons.prems(4)
    by (intro unlink_get_next) auto
  ultimately show ?case
    using Cons.prems(1) p p' nd(2) by (auto simp: chain_Cons)
qed

section \<open>What find_region computes\<close>

definition region_fits :: "usize \<Rightarrow> usize \<Rightarrow> block \<Rightarrow> bool" where
  "region_fits sz align b =
     (case align_up (fst b) align of Inl e \<Rightarrow> False | Inr a \<Rightarrow> unat a + unat sz \<le> block_hi b)"

text \<open>Regions whose addresses stay clear of the end of the address space.\<close>

definition region_safe :: "usize \<Rightarrow> block \<Rightarrow> bool" where
  "region_safe align b = (block_hi b < 2 ^ 64 \<and> (\<exists>a. align_up (fst b) align = Inr a))"

lemma alloc_from_region_eq:
  assumes "nd_size nd = l_size (snd b)" "block_hi b < 2 ^ 64" "align_up (fst b) align = Inr a"
  shows "alloc_from_region (fst b) nd sz align =
    Inr (if unat a + unat sz \<le> block_hi b then Some a else None)"
proof (cases "checked_add a sz")
  case None
  then have "2 ^ 64 \<le> unat a + unat sz" by (simp add: checked_add_eq_None)
  with None show ?thesis
    using assms by (simp add: alloc_from_region_def start_addr_def)
next
  case (Some e)
  then have e: "unat e = unat a + unat sz" by (simp add: checked_add_eq_Some)
  have "uadd (fst b) (l_size (snd b)) = Inr (fst b + l_size (snd b))"
    "unat (fst b + l_size (snd b)) = block_hi b"
    using assms(2) by (simp_all add: uadd_def block_defs unat_add64)
  then show ?thesis
    using assms(1,3) Some e
    by (simp add: alloc_from_region_def start_addr_def end_addr_def word_less_nat_alt)
qed

lemma find_region_loop_none:
  assumes "get_next s cur = Inr p" "chain (ll_mem s) p bs"
    and "\<forall>b \<in> set bs. region_safe align b \<and> \<not> region_fits sz align b"
  shows "find_region_loop s cur sz align = Some (Inr (None, s))"
  using assms
proof (induction bs arbitrary: cur p)
  case Nil
  then show ?case by (subst find_region_loop.simps) simp
next
  case (Cons b bs)
  from Cons.prems(2) obtain nd where nd: "p = Some (fst b)" "ll_mem s (fst b) = Some nd"
    "nd_size nd = l_size (snd b)" "chain (ll_mem s) (nd_next nd) bs"
    by (auto simp: chain_Cons)
  from Cons.prems(3) obtain a where a: "align_up (fst b) align = Inr a" "block_hi b < 2 ^ 64"
    "\<not> unat a + unat sz \<le> block_hi b"
    by (auto simp: region_safe_def region_fits_def)
  have "get_next s (Some (fst b)) = Inr (nd_next nd)"
    using nd(2) by (simp add: get_next_def node_at_def)
  then have "find_region_loop s (Some (fst b)) sz align = Some (Inr (None, s))"
    using Cons.IH nd(4) Cons.prems(3) by simp
  then show ?case
    using Cons.prems(1) nd alloc_from_region_eq [OF nd(3) a(2,1), of sz] a(3)
    by (subst find_region_loop.simps) (simp add: node_at_def)
qed

lemma find_region_loop_found:
  assumes "get_next s cur = Inr p" "chain (ll_mem s) p (pre @ b # post)"
    and "\<forall>c \<in> set pre. region_safe align c \<and> \<not> region_fits sz align c"
    and "block_hi b < 2 ^ 64" "align_up (fst b) align = Inr a" "unat a + unat sz \<le> block_hi b"
  shows "find_region_loop s cur sz align =
    Some (Inr (Some (fst b, a), unlink s (last_ref cur pre) (fst b)))"
  using assms(1-3)
proof (induction pre arbitrary: cur p)
  case Nil
  then obtain nd where nd: "p = Some (fst b)" "ll_mem s (fst b) = Some nd" "nd_size nd = l_size (snd b)"
    by (auto simp: chain_Cons)
  then show ?case
    using Nil.prems(1) alloc_from_region_eq [OF nd(3) assms(4,5), of sz] assms(6)
    by (subst find_region_loop.simps) (simp add: node_at_def unlink_def)
next
  case (Cons c pre)
  from Cons.prems(2) obtain nd where nd: "p = Some (fst c)" "ll_mem s (fst c) = Some nd"
    "nd_size nd = l_size (snd c)" "chain (ll_mem s) (nd_next nd) (pre @ b # post)"
    by (auto simp: chain_Cons)
  from Cons.prems(3) obtain a' where a': "align_up (fst c) align = Inr a'" "block_hi c < 2 ^ 64"
    "\<not> unat a' + unat sz \<le> block_hi c"
    by (auto simp: region_safe_def region_fits_def)
  have "get_next s (Some (fst c)) = Inr (nd_next nd)"
    using nd(2) by (simp add: get_next_def node_at_def)
  then have "find_region_loop s (Some (fst c)) sz align =
      Some (Inr (Some (fst b, a), unlink s (last_ref (Some (fst c)) pre) (fst b)))"
    using Cons.IH nd(4) Cons.prems(3) by simp
  then show ?case
    using Cons.prems(1) nd alloc_from_region_eq [OF nd(3) a'(2,1), of sz] a'(3)
    by (subst find_region_loop.simps) (simp add: node_at_def)
qed

section \<open>Adjusted layouts\<close>

lemma power_of_two_8 [simp]: "is_power_of_two 8"
  by (auto simp: is_power_of_two_iff intro!: exI [of _ 3])

lemma size_align_props:
  assumes "size_align l = Inr (sz, al)" "is_power_of_two (l_align l)"
  shows "is_power_of_two al" "8 dvd unat al" "unat (l_align l) dvd unat al"
    "16 \<le> unat sz" "8 dvd unat sz" "unat (l_size l) \<le> unat sz"
proof -
  define l' where "l' = \<lparr>l_size = l_size l, l_align = max (l_align l) 8\<rparr>"
  from assms(1) have v: "valid_layout l'" and sz: "sz = max (l_size (pad_to_align l')) 16"
    and al: "al = l_align l'"
    by (auto simp: size_align_def rbind_simps align_to_def from_size_align_def Let_def l'_def
        ALIGN_OF_NODE_def SIZE_OF_NODE_def pad_to_align_def split: if_splits)
  show p: "is_power_of_two al"
    using v by (simp add: valid_layout_def al)
  have m: "unat (l_align l) \<le> unat al" "unat (8 :: usize) \<le> unat al"
    using al by (simp_all add: l'_def max_def word_le_nat_alt)
  show "unat (l_align l) dvd unat al" by (rule power_of_two_dvd [OF assms(2) p m(1)])
  have d8: "unat (8 :: usize) dvd unat al" by (rule power_of_two_dvd [OF _ p m(2)]) simp
  then show "8 dvd unat al" by simp
  have s: "unat sz = max (unat (l_size (pad_to_align l'))) 16"
    by (simp add: sz max_def word_le_nat_alt)
  then show "16 \<le> unat sz" by simp
  have "unat (l_size l) \<le> unat (l_size (pad_to_align l'))"
    using pad_to_align_size(2) [OF v] by (simp add: l'_def)
  then show "unat (l_size l) \<le> unat sz" by (simp add: s)
  have "8 dvd unat (l_size (pad_to_align l'))"
    using pad_to_align_size(1) [OF v] d8 by (auto simp: al intro: dvd_trans)
  then show "8 dvd unat sz" by (simp add: s max_def)
qed

lemma add_free_region_eq:
  assumes "8 dvd unat addr" "16 \<le> unat sz" "unat addr + 8 < 2 ^ 64"
  shows "add_free_region s addr sz =
    Inr (s\<lparr>ll_mem := (ll_mem s)(addr \<mapsto> \<lparr>nd_size = sz, nd_next = nd_next (ll_head s)\<rparr>),
           ll_head := (ll_head s)\<lparr>nd_next := Some addr\<rparr>\<rparr>)"
proof -
  have "align_up addr 8 = Inr addr" using assms(1,3) by (simp add: align_up_aligned)
  then show ?thesis
    using assms(2)
    by (simp add: add_free_region_def ALIGN_OF_NODE_def SIZE_OF_NODE_def node_new_def word_le_nat_alt)
qed

lemma add_free_region_small:
  assumes "8 dvd unat addr" "unat sz < 16" "unat addr + 8 < 2 ^ 64"
  shows "add_free_region s addr sz = Inl AssertFailed"
proof -
  have "align_up addr 8 = Inr addr" using assms(1,3) by (simp add: align_up_aligned)
  then show ?thesis
    using assms(2)
    by (simp add: add_free_region_def ALIGN_OF_NODE_def SIZE_OF_NODE_def rassert_def word_le_nat_alt)
qed

section \<open>Invariant\<close>

text \<open>
  A block handed out occupies the adjusted size. Free regions and occupied blocks are spans
  of the heap: aligned for a node, large enough for one, and pairwise disjoint.
\<close>

definition ext_block :: "block \<Rightarrow> block" where
  "ext_block c = (fst c,
     case size_align (snd c) of Inl e \<Rightarrow> snd c | Inr (sz, al) \<Rightarrow> \<lparr>l_size = sz, l_align = al\<rparr>)"

definition span_ok :: "nat \<Rightarrow> nat \<Rightarrow> block \<Rightarrow> bool" where
  "span_ok lo hi b =
     (lo \<le> block_lo b \<and> block_hi b \<le> hi \<and> 8 dvd unat (fst b) \<and> 16 \<le> unat (l_size (snd b)))"

definition spans_ok :: "nat \<Rightarrow> nat \<Rightarrow> block multiset \<Rightarrow> bool" where
  "spans_ok lo hi F = ((\<forall>b \<in># F. span_ok lo hi b) \<and> pairwise_mset disjoint_blocks F)"

definition live_ok :: "block \<Rightarrow> bool" where
  "live_ok c =
     (is_power_of_two (l_align (snd c)) \<and>
      (case size_align (snd c) of Inl e \<Rightarrow> False | Inr (sz, al) \<Rightarrow> unat al dvd unat (fst c)))"

lemma live_okE:
  assumes "live_ok (p, l)"
  obtains sz al where "size_align l = Inr (sz, al)" "unat al dvd unat p" "is_power_of_two (l_align l)"
  using assms by (auto simp: live_ok_def split: sum.splits)

definition ll_inv_with :: "block list \<Rightarrow> nat \<Rightarrow> nat \<Rightarrow> ll_allocator \<Rightarrow> block multiset \<Rightarrow> bool" where
  "ll_inv_with bs lo hi s L =
     (0 < lo \<and> hi \<le> 2 ^ 63 \<and> chain (ll_mem s) (nd_next (ll_head s)) bs \<and>
      spans_ok lo hi (mset bs + image_mset ext_block L) \<and> (\<forall>c \<in># L. live_ok c))"

definition ll_inv :: "nat \<Rightarrow> nat \<Rightarrow> ll_allocator \<Rightarrow> block multiset \<Rightarrow> bool" where
  "ll_inv lo hi s L = (\<exists>bs. ll_inv_with bs lo hi s L)"

text \<open>Programs write only inside the blocks they hold: every node outside them survives.\<close>

definition ll_wr :: "block multiset \<Rightarrow> ll_allocator \<Rightarrow> ll_allocator \<Rightarrow> bool" where
  "ll_wr L s s' =
     (ll_head s' = ll_head s \<and>
      (\<forall>a. (\<forall>c \<in># L. unat a + 16 \<le> block_lo c \<or> block_hi c \<le> unat a) \<longrightarrow> ll_mem s' a = ll_mem s a))"

lemma spans_ok_add:
  "spans_ok lo hi (add_mset b F) \<longleftrightarrow>
     span_ok lo hi b \<and> (\<forall>c \<in># F. disjoint_blocks b c) \<and> spans_ok lo hi F"
  by (auto simp: spans_ok_def pairwise_disjoint_add)

lemma span_start_neq:
  assumes "span_ok lo hi b" "span_ok lo hi c" "disjoint_blocks b c"
  shows "fst b \<noteq> fst c"
  using assms by (auto simp: span_ok_def disjoint_blocks_def block_defs)

lemma spans_distinct:
  assumes "spans_ok lo hi (mset bs + F)"
  shows "distinct (map fst bs)"
  using assms
proof (induction bs)
  case (Cons b bs)
  have "fst b \<noteq> fst c" if "c \<in> set bs" for c
    using Cons.prems that span_start_neq [of lo hi b c]
    by (auto simp: spans_ok_def pairwise_disjoint_add)
  with Cons show ?case by (auto simp: spans_ok_add)
qed simp

text \<open>Replacing a span by spans inside it.\<close>

lemma disjoint_sub:
  assumes "disjoint_blocks b c" "block_lo b \<le> block_lo b'" "block_hi b' \<le> block_hi b"
  shows "disjoint_blocks b' c"
  using assms by (auto simp: disjoint_blocks_def)

lemma ext_block_live:
  assumes "size_align l = Inr (sz, al)"
  shows "ext_block (p, l) = (p, \<lparr>l_size = sz, l_align = al\<rparr>)"
  using assms by (simp add: ext_block_def)

lemma ext_block_bounds:
  assumes "live_ok c"
  shows "block_lo (ext_block c) = block_lo c" "block_hi c \<le> block_hi (ext_block c)"
proof -
  obtain sz al where "size_align (snd c) = Inr (sz, al)"
    using assms by (auto simp: live_ok_def split: sum.splits)
  then show "block_lo (ext_block c) = block_lo c" "block_hi c \<le> block_hi (ext_block c)"
    using size_align_props(6) [of "snd c" sz al] assms
    by (auto simp: ext_block_def block_defs live_ok_def)
qed

lemma span_region_safe:
  assumes "span_ok lo hi b" "hi \<le> 2 ^ 63" "is_power_of_two align"
  shows "region_safe align b" "unat (fst b) + unat align < 2 ^ 64" "block_hi b < 2 ^ 64"
proof -
  show b: "unat (fst b) + unat align < 2 ^ 64" "block_hi b < 2 ^ 64"
    using assms(1,2) power_of_two_le [OF assms(3)] by (auto simp: span_ok_def block_defs)
  then show "region_safe align b"
    using align_up_unfold [OF assms(3)] by (auto simp: region_safe_def)
qed

section \<open>What alloc computes\<close>

text \<open>The state after the region \<open>b\<close> that follows \<open>pre\<close> has been removed from the list.\<close>

definition taken :: "ll_allocator \<Rightarrow> block list \<Rightarrow> block \<Rightarrow> ll_allocator" where
  "taken s pre b = unlink s (last_ref None pre) (fst b)"

lemma taken_chain:
  assumes "ll_inv_with (pre @ b # post) lo hi s L"
  shows "chain (ll_mem (taken s pre b)) (nd_next (ll_head (taken s pre b))) (pre @ post)"
    and "\<exists>nd. ll_mem (taken s pre b) (fst b) = Some nd \<and> nd_size nd = l_size (snd b)"
proof -
  have c: "chain (ll_mem s) (nd_next (ll_head s)) (pre @ b # post)"
    and d: "distinct (map fst (pre @ b # post))"
    using assms spans_distinct [of lo hi "pre @ b # post" "image_mset ext_block L"]
    by (simp_all add: ll_inv_with_def)
  show "chain (ll_mem (taken s pre b)) (nd_next (ll_head (taken s pre b))) (pre @ post)"
    using unlink_chain [OF _ c d, of None] by (simp add: taken_def get_next_def)
  have "\<exists>nd. ll_mem s (fst b) = Some nd \<and> nd_size nd = l_size (snd b)"
    using chain_node [OF c] by simp
  then show "\<exists>nd. ll_mem (taken s pre b) (fst b) = Some nd \<and> nd_size nd = l_size (snd b)"
    using unlink_size [of s "last_ref None pre" "fst b" "fst b"] by (auto simp: taken_def)
qed

lemma find_region_cases:
  assumes "ll_inv_with bs lo hi s L" "is_power_of_two al"
  shows "\<forall>b \<in> set bs. \<not> region_fits sz al b \<Longrightarrow> find_region s sz al = Some (Inr (None, s))"
    and "bs = pre @ b # post \<Longrightarrow> \<forall>c \<in> set pre. \<not> region_fits sz al c \<Longrightarrow>
      align_up (fst b) al = Inr a \<Longrightarrow> unat a + unat sz \<le> block_hi b \<Longrightarrow>
      find_region s sz al = Some (Inr (Some (fst b, a), taken s pre b))"
proof -
  have c: "chain (ll_mem s) (nd_next (ll_head s)) bs" and g: "get_next s None = Inr (nd_next (ll_head s))"
    using assms(1) by (simp_all add: ll_inv_with_def get_next_def)
  have safe: "region_safe al c \<and> block_hi c < 2 ^ 64" if "c \<in> set bs" for c
    using assms that span_region_safe [of lo hi c al] by (auto simp: ll_inv_with_def spans_ok_def)
  show "find_region s sz al = Some (Inr (None, s))" if "\<forall>b \<in> set bs. \<not> region_fits sz al b"
    unfolding find_region_def using find_region_loop_none [OF g c] safe that by blast
  show "find_region s sz al = Some (Inr (Some (fst b, a), taken s pre b))"
    if bs: "bs = pre @ b # post" and pre: "\<forall>c \<in> set pre. \<not> region_fits sz al c"
      and a: "align_up (fst b) al = Inr a" "unat a + unat sz \<le> block_hi b"
    unfolding find_region_def taken_def
    using safe pre bs a by (intro find_region_loop_found [OF g c [unfolded bs]]) auto
qed

definition push_region :: "ll_allocator \<Rightarrow> usize \<Rightarrow> usize \<Rightarrow> ll_allocator" where
  "push_region s addr sz =
     s\<lparr>ll_mem := (ll_mem s)(addr \<mapsto> \<lparr>nd_size = sz, nd_next = nd_next (ll_head s)\<rparr>),
       ll_head := (ll_head s)\<lparr>nd_next := Some addr\<rparr>\<rparr>"

text \<open>
  Facts about a region \<open>b\<close> in which an aligned block at \<open>a\<close> fits: the block ends at \<open>e\<close>, and
  \<open>block_hi b - e\<close> bytes are left over.
\<close>

lemma fit_facts:
  assumes "span_ok lo hi b" "hi \<le> 2 ^ 63" "is_power_of_two al" "8 dvd unat al" "8 dvd unat sz"
    and "align_up (fst b) al = Inr a" "unat a + unat sz \<le> block_hi b"
  shows "block_lo b \<le> unat a" "unat al dvd unat a" "unat (a + sz) = unat a + unat sz"
    "checked_add a sz = Some (a + sz)" "8 dvd unat a" "8 dvd unat (a + sz)" "unat (a + sz) + 8 < 2 ^ 64"
proof -
  have hi: "block_hi b \<le> 2 ^ 63" using assms(1,2) by (simp add: span_ok_def)
  show a: "block_lo b \<le> unat a" "unat al dvd unat a"
    using assms(6) by (simp_all add: align_up_Inr_iff [OF assms(3)] block_lo_def)
  show e: "unat (a + sz) = unat a + unat sz"
    using assms(7) hi by (intro unat_add64) simp
  then show "checked_add a sz = Some (a + sz)" by (simp add: checked_add_eq_Some)
  show "8 dvd unat a" using assms(4) a(2) by (rule dvd_trans)
  then show "8 dvd unat (a + sz)" using e assms(5) by simp
  show "unat (a + sz) + 8 < 2 ^ 64" using e assms(7) hi by simp
qed

lemma ll_alloc_none:
  assumes "ll_inv_with bs lo hi s L" "size_align l = Inr (sz, al)" "is_power_of_two (l_align l)"
    and "\<forall>b \<in> set bs. \<not> region_fits sz al b"
  shows "ll_alloc s l = Some (Inr (null_mut, s))"
  using find_region_cases(1) [OF assms(1) size_align_props(1) [OF assms(2,3)] assms(4)] assms(2)
  by (simp add: ll_alloc_def)

lemma ll_alloc_fit:
  assumes inv: "ll_inv_with (pre @ b # post) lo hi s L" and sa: "size_align l = Inr (sz, al)"
    and "is_power_of_two (l_align l)" "\<forall>c \<in> set pre. \<not> region_fits sz al c"
    and "align_up (fst b) al = Inr a" "unat a + unat sz \<le> block_hi b"
  defines "ex \<equiv> block_hi b - (unat a + unat sz)"
  shows "ll_alloc s l =
    (if ex = 0 then Some (Inr (a, taken s pre b))
     else if ex < 16 then Some (Inl AssertFailed)
     else Some (Inr (a, push_region (taken s pre b) (a + sz) (word_of_nat ex))))"
proof -
  note p = size_align_props [OF sa assms(3)]
  have b: "span_ok lo hi b" and hi: "hi \<le> 2 ^ 63"
    using inv by (auto simp: ll_inv_with_def spans_ok_def)
  note f = fit_facts [OF b hi p(1,2,5) assms(5,6)]
  have find: "find_region s sz al = Some (Inr (Some (fst b, a), taken s pre b))"
    by (rule find_region_cases(2) [OF inv p(1) refl assms(4-6)])
  obtain nd where nd: "ll_mem (taken s pre b) (fst b) = Some nd" "nd_size nd = l_size (snd b)"
    using taken_chain(2) [OF inv] by blast
  have hb: "block_hi b < 2 ^ 64" by (rule span_region_safe(3) [OF b hi p(1)])
  define e where "e = fst b + l_size (snd b)"
  have e: "unat e = block_hi b" "uadd (fst b) (l_size (snd b)) = Inr e"
    using hb by (simp_all add: e_def block_defs unat_add64 uadd_def)
  have le: "a + sz \<le> e" using e f(3) assms(6) by (simp add: word_le_nat_alt)
  then have x: "unat (e - (a + sz)) = ex" by (simp add: unat_sub e f(3) ex_def)
  then have xw: "e - (a + sz) = word_of_nat ex" by (simp flip: x)
  have xs: "unat (word_of_nat ex :: usize) = ex" using x xw by simp
  have alloc: "ll_alloc s l = Some (if ex \<noteq> 0
      then rbind (add_free_region (taken s pre b) (a + sz) (word_of_nat ex)) (\<lambda>s. Inr (a, s))
      else Inr (a, taken s pre b))"
    using find sa nd e le f(4) x xs
    by (simp add: ll_alloc_def node_at_def end_addr_def start_addr_def usub_def xw word_less_nat_alt)
  show ?thesis
    using alloc add_free_region_small [OF f(6) _ f(7)] add_free_region_eq [OF f(6) _ f(7)] xs
    by (simp add: push_region_def)
qed

text \<open>Exactly one of these two lemmas applies.\<close>

lemma first_fit:
  obtains "\<forall>b \<in> set bs. \<not> region_fits sz al b"
  | pre b post a where "bs = pre @ b # post" "\<forall>c \<in> set pre. \<not> region_fits sz al c"
    "align_up (fst b) al = Inr a" "unat a + unat sz \<le> block_hi b"
proof (cases "\<exists>b \<in> set bs. region_fits sz al b")
  case True
  then obtain pre b post where "bs = pre @ b # post" "region_fits sz al b"
    "\<forall>c \<in> set pre. \<not> region_fits sz al c"
    using split_list_first_prop [of bs "region_fits sz al"] by blast
  with that(2) show thesis by (auto simp: region_fits_def split: sum.splits)
qed (use that(1) in blast)

section \<open>Preservation of the invariant\<close>

lemma push_region_inv:
  assumes "ll_inv_with bs lo hi s L" "span_ok lo hi b"
    and "\<forall>c \<in># mset bs + image_mset ext_block L. disjoint_blocks b c"
  shows "ll_inv_with (b # bs) lo hi (push_region s (fst b) (l_size (snd b))) L"
proof -
  have "fst b \<noteq> fst c" if "c \<in> set bs" for c
    using assms that by (intro span_start_neq [of lo hi]) (auto simp: ll_inv_with_def spans_ok_def)
  then have "fst b \<notin> fst ` set bs" by force
  then show ?thesis
    using assms by (simp add: ll_inv_with_def push_region_def chain_Cons spans_ok_add)
qed

lemma taken_inv:
  assumes "ll_inv_with (pre @ b # post) lo hi s L" "live_ok (a, l)" "size_align l = Inr (sz, al)"
    and "block_lo b \<le> unat a" "unat a + unat sz \<le> block_hi b" "8 dvd unat a" "16 \<le> unat sz"
  shows "ll_inv_with (pre @ post) lo hi (taken s pre b) (add_mset (a, l) L)"
    and "\<forall>c \<in># L. disjoint_blocks (a, l) c" "lo \<le> unat a" "unat a + unat sz \<le> hi"
proof -
  let ?R = "mset pre + mset post + image_mset ext_block L"
  have b: "span_ok lo hi b" "\<forall>c \<in># ?R. disjoint_blocks b c" "spans_ok lo hi ?R"
    using assms(1) by (simp_all add: ll_inv_with_def spans_ok_add)
  have eb: "ext_block (a, l) = (a, \<lparr>l_size = sz, l_align = al\<rparr>)" using assms(3) by (rule ext_block_live)
  then have sub: "block_lo b \<le> block_lo (ext_block (a, l))" "block_hi (ext_block (a, l)) \<le> block_hi b"
    using assms(4,5) by (simp_all add: block_defs)
  show lohi: "lo \<le> unat a" "unat a + unat sz \<le> hi"
    using b(1) assms(4,5) by (simp_all add: span_ok_def)
  have ok: "span_ok lo hi (ext_block (a, l))"
    using lohi assms(6,7) by (simp add: eb span_ok_def block_defs)
  have dis: "\<forall>c \<in># ?R. disjoint_blocks (ext_block (a, l)) c"
    using b(2) disjoint_sub [OF _ sub] by blast
  then show "ll_inv_with (pre @ post) lo hi (taken s pre b) (add_mset (a, l) L)"
    using assms(1,2) taken_chain(1) [OF assms(1)] ok b(3) by (simp add: ll_inv_with_def spans_ok_add)
  show "\<forall>c \<in># L. disjoint_blocks (a, l) c"
  proof
    fix c assume c: "c \<in># L"
    then have "disjoint_blocks (ext_block (a, l)) (ext_block c)" using dis by simp
    moreover have "live_ok c" using c assms(1) by (simp add: ll_inv_with_def)
    ultimately show "disjoint_blocks (a, l) c"
      using ext_block_bounds [of c] ext_block_bounds [OF assms(2)] by (auto simp: disjoint_blocks_def)
  qed
qed

text \<open>What a successful \<open>alloc\<close> did to the list, and the block it returned.\<close>

lemma ll_alloc_block:
  assumes inv: "ll_inv_with bs lo hi s L" and "good_layout l"
    and "ll_alloc s l = Some (Inr (p, s'))" "p \<noteq> 0"
  shows "block_ok lo hi (p, l) \<and> (\<forall>c \<in># L. disjoint_blocks (p, l) c) \<and>
    (\<exists>bs'. ll_inv_with bs' lo hi s' (add_mset (p, l) L))"
proof -
  have pw: "is_power_of_two (l_align l)" using assms(2) by (simp add: good_layout_def valid_layout_def)
  obtain sz al where sa: "size_align l = Inr (sz, al)"
    using assms(3) by (auto simp: ll_alloc_def split: sum.splits)
  note q = size_align_props [OF sa pw]
  show ?thesis
  proof (cases rule: first_fit [of bs sz al])
    case 1
    then show ?thesis
      using ll_alloc_none [OF inv sa pw] assms(3,4) by (simp add: null_mut_def)
  next
    case (2 pre b post a)
    note inv' = inv [unfolded 2(1)]
    let ?ex = "block_hi b - (unat a + unat sz)"
    have b: "span_ok lo hi b" and hi: "hi \<le> 2 ^ 63" and lo: "0 < lo"
      using inv' by (auto simp: ll_inv_with_def spans_ok_def)
    note f = fit_facts [OF b hi q(1,2,5) 2(3,4)]
    have out: "p = a" "?ex = 0 \<and> s' = taken s pre b \<or>
        16 \<le> ?ex \<and> s' = push_region (taken s pre b) (a + sz) (word_of_nat ?ex)"
      using ll_alloc_fit [OF inv' sa pw 2(2-4)] assms(3) by (auto split: if_splits)
    have live: "live_ok (a, l)" using pw sa f(2) by (simp add: live_ok_def)
    note t = taken_inv [OF inv' live sa f(1) 2(4) f(5) q(4)]
    have "block_ok lo hi (a, l)"
      using t(3,4) q(3,6) f(2) lo assms(4) out(1)
      by (auto simp: block_ok_def block_defs intro: dvd_trans)
    moreover have "\<exists>bs'. ll_inv_with bs' lo hi s' (add_mset (a, l) L)"
      using out(2)
    proof
      assume "?ex = 0 \<and> s' = taken s pre b"
      with t(1) show ?thesis by auto
    next
      assume x: "16 \<le> ?ex \<and> s' = push_region (taken s pre b) (a + sz) (word_of_nat ?ex)"
      define c :: block where "c = (a + sz, \<lparr>l_size = word_of_nat ?ex, l_align = 8\<rparr>)"
      have "?ex < 2 ^ 64" using b hi by (auto simp: span_ok_def)
      then have ux: "unat (word_of_nat ?ex :: usize) = ?ex"
        by (simp add: unat_of_nat)
      have c: "block_lo c = unat a + unat sz" "block_hi c = block_hi b"
        using 2(4) ux f(3) by (simp_all add: c_def block_defs)
      have "span_ok lo hi c"
        using b t(3) c x f(6) ux by (simp add: span_ok_def) (simp add: c_def)
      moreover have "disjoint_blocks c d"
        if d: "d \<in># mset (pre @ post) + image_mset ext_block (add_mset (a, l) L)" for d
      proof (cases "d = ext_block (a, l)")
        case True
        then show ?thesis
          using c by (simp add: ext_block_live [OF sa] disjoint_blocks_def block_defs)
      next
        case False
        with d have "disjoint_blocks b d"
          using inv' by (auto simp: ll_inv_with_def spans_ok_add)
        then show ?thesis using f(1) c by (intro disjoint_sub [of b d c]) auto
      qed
      ultimately have "ll_inv_with (c # pre @ post) lo hi
          (push_region (taken s pre b) (fst c) (l_size (snd c))) (add_mset (a, l) L)"
        by (intro push_region_inv [OF t(1)]) auto
      with x show ?thesis by (auto simp: c_def)
    qed
    ultimately show ?thesis using t(2) out(1) by blast
  qed
qed

lemma ll_alloc_null:
  assumes inv: "ll_inv_with bs lo hi s L" and "good_layout l" and "ll_alloc s l = Some (Inr (0, s'))"
  shows "s' = s"
proof -
  have pw: "is_power_of_two (l_align l)" using assms(2) by (simp add: good_layout_def valid_layout_def)
  obtain sz al where sa: "size_align l = Inr (sz, al)"
    using assms(3) by (auto simp: ll_alloc_def split: sum.splits)
  show ?thesis
  proof (cases rule: first_fit [of bs sz al])
    case 1
    then show ?thesis using ll_alloc_none [OF inv sa pw] assms(3) by simp
  next
    case (2 pre b post a)
    note inv' = inv [unfolded 2(1)]
    have "0 < lo" "lo \<le> block_lo b" using inv' by (auto simp: ll_inv_with_def spans_ok_def span_ok_def)
    then have "a \<noteq> 0"
      using 2(3) by (auto simp: align_up_Inr_iff [OF size_align_props(1) [OF sa pw]] block_lo_def)
    then show ?thesis
      using ll_alloc_fit [OF inv' sa pw 2(2-4)] assms(3) by (auto split: if_splits)
  qed
qed

lemma ll_alloc_returns:
  assumes inv: "ll_inv_with bs lo hi s L" and "good_layout l"
  shows "\<exists>r. ll_alloc s l = Some r"
proof (cases "size_align l")
  case (Inl e)
  then show ?thesis by (simp add: ll_alloc_def)
next
  case (Inr r)
  then obtain sz al where sa: "size_align l = Inr (sz, al)" by (cases r) auto
  have pw: "is_power_of_two (l_align l)" using assms(2) by (simp add: good_layout_def valid_layout_def)
  show ?thesis
  proof (cases rule: first_fit [of bs sz al])
    case 1
    then show ?thesis using ll_alloc_none [OF inv sa pw] by simp
  next
    case (2 pre b post a)
    then show ?thesis using ll_alloc_fit [OF inv [unfolded 2(1)] sa pw 2(2-4)] by simp
  qed
qed

lemma ll_dealloc_inv:
  assumes "ll_inv_with bs lo hi s (add_mset (p, l) L)"
  shows "\<exists>s'. ll_dealloc s p l = Inr s' \<and> ll_inv lo hi s' L"
proof -
  have live: "live_ok (p, l)" using assms by (simp add: ll_inv_with_def)
  then obtain sz al where sa: "size_align l = Inr (sz, al)" by (elim live_okE)
  define b :: block where "b = (p, \<lparr>l_size = sz, l_align = al\<rparr>)"
  have eb: "ext_block (p, l) = b" using ext_block_live [OF sa] by (simp add: b_def)
  have b: "span_ok lo hi b" "\<forall>c \<in># mset bs + image_mset ext_block L. disjoint_blocks b c"
    and rest: "ll_inv_with bs lo hi s L"
    using assms by (auto simp: ll_inv_with_def eb spans_ok_add)
  have "8 dvd unat p" "16 \<le> unat sz" "unat p + 8 < 2 ^ 64"
    using b(1) assms by (auto simp: b_def span_ok_def block_defs ll_inv_with_def)
  then have "ll_dealloc s p l = Inr (push_region s p sz)"
    using sa add_free_region_eq [of p sz s] by (simp add: ll_dealloc_def push_region_def)
  moreover have "ll_inv_with (b # bs) lo hi (push_region s p sz) L"
    using push_region_inv [OF rest b] by (simp add: b_def)
  ultimately show ?thesis by (auto simp: ll_inv_def)
qed

lemma ll_wr_inv:
  assumes "ll_inv_with bs lo hi s L" "ll_wr L s s'"
  shows "ll_inv_with bs lo hi s' L"
proof -
  have "ll_mem s' (fst b) = ll_mem s (fst b)" if b: "b \<in> set bs" for b
  proof -
    have "unat (fst b) + 16 \<le> block_lo c \<or> block_hi c \<le> unat (fst b)" if c: "c \<in># L" for c
    proof -
      have "spans_ok lo hi (mset bs + image_mset ext_block L)" "live_ok c"
        using assms(1) c by (simp_all add: ll_inv_with_def)
      moreover obtain bs1 bs2 where "bs = bs1 @ b # bs2" using b by (auto dest: split_list)
      ultimately have "disjoint_blocks b (ext_block c)" "span_ok lo hi b"
        using c by (auto simp: spans_ok_add)
      then show ?thesis
        using ext_block_bounds [OF \<open>live_ok c\<close>] by (auto simp: disjoint_blocks_def span_ok_def block_defs)
    qed
    with assms(2) show ?thesis by (simp add: ll_wr_def)
  qed
  then have "chain (ll_mem s') (nd_next (ll_head s)) bs = chain (ll_mem s) (nd_next (ll_head s)) bs"
    by (intro chain_cong) simp
  with assms show ?thesis by (simp add: ll_inv_with_def ll_wr_def)
qed

lemma ll_init_inv:
  assumes "ll_init (ll_new m) s n = Inr a" "s \<noteq> 0" "unat s + unat n \<le> 2 ^ 63"
  shows "ll_inv_with [(s, \<lparr>l_size = n, l_align = 8\<rparr>)] (unat s) (unat s + unat n) a {#}"
proof -
  from assms(1) have al: "align_up s 8 = Inr s" and n: "16 \<le> unat n"
    and a: "a = push_region (ll_new m) s n"
    by (auto simp: ll_init_def add_free_region_def rbind_simps ALIGN_OF_NODE_def SIZE_OF_NODE_def
        word_le_nat_alt push_region_def node_new_def ll_new_def Let_def)
  from al have "8 dvd unat s" by (simp add: align_up_Inr_iff)
  then show ?thesis
    using n a assms(2,3)
    by (simp add: ll_inv_with_def push_region_def ll_new_def node_new_def chain_Cons spans_ok_add
        span_ok_def block_defs spans_ok_def unat_gt_0 pairwise_disjoint_add)
qed

interpretation ll: global_alloc ll_alloc ll_dealloc ll_wr "ll_inv lo hi" lo hi
  for lo hi
proof (unfold_locales, goal_cases)
  case (1 s L l p s')
  then show ?case using ll_alloc_block by (auto simp: ll_inv_def)
next
  case (2 s L l p s')
  then show ?case using ll_alloc_block [of _ lo hi s L l p s'] by (auto simp: ll_inv_def)
next
  case (3 s L l s')
  then show ?case using ll_alloc_null [of _ lo hi s L l s'] by (auto simp: ll_inv_def)
next
  case (4 s L l)
  then show ?case using ll_alloc_returns [of _ lo hi s L l] by (auto simp: ll_inv_def)
next
  case (5 s p l L)
  then show ?case using ll_dealloc_inv [of _ lo hi s p l L] by (auto simp: ll_inv_def)
next
  case (6 s L s')
  then show ?case using ll_wr_inv [of _ lo hi s L s'] by (auto simp: ll_inv_def)
qed

section \<open>A concrete heap, for the witnesses\<close>

abbreviation (input) ex_ll :: ll_allocator where
  "ex_ll \<equiv> \<lparr>ll_head = \<lparr>nd_size = 0, nd_next = Some 4096\<rparr>, ll_mem = [4096 \<mapsto> \<lparr>nd_size = 1024, nd_next = None\<rparr>]\<rparr>"

abbreviation (input) ex_layout :: "usize \<Rightarrow> layout" where
  "ex_layout n \<equiv> \<lparr>l_size = n, l_align = 8\<rparr>"

lemma ex_ll_init: "ll_init (ll_new Map.empty) 4096 1024 = Inr ex_ll"
  using add_free_region_eq [of 4096 1024 "ll_new Map.empty"]
  by (simp add: ll_init_def ll_new_def node_new_def)

lemma ex_ll_inv: "ll_inv_with [(4096, ex_layout 1024)] 4096 5120 ex_ll {#}"
  using ll_init_inv [OF ex_ll_init] by simp

lemma size_align_8:
  assumes "8 dvd unat n" "16 \<le> unat n" "unat n + 8 \<le> 2 ^ 64"
  shows "size_align (ex_layout n) = Inr (n, 8)"
proof -
  have v: "valid_layout (ex_layout n)" using assms(3) by (simp add: valid_layout_def)
  have "l_size (pad_to_align (ex_layout n)) = n"
    using pad_to_align_size(1-3) [OF v] assms(1)
      multiple_in_window_unique [of 8 "unat (l_size (pad_to_align (ex_layout n)))" "unat n" "unat n"]
    by (simp add: word_unat_eq_iff)
  moreover have "max n 16 = n"
    using assms(2) by (intro max_absorb1) (simp add: word_le_nat_alt)
  ultimately show ?thesis
    using v
    by (simp add: size_align_def align_to_def from_size_align_def ALIGN_OF_NODE_def SIZE_OF_NODE_def
        pad_to_align_def)
qed

lemma ex_ll_alloc:
  "ll_alloc ex_ll (ex_layout 24) =
     Some (Inr (4096, push_region (taken ex_ll [] (4096, ex_layout 1024)) 4120 1000))"
  "good_layout (ex_layout 24)"
proof -
  have a: "align_up 4096 8 = Inr 4096" by (simp add: align_up_aligned)
  have sa: "size_align (ex_layout 24) = Inr (24, 8)" by (rule size_align_8) simp_all
  show "ll_alloc ex_ll (ex_layout 24) =
     Some (Inr (4096, push_region (taken ex_ll [] (4096, ex_layout 1024)) 4120 1000))"
    using ll_alloc_fit [of "[]" "(4096, ex_layout 1024)" "[]", OF _ sa, of 4096 5120 ex_ll "{#}" 4096]
      ex_ll_inv a by (simp add: block_defs)
  show "good_layout (ex_layout 24)" by (simp add: good_layout_def valid_layout_def)
qed

section \<open>Properties\<close>

text \<open>
  C9: for any sequence of requests, returns and writes into held blocks, the blocks a program
  holds from an initialised linked-list allocator lie in the heap, are aligned as requested,
  and never overlap each other.
\<close>

theorem ll_heap_safe:
  assumes "ll_init (ll_new m) s n = Inr a0" "s \<noteq> 0" "unat s + unat n \<le> 2 ^ 63"
    and "heap_run ll_alloc ll_dealloc ll_wr a0 a L"
  shows "(\<forall>c \<in># L. block_ok (unat s) (unat s + unat n) c) \<and> pairwise_mset disjoint_blocks L"
proof -
  have "ll_inv (unat s) (unat s + unat n) a0 {#}"
    using ll_init_inv [OF assms(1-3)] by (auto simp: ll_inv_def)
  with assms(4) show ?thesis by (rule ll.run_blocks)
qed

lemma ex_ll_run:
  "heap_run ll_alloc ll_dealloc ll_wr ex_ll
     (push_region (taken ex_ll [] (4096, ex_layout 1024)) 4120 1000) {#(4096, ex_layout 24)#}"
  by (rule heap_run.request [where alloc = ll_alloc, OF heap_run.start ex_ll_alloc(2,1)]) simp

theorem ll_heap_safe_witness: "block_ok 4096 5120 (4096, ex_layout 24)"
  using ll_heap_safe [OF ex_ll_init _ _ ex_ll_run] by simp

text \<open>
  C28: \<open>alloc\<close> is first fit: it takes the first region of the list in which the aligned,
  adjusted block fits, returns null and leaves the heap alone when there is none, gives the
  bytes behind the block back to the list when at least 16 are left, and panics when between
  1 and 15 are left.
\<close>

theorem ll_alloc_first_fit:
  assumes "ll_inv_with bs lo hi s L" "good_layout l" "size_align l = Inr (sz, al)"
  shows "((\<forall>b \<in> set bs. \<not> region_fits sz al b) \<longrightarrow> ll_alloc s l = Some (Inr (null_mut, s))) \<and>
    (\<forall>pre b post a. bs = pre @ b # post \<and> (\<forall>c \<in> set pre. \<not> region_fits sz al c) \<and>
       align_up (fst b) al = Inr a \<and> unat a + unat sz \<le> block_hi b \<longrightarrow>
       ll_alloc s l =
         (let ex = block_hi b - (unat a + unat sz) in
          if ex = 0 then Some (Inr (a, taken s pre b))
          else if ex < 16 then Some (Inl AssertFailed)
          else Some (Inr (a, push_region (taken s pre b) (a + sz) (word_of_nat ex)))))"
proof -
  have pw: "is_power_of_two (l_align l)" using assms(2) by (simp add: good_layout_def valid_layout_def)
  show ?thesis
    using ll_alloc_none [OF assms(1,3) pw] ll_alloc_fit [OF _ assms(3) pw] assms(1)
    by (auto simp: Let_def)
qed

theorem ll_alloc_first_fit_witness:
  "ll_alloc ex_ll (ex_layout 2048) = Some (Inr (null_mut, ex_ll))"
proof -
  have g: "good_layout (ex_layout 2048)" by (simp add: good_layout_def valid_layout_def)
  have sa: "size_align (ex_layout 2048) = Inr (2048, 8)" by (rule size_align_8) simp_all
  have "align_up 4096 8 = Inr 4096" by (simp add: align_up_aligned)
  then show ?thesis
    using ll_alloc_first_fit [OF ex_ll_inv g sa] by (simp add: region_fits_def block_defs)
qed

text \<open>
  C26: the search for a free region ends in every state a program can reach, so \<open>alloc\<close>
  always returns.
\<close>

theorem ll_alloc_terminates:
  assumes "ll_init (ll_new m) s n = Inr a0" "s \<noteq> 0" "unat s + unat n \<le> 2 ^ 63"
    and "heap_run ll_alloc ll_dealloc ll_wr a0 a L" "good_layout l"
  shows "\<exists>r. ll_alloc a l = Some r"
proof -
  have "ll_inv (unat s) (unat s + unat n) a0 {#}"
    using ll_init_inv [OF assms(1-3)] by (auto simp: ll_inv_def)
  with assms(4) show ?thesis using assms(5) by (rule ll.run_alloc_returns)
qed

theorem ll_alloc_terminates_witness: "\<exists>r. ll_alloc ex_ll (ex_layout 24) = Some r"
  using ll_alloc_terminates [OF ex_ll_init _ _ heap_run.start ex_ll_alloc(2)] by simp

text \<open>
  C35: returning a block and requesting the same layout again gives the same block back, and
  the free list is as it was before.
\<close>

theorem ll_dealloc_alloc_roundtrip:
  assumes "ll_inv_with bs lo hi s (add_mset (p, l) L)"
  shows "\<exists>s' s''. ll_dealloc s p l = Inr s' \<and> ll_alloc s' l = Some (Inr (p, s'')) \<and>
    ll_inv_with bs lo hi s'' (add_mset (p, l) L)"
proof -
  have live: "live_ok (p, l)" using assms by (simp add: ll_inv_with_def)
  then obtain sz al where sa: "size_align l = Inr (sz, al)" and al: "unat al dvd unat p"
    and pw: "is_power_of_two (l_align l)" by (elim live_okE)
  define b :: block where "b = (p, \<lparr>l_size = sz, l_align = al\<rparr>)"
  have eb: "ext_block (p, l) = b" using ext_block_live [OF sa] by (simp add: b_def)
  have b: "span_ok lo hi b" "\<forall>c \<in># mset bs + image_mset ext_block L. disjoint_blocks b c"
    and rest: "ll_inv_with bs lo hi s L" and hi: "hi \<le> 2 ^ 63"
    using assms by (auto simp: ll_inv_with_def eb spans_ok_add)
  have p: "8 dvd unat p" "16 \<le> unat sz" "unat p + 8 < 2 ^ 64"
    using b(1) hi by (auto simp: b_def span_ok_def block_defs)
  have s': "ll_dealloc s p l = Inr (push_region s p sz)"
    using sa add_free_region_eq [OF p] by (simp add: ll_dealloc_def push_region_def)
  have inv': "ll_inv_with ([] @ b # bs) lo hi (push_region s p sz) L"
    using push_region_inv [OF rest b] by (simp add: b_def)
  have "align_up p al = Inr p"
    using al span_region_safe(2) [OF b(1) hi size_align_props(1) [OF sa pw]]
    by (simp add: b_def align_up_aligned [OF size_align_props(1) [OF sa pw]])
  then have "ll_alloc (push_region s p sz) l = Some (Inr (p, taken (push_region s p sz) [] b))"
    using ll_alloc_fit [OF inv' sa pw, of p] by (simp add: b_def block_defs)
  moreover have "ll_inv_with bs lo hi (taken (push_region s p sz) [] b) (add_mset (p, l) L)"
    using taken_inv(1) [OF inv' live sa] p by (simp add: b_def block_defs)
  ultimately show ?thesis using s' by blast
qed

theorem ll_dealloc_alloc_roundtrip_witness:
  "\<exists>s s' s''. ll_dealloc s 4096 (ex_layout 24) = Inr s' \<and> ll_alloc s' (ex_layout 24) = Some (Inr (4096, s''))"
proof -
  obtain bs where "ll_inv_with bs 4096 5120
      (push_region (taken ex_ll [] (4096, ex_layout 1024)) 4120 1000) {#(4096, ex_layout 24)#}"
    using ll_alloc_block [OF ex_ll_inv ex_ll_alloc(2,1)] by auto
  from ll_dealloc_alloc_roundtrip [OF this] show ?thesis by blast
qed

text \<open>
  C39: a freshly initialised heap of \<open>n\<close> bytes panics on a request for \<open>n - 8\<close> bytes although
  the request fits: \<open>alloc_from_region\<close> accepts a region that leaves 8 bytes, and
  \<open>add_free_region\<close> then fails its assertion that the rest can hold a node.
\<close>

theorem ll_alloc_small_excess_panics:
  assumes "ll_init (ll_new m) s n = Inr a" "s \<noteq> 0" "unat s + unat n \<le> 2 ^ 63"
    and "8 dvd unat n" "24 \<le> unat n"
  shows "ll_alloc a \<lparr>l_size = n - 8, l_align = 8\<rparr> = Some (Inl AssertFailed)"
proof -
  note inv = ll_init_inv [OF assms(1-3)]
  have le: "8 \<le> n" using assms(5) by (simp add: word_le_nat_alt)
  then have n8: "unat (n - 8) = unat n - 8" by (simp add: unat_sub)
  have sa: "size_align (ex_layout (n - 8)) = Inr (n - 8, 8)"
    using assms(3-5) by (intro size_align_8) (simp_all add: n8 dvd_diff_nat)
  have "8 dvd unat s" "unat s + 8 < 2 ^ 64"
    using inv assms(5) by (auto simp: ll_inv_with_def spans_ok_def span_ok_def block_defs)
  then have "align_up s 8 = Inr s" by (simp add: align_up_aligned)
  then show ?thesis
    using ll_alloc_fit [of "[]" "(s, ex_layout n)" "[]", OF _ sa, of _ _ a "{#}" s] inv assms(5) n8
    by (simp add: block_defs)
qed

theorem ll_alloc_small_excess_panics_witness:
  "ll_alloc ex_ll \<lparr>l_size = 1016, l_align = 8\<rparr> = Some (Inl AssertFailed)"
  using ll_alloc_small_excess_panics [OF ex_ll_init] by simp

end
