(* ===== verification/Fixed_Size_Block.thy ===== *)
theory Fixed_Size_Block
  imports Linked_List
begin

text \<open>
  \<^verbatim>\<open>src/allocator/fixed_size_block.rs\<close>: the allocator the kernel registers as its global
  allocator. Nine lists of free blocks of fixed sizes, kept in the free blocks themselves,
  in front of a fallback heap. The fallback, \<open>linked_list_allocator::Heap\<close>, is a third-party
  type: it is a parameter of the model, a record of its operations.
\<close>

section \<open>The fallback heap\<close>

text \<open>
  \<open>hp_allocate_first_fit\<close> returns the block (\<open>Ok\<close>) or \<open>None\<close> (\<open>Err\<close>); like every operation
  here it is allowed to panic, and the search is allowed not to return.
\<close>

record 'h heap_ops =
  hp_empty :: 'h
  hp_init :: "'h \<Rightarrow> usize \<Rightarrow> usize \<Rightarrow> 'h result"
  hp_allocate_first_fit :: "'h \<Rightarrow> layout \<Rightarrow> (usize option \<times> 'h) result option"
  hp_deallocate :: "'h \<Rightarrow> usize \<Rightarrow> layout \<Rightarrow> 'h result"

section \<open>State and operations\<close>

record fs_node =
  fn_next :: "usize option"

definition BLOCK_SIZES :: "usize list" where
  "BLOCK_SIZES = [8, 16, 32, 64, 128, 256, 512, 1024, 2048]"

text \<open>\<open>FixedSizeBlockAllocator\<close>, with the heap memory its nodes are written to.\<close>

record 'h fsb_allocator =
  fs_list_heads :: "usize option list"
  fs_fallback :: 'h
  fs_mem :: "usize \<rightharpoonup> fs_node"

definition SIZE_OF_FS_NODE :: usize where "SIZE_OF_FS_NODE = 8"
definition ALIGN_OF_FS_NODE :: usize where "ALIGN_OF_FS_NODE = 8"

definition fsb_new :: "'h heap_ops \<Rightarrow> (usize \<rightharpoonup> fs_node) \<Rightarrow> 'h fsb_allocator" where
  "fsb_new H m =
     \<lparr>fs_list_heads = replicate (length BLOCK_SIZES) None, fs_fallback = hp_empty H, fs_mem = m\<rparr>"

definition fsb_init :: "'h heap_ops \<Rightarrow> 'h fsb_allocator \<Rightarrow> usize \<Rightarrow> usize \<Rightarrow> 'h fsb_allocator result" where
  "fsb_init H s heap_start heap_size =
     rbind (hp_init H (fs_fallback s) heap_start heap_size) (\<lambda>h. Inr (s\<lparr>fs_fallback := h\<rparr>))"

definition fallback_alloc ::
  "'h heap_ops \<Rightarrow> 'h fsb_allocator \<Rightarrow> layout \<Rightarrow> (usize \<times> 'h fsb_allocator) result option" where
  "fallback_alloc H s l =
     (case hp_allocate_first_fit H (fs_fallback s) l of
        None \<Rightarrow> None
      | Some (Inl e) \<Rightarrow> Some (Inl e)
      | Some (Inr (Some ptr, h)) \<Rightarrow> Some (Inr (ptr, s\<lparr>fs_fallback := h\<rparr>))
      | Some (Inr (None, h)) \<Rightarrow> Some (Inr (null_mut, s\<lparr>fs_fallback := h\<rparr>)))"

definition list_index :: "layout \<Rightarrow> nat option" where
  "list_index l =
     (let required_block_size = max (l_size l) (l_align l) in
      position (\<lambda>s. s \<ge> required_block_size) BLOCK_SIZES)"

definition fsb_alloc ::
  "'h heap_ops \<Rightarrow> 'h fsb_allocator \<Rightarrow> layout \<Rightarrow> (usize \<times> 'h fsb_allocator) result option" where
  "fsb_alloc H s l =
     (case list_index l of
        Some index \<Rightarrow>
          (case index_at (fs_list_heads s) index of
             Inl e \<Rightarrow> Some (Inl e)
           | Inr (Some node) \<Rightarrow>
               (case fs_mem s node of
                  None \<Rightarrow> Some (Inl (Fault node))
                | Some nd \<Rightarrow> Some (Inr (node,
                    s\<lparr>fs_list_heads := (fs_list_heads s)[index := fn_next nd],
                      fs_mem := (fs_mem s)(node \<mapsto> nd\<lparr>fn_next := None\<rparr>)\<rparr>)))
           | Inr None \<Rightarrow>
               (case index_at BLOCK_SIZES index of
                  Inl e \<Rightarrow> Some (Inl e)
                | Inr block_size \<Rightarrow>
                    (case from_size_align block_size block_size of
                       None \<Rightarrow> Some (Inl UnwrapErr)
                     | Some layout \<Rightarrow> fallback_alloc H s layout)))
      | None \<Rightarrow> fallback_alloc H s l)"

definition fsb_dealloc ::
  "'h heap_ops \<Rightarrow> 'h fsb_allocator \<Rightarrow> usize \<Rightarrow> layout \<Rightarrow> 'h fsb_allocator result" where
  "fsb_dealloc H s ptr l =
     (case list_index l of
        Some index \<Rightarrow>
          rbind (index_at (fs_list_heads s) index) (\<lambda>next.
          rbind (index_at BLOCK_SIZES index) (\<lambda>block_size.
          rbind (rassert (SIZE_OF_FS_NODE \<le> block_size)) (\<lambda>_.
          rbind (rassert (ALIGN_OF_FS_NODE \<le> block_size)) (\<lambda>_.
            Inr (s\<lparr>fs_mem := (fs_mem s)(ptr \<mapsto> \<lparr>fn_next = next\<rparr>),
                   fs_list_heads := (fs_list_heads s)[index := Some ptr]\<rparr>)))))
      | None \<Rightarrow>
          if ptr = 0 then Inl UnwrapNone
          else rbind (hp_deallocate H (fs_fallback s) ptr l) (\<lambda>h. Inr (s\<lparr>fs_fallback := h\<rparr>)))"

text \<open>
  The loop of the test \<open>many_boxes\<close> of \<^verbatim>\<open>tests/heap_allocation.rs\<close>: each round allocates the
  \<open>usize\<close> of a \<open>Box\<close>, writes it over whatever the block held, and drops it. A failed
  allocation calls the handler of \<^verbatim>\<open>src/lib.rs\<close>, which panics. The result lists the
  addresses of the boxes.
\<close>

definition usize_layout :: layout where
  "usize_layout = \<lparr>l_size = 8, l_align = 8\<rparr>"

definition box_new ::
  "'h heap_ops \<Rightarrow> 'h fsb_allocator \<Rightarrow> layout \<Rightarrow> (usize \<times> 'h fsb_allocator) result option" where
  "box_new H s l =
     (case fsb_alloc H s l of
        None \<Rightarrow> None
      | Some (Inl e) \<Rightarrow> Some (Inl e)
      | Some (Inr (ptr, s')) \<Rightarrow>
          if ptr = null_mut then Some (Inl (Message ''allocation error''))
          else Some (Inr (ptr, s'\<lparr>fs_mem := (fs_mem s')(ptr := None)\<rparr>)))"

fun many_boxes ::
  "'h heap_ops \<Rightarrow> nat \<Rightarrow> 'h fsb_allocator \<Rightarrow> (usize list \<times> 'h fsb_allocator) result option" where
  "many_boxes H 0 s = Some (Inr ([], s))"
| "many_boxes H (Suc n) s =
     (case box_new H s usize_layout of
        None \<Rightarrow> None
      | Some (Inl e) \<Rightarrow> Some (Inl e)
      | Some (Inr (x, s1)) \<Rightarrow>
          (case fsb_dealloc H s1 x usize_layout of
             Inl e \<Rightarrow> Some (Inl e)
           | Inr s2 \<Rightarrow>
               (case many_boxes H n s2 of
                  None \<Rightarrow> None
                | Some (Inl e) \<Rightarrow> Some (Inl e)
                | Some (Inr (xs, s3)) \<Rightarrow> Some (Inr (x # xs, s3)))))"

section \<open>Choosing a block size\<close>

definition block_layout :: "nat \<Rightarrow> layout" where
  "block_layout i = \<lparr>l_size = BLOCK_SIZES ! i, l_align = BLOCK_SIZES ! i\<rparr>"

lemma length_BLOCK_SIZES [simp]: "length BLOCK_SIZES = 9"
  by (simp add: BLOCK_SIZES_def)

lemma unat_BLOCK_SIZES: "i < 9 \<Longrightarrow> unat (BLOCK_SIZES ! i) = 2 ^ (i + 3)"
proof -
  assume "i < 9"
  then consider "i = 0" | "i = 1" | "i = 2" | "i = 3" | "i = 4" | "i = 5" | "i = 6" | "i = 7" | "i = 8"
    by linarith
  then show ?thesis by cases (simp_all add: BLOCK_SIZES_def)
qed

lemma list_index_Some_iff:
  "list_index l = Some i \<longleftrightarrow>
     i < 9 \<and> max (unat (l_size l)) (unat (l_align l)) \<le> 2 ^ (i + 3) \<and>
     (\<forall>j < i. 2 ^ (j + 3) < max (unat (l_size l)) (unat (l_align l)))"
proof -
  have mx: "unat (max (l_size l) (l_align l)) = max (unat (l_size l)) (unat (l_align l))"
    by (simp add: max_def word_le_nat_alt)
  show ?thesis
    by (auto simp: list_index_def position_eq_Some word_le_nat_alt mx unat_BLOCK_SIZES not_le)
qed

lemma list_index_None_iff:
  "list_index l = None \<longleftrightarrow> 2048 < max (unat (l_size l)) (unat (l_align l))"
proof -
  have mx: "unat (max (l_size l) (l_align l)) = max (unat (l_size l)) (unat (l_align l))"
    by (simp add: max_def word_le_nat_alt)
  show ?thesis
    by (auto simp: list_index_def position_eq_None word_le_nat_alt mx BLOCK_SIZES_def not_le)
qed

lemma block_layout_good: "i < 9 \<Longrightarrow> good_layout (block_layout i)"
proof -
  assume i: "i < 9"
  then have u: "unat (BLOCK_SIZES ! i) = 2 ^ (i + 3)" by (rule unat_BLOCK_SIZES)
  have "(2::nat) ^ (i + 3) \<le> 2 ^ 11" using i by (intro power_increasing) simp_all
  moreover have "is_power_of_two (BLOCK_SIZES ! i)"
    using i u by (auto simp: is_power_of_two_iff intro!: exI [of _ "i + 3"])
  moreover have "BLOCK_SIZES ! i \<noteq> 0" using u by (metis power_not_zero unat_0 zero_neq_numeral)
  ultimately show ?thesis
    by (simp add: good_layout_def valid_layout_def block_layout_def u)
qed

lemma from_size_align_block:
  "i < 9 \<Longrightarrow> from_size_align (BLOCK_SIZES ! i) (BLOCK_SIZES ! i) = Some (block_layout i)"
  using block_layout_good [of i]
  by (simp add: from_size_align_def block_layout_def good_layout_def)

text \<open>The block that is taken from the fallback heap to serve a request.\<close>

definition fall_layout :: "layout \<Rightarrow> layout" where
  "fall_layout l = (case list_index l of Some i \<Rightarrow> block_layout i | None \<Rightarrow> l)"

definition fall_block :: "block \<Rightarrow> block" where
  "fall_block c = (fst c, fall_layout (snd c))"

lemma fall_layout_props:
  assumes "good_layout l"
  shows "good_layout (fall_layout l)" "unat (l_size l) \<le> unat (l_size (fall_layout l))"
    "unat (l_align l) dvd unat (l_align (fall_layout l))"
proof -
  have p: "is_power_of_two (l_align l)" using assms by (simp add: good_layout_def valid_layout_def)
  have "good_layout (fall_layout l) \<and> unat (l_size l) \<le> unat (l_size (fall_layout l)) \<and>
    unat (l_align l) dvd unat (l_align (fall_layout l))"
  proof (cases "list_index l")
    case None
    then show ?thesis using assms by (simp add: fall_layout_def)
  next
    case (Some i)
    then have i: "i < 9" "unat (l_size l) \<le> unat (BLOCK_SIZES ! i)"
      "unat (l_align l) \<le> unat (BLOCK_SIZES ! i)"
      by (auto simp: list_index_Some_iff unat_BLOCK_SIZES)
    then have "unat (l_align l) dvd unat (BLOCK_SIZES ! i)"
      using block_layout_good [of i] p
      by (intro power_of_two_dvd) (auto simp: good_layout_def valid_layout_def block_layout_def)
    with Some i block_layout_good [of i] show ?thesis
      by (simp add: fall_layout_def) (simp add: block_layout_def)
  qed
  then show "good_layout (fall_layout l)" "unat (l_size l) \<le> unat (l_size (fall_layout l))"
    "unat (l_align l) dvd unat (l_align (fall_layout l))" by blast+
qed

section \<open>The free lists in memory\<close>

fun fs_chain :: "(usize \<rightharpoonup> fs_node) \<Rightarrow> usize option \<Rightarrow> usize list \<Rightarrow> bool" where
  "fs_chain m p [] = (p = None)"
| "fs_chain m p (a # as) =
     (p = Some a \<and> (case m a of None \<Rightarrow> False | Some nd \<Rightarrow> fs_chain m (fn_next nd) as))"

lemma fs_chain_Cons:
  "fs_chain m p (a # as) \<longleftrightarrow> p = Some a \<and> (\<exists>nd. m a = Some nd \<and> fs_chain m (fn_next nd) as)"
  by (auto split: option.splits)

declare fs_chain.simps(2) [simp del]

lemma fs_chain_cong:
  assumes "\<And>a. a \<in> set as \<Longrightarrow> m' a = m a"
  shows "fs_chain m' p as = fs_chain m p as"
  using assms by (induction as arbitrary: p) (auto simp: fs_chain_Cons)

lemma fs_chain_unique: "fs_chain m p as \<Longrightarrow> fs_chain m p bs \<Longrightarrow> as = bs"
proof (induction as arbitrary: p bs)
  case Nil
  then show ?case by (cases bs) (auto simp: fs_chain_Cons)
next
  case (Cons a as)
  then show ?case by (cases bs) (auto simp: fs_chain_Cons)
qed

definition fsb_lists :: "'h fsb_allocator \<Rightarrow> usize list list \<Rightarrow> bool" where
  "fsb_lists s Ls =
     (length (fs_list_heads s) = 9 \<and> length Ls = 9 \<and>
      (\<forall>i < 9. fs_chain (fs_mem s) (fs_list_heads s ! i) (Ls ! i)))"

lemma fsb_lists_unique: "fsb_lists s Ls \<Longrightarrow> fsb_lists s Ls' \<Longrightarrow> Ls = Ls'"
  by (rule nth_equalityI) (auto simp: fsb_lists_def intro: fs_chain_unique)

text \<open>
  The blocks held from the fallback heap: those that serve the program's blocks and those
  on the free lists.
\<close>

definition free_blocks :: "usize list list \<Rightarrow> block multiset" where
  "free_blocks Ls = (\<Sum>i < 9. image_mset (\<lambda>a. (a, block_layout i)) (mset (Ls ! i)))"

definition held :: "block multiset \<Rightarrow> usize list list \<Rightarrow> block multiset" where
  "held L Ls = image_mset fall_block L + free_blocks Ls"

lemma free_blocks_upd:
  assumes "i < 9" "length Ls = 9"
  shows "free_blocks (Ls[i := a # as]) = add_mset (a, block_layout i) (free_blocks (Ls[i := as]))"
proof -
  let ?f = "\<lambda>Ls j. image_mset (\<lambda>a. (a, block_layout j)) (mset (Ls ! j))"
  have rest: "(\<Sum>j \<in> {..<9} - {i}. ?f (Ls[i := a # as]) j) = (\<Sum>j \<in> {..<9} - {i}. ?f (Ls[i := as]) j)"
    by (rule sum.cong) auto
  show ?thesis
    unfolding free_blocks_def
    using assms rest sum.remove [of "{..<9::nat}" i "?f (Ls[i := a # as])"]
      sum.remove [of "{..<9::nat}" i "?f (Ls[i := as])"] by simp
qed

lemma free_blocks_mem:
  assumes "j < 9" "length Ls = 9" "x \<in> set (Ls ! j)"
  shows "(x, block_layout j) \<in># free_blocks Ls"
proof -
  have "(x, block_layout j) \<in># image_mset (\<lambda>a. (a, block_layout j)) (mset (Ls ! j))"
    using assms(3) by auto
  moreover have "image_mset (\<lambda>a. (a, block_layout j)) (mset (Ls ! j)) \<subseteq># free_blocks Ls"
    unfolding free_blocks_def using assms(1) by (simp add: sum.remove [of "{..<9::nat}" j])
  ultimately show ?thesis by (rule mset_subset_eqD [rotated])
qed

lemma free_blocks_Nil: "free_blocks (replicate 9 []) = {#}"
  by (simp add: free_blocks_def)

lemma disjoint_fst_neq:
  assumes "disjoint_blocks b c" "l_size (snd b) \<noteq> 0" "l_size (snd c) \<noteq> 0"
  shows "fst b \<noteq> fst c"
  using assms by (auto simp: disjoint_blocks_def block_defs unat_eq_zero)

lemma block_layout_size: "i < 9 \<Longrightarrow> l_size (block_layout i) \<noteq> 0" "i < 9 \<Longrightarrow> 8 \<le> unat (l_size (block_layout i))"
proof -
  show "i < 9 \<Longrightarrow> l_size (block_layout i) \<noteq> 0"
    using block_layout_good [of i] by (simp add: good_layout_def)
  show "i < 9 \<Longrightarrow> 8 \<le> unat (l_size (block_layout i))"
    using power_increasing [of 3 "i + 3" "2::nat"] by (simp add: block_layout_def unat_BLOCK_SIZES)
qed

text \<open>A block disjoint from all free blocks is on none of the lists.\<close>

lemma not_on_lists:
  assumes "\<forall>c \<in># free_blocks Ls. disjoint_blocks (a, l) c" "l_size l \<noteq> 0" "j < 9" "length Ls = 9"
  shows "a \<notin> set (Ls ! j)"
proof
  assume "a \<in> set (Ls ! j)"
  with assms have "disjoint_blocks (a, l) (a, block_layout j)" by (blast intro: free_blocks_mem)
  with assms(2,3) show False using disjoint_fst_neq block_layout_size(1) by fastforce
qed

section \<open>Invariant\<close>

definition heap_alloc :: "'h heap_ops \<Rightarrow> 'h \<Rightarrow> layout \<Rightarrow> (usize \<times> 'h) result option" where
  "heap_alloc H h l =
     map_option (\<lambda>r. rbind r (\<lambda>(p, h'). Inr (case p of None \<Rightarrow> 0 | Some a \<Rightarrow> a, h')))
       (hp_allocate_first_fit H h l)"

lemma fallback_alloc_eq:
  "fallback_alloc H s l =
     map_option (\<lambda>r. rbind r (\<lambda>(p, h). Inr (p, s\<lparr>fs_fallback := h\<rparr>))) (heap_alloc H (fs_fallback s) l)"
  by (auto simp: fallback_alloc_def heap_alloc_def null_mut_def split: option.splits sum.splits)

lemma fallback_alloc_eq_Inr:
  "fallback_alloc H s l = Some (Inr (p, s')) \<longleftrightarrow>
     (\<exists>h. heap_alloc H (fs_fallback s) l = Some (Inr (p, h)) \<and> s' = s\<lparr>fs_fallback := h\<rparr>)"
  by (auto simp: fallback_alloc_eq rbind_simps)

definition fsb_inv ::
  "('h \<Rightarrow> block multiset \<Rightarrow> bool) \<Rightarrow> nat \<Rightarrow> nat \<Rightarrow> 'h fsb_allocator \<Rightarrow> block multiset \<Rightarrow> bool" where
  "fsb_inv hinv lo hi s L =
     (\<exists>Ls. fsb_lists s Ls \<and> hinv (fs_fallback s) (held L Ls) \<and>
        (\<forall>b \<in># held L Ls. block_ok lo hi b) \<and> pairwise_mset disjoint_blocks (held L Ls) \<and>
        (\<forall>c \<in># L. good_layout (snd c)))"

text \<open>
  Between calls the program writes into its blocks and the fallback heap into memory it has
  not handed out; nodes elsewhere survive. The fallback's own view of memory may change inside
  the blocks that are held from it (\<open>hwr\<close>).
\<close>

definition fsb_wr ::
  "(block multiset \<Rightarrow> 'h \<Rightarrow> 'h \<Rightarrow> bool) \<Rightarrow> block multiset \<Rightarrow> 'h fsb_allocator \<Rightarrow> 'h fsb_allocator \<Rightarrow> bool" where
  "fsb_wr hwr L s s' =
     (fs_list_heads s' = fs_list_heads s \<and>
      (\<exists>Ls. fsb_lists s Ls \<and> hwr (held L Ls) (fs_fallback s) (fs_fallback s') \<and>
        (\<forall>a. (\<forall>c \<in># L. unat a + 8 \<le> block_lo c \<or> block_hi c \<le> unat a) \<and>
             (\<exists>b \<in># held L Ls. block_lo b \<le> unat a \<and> unat a + 8 \<le> block_hi b) \<longrightarrow>
           fs_mem s' a = fs_mem s a)))"

lemma fall_block_bounds:
  assumes "good_layout (snd c)"
  shows "block_lo (fall_block c) = block_lo c" "block_hi c \<le> block_hi (fall_block c)"
  using fall_layout_props(2) [OF assms] by (simp_all add: fall_block_def block_defs)

text \<open>From the block held from the fallback to the block the program sees.\<close>

lemma fall_block_ok:
  assumes "good_layout l" "block_ok lo hi (fall_block (p, l))"
    and "\<forall>b \<in># held L Ls. disjoint_blocks (fall_block (p, l)) b" "\<forall>c \<in># L. good_layout (snd c)"
  shows "block_ok lo hi (p, l)" "\<forall>c \<in># L. disjoint_blocks (p, l) c"
proof -
  show "block_ok lo hi (p, l)"
    using assms(2) fall_layout_props(2,3) [OF assms(1)]
    by (auto simp: block_ok_def block_defs fall_block_def intro: dvd_trans)
  show "\<forall>c \<in># L. disjoint_blocks (p, l) c"
  proof
    fix c assume c: "c \<in># L"
    then have "fall_block c \<in># held L Ls" by (simp add: held_def)
    with assms(3) have "disjoint_blocks (fall_block (p, l)) (fall_block c)" by blast
    then show "disjoint_blocks (p, l) c"
      using c assms(1,4) fall_block_bounds [of c] fall_block_bounds [of "(p, l)"]
      by (auto simp: disjoint_blocks_def)
  qed
qed

text \<open>A request is served from its list when that list is not empty, else by the fallback.\<close>

lemma fsb_alloc_hit:
  assumes "fsb_lists s Ls" "list_index l = Some i" "Ls ! i = a # as"
  shows "\<exists>nd. fs_mem s a = Some nd \<and> fs_chain (fs_mem s) (fn_next nd) as \<and>
    fsb_alloc H s l = Some (Inr (a,
      s\<lparr>fs_list_heads := (fs_list_heads s)[i := fn_next nd],
        fs_mem := (fs_mem s)(a \<mapsto> nd\<lparr>fn_next := None\<rparr>)\<rparr>))"
proof -
  have i: "i < 9" using assms(2) by (simp add: list_index_Some_iff)
  then have "fs_chain (fs_mem s) (fs_list_heads s ! i) (a # as)" "i < length (fs_list_heads s)"
    using assms(1,3) by (auto simp: fsb_lists_def)
  then show ?thesis using assms(2) by (auto simp: fsb_alloc_def fs_chain_Cons)
qed

lemma fsb_alloc_miss:
  assumes "fsb_lists s Ls" "\<forall>i. list_index l = Some i \<longrightarrow> Ls ! i = []"
  shows "fsb_alloc H s l = fallback_alloc H s (fall_layout l)"
proof (cases "list_index l")
  case None
  then show ?thesis by (simp add: fsb_alloc_def fall_layout_def)
next
  case (Some i)
  then have i: "i < 9" by (simp add: list_index_Some_iff)
  moreover have "fs_chain (fs_mem s) (fs_list_heads s ! i) []" "i < length (fs_list_heads s)"
    using i assms Some by (auto simp: fsb_lists_def)
  ultimately show ?thesis
    using Some by (simp add: fsb_alloc_def fall_layout_def from_size_align_block)
qed

lemma fsb_alloc_missD:
  assumes "fsb_lists s Ls" "\<forall>i. list_index l = Some i \<longrightarrow> Ls ! i = []"
    and "fsb_alloc H s l = Some (Inr (p, s'))"
  shows "\<exists>h. heap_alloc H (fs_fallback s) (fall_layout l) = Some (Inr (p, h)) \<and> s' = s\<lparr>fs_fallback := h\<rparr>"
  using assms(3) unfolding fsb_alloc_miss [OF assms(1,2)] fallback_alloc_eq_Inr .

lemma fsb_request_cases:
  obtains i a as where "list_index l = Some i" "Ls ! i = a # as"
  | "\<forall>i. list_index l = Some i \<longrightarrow> Ls ! i = []"
  by (metis neq_Nil_conv)

text \<open>Popping a block leaves the held blocks as they were; only their owner changes.\<close>

lemma held_pop:
  assumes "list_index l = Some i" "Ls ! i = a # as" "length Ls = 9"
  shows "held L Ls = add_mset (a, block_layout i) (held L (Ls[i := as]))"
    and "held (add_mset (a, l) L) (Ls[i := as]) = held L Ls"
proof -
  have "i < 9" using assms(1) by (simp add: list_index_Some_iff)
  moreover have "Ls[i := a # as] = Ls" using assms(2) list_update_id [of Ls i] by simp
  ultimately show eq: "held L Ls = add_mset (a, block_layout i) (held L (Ls[i := as]))"
    using free_blocks_upd [of i Ls a as] assms(3) by (simp add: held_def)
  show "held (add_mset (a, l) L) (Ls[i := as]) = held L Ls"
    using assms(1) unfolding eq by (simp add: held_def fall_block_def fall_layout_def)
qed

lemma pop_lists:
  assumes "fsb_lists s Ls" "i < 9" "fs_mem s a = Some nd" "fs_chain (fs_mem s) (fn_next nd) as"
    and "\<forall>j < 9. a \<notin> set (Ls[i := as] ! j)"
  shows "fsb_lists (s\<lparr>fs_list_heads := (fs_list_heads s)[i := fn_next nd],
      fs_mem := (fs_mem s)(a \<mapsto> nd')\<rparr>) (Ls[i := as])"
proof -
  have "fs_chain ((fs_mem s)(a \<mapsto> nd')) ((fs_list_heads s)[i := fn_next nd] ! j) (Ls[i := as] ! j)"
    if j: "j < 9" for j
  proof -
    have "fs_chain ((fs_mem s)(a \<mapsto> nd')) p (Ls[i := as] ! j) = fs_chain (fs_mem s) p (Ls[i := as] ! j)" for p
      using assms(5) j by (intro fs_chain_cong) (metis fun_upd_other)
    then show ?thesis
      using assms(1,2,4) j by (cases "j = i") (auto simp: fsb_lists_def)
  qed
  then show ?thesis using assms(1) by (simp add: fsb_lists_def)
qed

lemma push_lists:
  assumes "fsb_lists s Ls" "i < 9" "\<forall>j < 9. p \<notin> set (Ls ! j)"
  shows "fsb_lists (s\<lparr>fs_mem := (fs_mem s)(p \<mapsto> \<lparr>fn_next = fs_list_heads s ! i\<rparr>),
      fs_list_heads := (fs_list_heads s)[i := Some p]\<rparr>) (Ls[i := p # Ls ! i])"
proof -
  let ?m = "(fs_mem s)(p \<mapsto> \<lparr>fn_next = fs_list_heads s ! i\<rparr>)"
  have "fs_chain ?m (fs_list_heads s ! j) (Ls ! j)" if j: "j < 9" for j
  proof -
    have "fs_chain ?m (fs_list_heads s ! j) (Ls ! j) = fs_chain (fs_mem s) (fs_list_heads s ! j) (Ls ! j)"
      using assms(3) j by (intro fs_chain_cong) (metis fun_upd_other)
    then show ?thesis using assms(1) j by (simp add: fsb_lists_def)
  qed
  then have "fs_chain ?m ((fs_list_heads s)[i := Some p] ! j) (Ls[i := p # Ls ! i] ! j)" if "j < 9" for j
    using assms(1,2) that by (cases "j = i") (auto simp: fsb_lists_def fs_chain_Cons)
  then show ?thesis using assms(1) by (simp add: fsb_lists_def)
qed

section \<open>The allocator implements the contract\<close>

text \<open>
  The contract that \<open>linked_list_allocator::Heap\<close> documents: what it hands out is aligned, in
  the heap and not in use, and it takes back what it has handed out. Over any heap that keeps
  it, the fixed-size-block allocator keeps the contract of \<open>GlobalAlloc\<close>.
\<close>

locale fallback_heap = hp: global_alloc "heap_alloc H" "hp_deallocate H" hwr hinv lo hi
  for H :: "'h heap_ops" and hwr hinv lo hi
begin

lemma alloc_spec:
  assumes "fsb_inv hinv lo hi s L" "good_layout l" "fsb_alloc H s l = Some (Inr (p, s'))" "p \<noteq> 0"
  shows "block_ok lo hi (p, l) \<and> (\<forall>b \<in># L. disjoint_blocks (p, l) b) \<and>
    fsb_inv hinv lo hi s' (add_mset (p, l) L)"
proof -
  obtain Ls where Ls: "fsb_lists s Ls" "hinv (fs_fallback s) (held L Ls)"
    "\<forall>b \<in># held L Ls. block_ok lo hi b" "pairwise_mset disjoint_blocks (held L Ls)"
    "\<forall>c \<in># L. good_layout (snd c)"
    using assms(1) by (auto simp: fsb_inv_def)
  have len: "length Ls = 9" using Ls(1) by (simp add: fsb_lists_def)
  show ?thesis
  proof (cases rule: fsb_request_cases [of l Ls])
    case (1 i a as)
    let ?Ls = "Ls[i := as]"
    have i: "i < 9" using 1 by (simp add: list_index_Some_iff)
    note h = held_pop [OF 1 len, of L]
    obtain nd where nd: "fs_mem s a = Some nd" "fs_chain (fs_mem s) (fn_next nd) as"
      "p = a" "s' = s\<lparr>fs_list_heads := (fs_list_heads s)[i := fn_next nd],
        fs_mem := (fs_mem s)(a \<mapsto> nd\<lparr>fn_next := None\<rparr>)\<rparr>"
      using fsb_alloc_hit [OF Ls(1) 1, of H] assms(3) by auto
    have fb: "fall_block (a, l) = (a, block_layout i)"
      using 1 by (simp add: fall_block_def fall_layout_def)
    have d: "\<forall>b \<in># held L ?Ls. disjoint_blocks (a, block_layout i) b"
      using Ls(4) unfolding h(1) by (simp add: pairwise_disjoint_add)
    then have "a \<notin> set (?Ls ! j)" if "j < 9" for j
      using that len block_layout_size(1) [OF i] by (intro not_on_lists) (auto simp: held_def)
    then have "fsb_lists s' ?Ls" using pop_lists [OF Ls(1) i nd(1,2)] nd(4) by simp
    then have "fsb_inv hinv lo hi s' (add_mset (a, l) L)"
      using Ls assms(2) nd(4) unfolding fsb_inv_def h(2) [symmetric] by (intro exI [of _ ?Ls]) simp
    moreover have "block_ok lo hi (fall_block (a, l))" using Ls(3) by (simp add: h(1) fb)
    then have "block_ok lo hi (a, l)" "\<forall>b \<in># L. disjoint_blocks (a, l) b"
      using fall_block_ok [OF assms(2) _ _ Ls(5), of lo hi a ?Ls] d fb by simp_all
    ultimately show ?thesis using nd(3) by simp
  next
    case 2
    then obtain h where h: "heap_alloc H (fs_fallback s) (fall_layout l) = Some (Inr (p, h))"
      "s' = s\<lparr>fs_fallback := h\<rparr>"
      using fsb_alloc_missD [OF Ls(1) _ assms(3)] by blast
    note g = fall_layout_props(1) [OF assms(2)]
    have ok: "block_ok lo hi (fall_block (p, l))" "\<forall>b \<in># held L Ls. disjoint_blocks (fall_block (p, l)) b"
      using hp.alloc_block [OF Ls(2) g h(1) assms(4)] by (simp_all add: fall_block_def)
    have eq: "held (add_mset (p, l) L) Ls = add_mset (fall_block (p, l)) (held L Ls)"
      by (simp add: held_def)
    have "hinv h (held (add_mset (p, l) L) Ls)"
      using hp.alloc_inv [OF Ls(2) g h(1) assms(4)] by (simp add: eq fall_block_def)
    then have "fsb_inv hinv lo hi s' (add_mset (p, l) L)"
      using Ls ok assms(2) h(2) unfolding fsb_inv_def
      by (intro exI [of _ Ls]) (simp add: eq pairwise_disjoint_add fsb_lists_def)
    then show ?thesis using fall_block_ok [OF assms(2) ok Ls(5)] by blast
  qed
qed

lemma alloc_refused:
  assumes "fsb_inv hinv lo hi s L" "good_layout l" "fsb_alloc H s l = Some (Inr (0, s'))"
  shows "fsb_inv hinv lo hi s' L"
proof -
  obtain Ls where Ls: "fsb_lists s Ls" "hinv (fs_fallback s) (held L Ls)"
    "\<forall>b \<in># held L Ls. block_ok lo hi b" "pairwise_mset disjoint_blocks (held L Ls)"
    "\<forall>c \<in># L. good_layout (snd c)"
    using assms(1) by (auto simp: fsb_inv_def)
  have len: "length Ls = 9" using Ls(1) by (simp add: fsb_lists_def)
  show ?thesis
  proof (cases rule: fsb_request_cases [of l Ls])
    case (1 i a as)
    then have "a = 0" using fsb_alloc_hit [OF Ls(1) 1, of H] assms(3) by auto
    moreover have "block_ok lo hi (a, block_layout i)"
      using Ls(3) held_pop(1) [OF 1 len, of L] by simp
    ultimately show ?thesis by (simp add: block_ok_def)
  next
    case 2
    then obtain h where h: "heap_alloc H (fs_fallback s) (fall_layout l) = Some (Inr (0, h))"
      "s' = s\<lparr>fs_fallback := h\<rparr>"
      using fsb_alloc_missD [OF Ls(1) _ assms(3)] by blast
    have "hinv h (held L Ls)"
      by (rule hp.alloc_null [OF Ls(2) fall_layout_props(1) [OF assms(2)] h(1)])
    then show ?thesis
      using Ls h(2) unfolding fsb_inv_def by (intro exI [of _ Ls]) (simp add: fsb_lists_def)
  qed
qed

lemma alloc_ends:
  assumes "fsb_inv hinv lo hi s L" "good_layout l"
  shows "\<exists>r. fsb_alloc H s l = Some r"
proof -
  obtain Ls where Ls: "fsb_lists s Ls" "hinv (fs_fallback s) (held L Ls)"
    using assms(1) by (auto simp: fsb_inv_def)
  show ?thesis
  proof (cases rule: fsb_request_cases [of l Ls])
    case 1
    then show ?thesis using fsb_alloc_hit [OF Ls(1) 1, of H] by auto
  next
    case 2
    then show ?thesis
      using hp.alloc_returns [OF Ls(2) fall_layout_props(1) [OF assms(2)]] fsb_alloc_miss [OF Ls(1), of l H]
      by (auto simp: fallback_alloc_eq)
  qed
qed

lemma dealloc_spec:
  assumes "fsb_inv hinv lo hi s (add_mset (p, l) L)"
  shows "\<exists>s'. fsb_dealloc H s p l = Inr s' \<and> fsb_inv hinv lo hi s' L"
proof -
  obtain Ls where Ls: "fsb_lists s Ls" "hinv (fs_fallback s) (held (add_mset (p, l) L) Ls)"
    "\<forall>b \<in># held (add_mset (p, l) L) Ls. block_ok lo hi b"
    "pairwise_mset disjoint_blocks (held (add_mset (p, l) L) Ls)"
    "good_layout l" "\<forall>c \<in># L. good_layout (snd c)"
    using assms by (auto simp: fsb_inv_def)
  have len: "length Ls = 9" using Ls(1) by (simp add: fsb_lists_def)
  have eq: "held (add_mset (p, l) L) Ls = add_mset (fall_block (p, l)) (held L Ls)"
    by (simp add: held_def)
  have d: "\<forall>b \<in># held L Ls. disjoint_blocks (fall_block (p, l)) b"
    using Ls(4) by (simp add: eq pairwise_disjoint_add)
  show ?thesis
  proof (cases "list_index l")
    case (Some i)
    then have i: "i < 9" by (simp add: list_index_Some_iff)
    let ?Ls = "Ls[i := p # Ls ! i]"
    let ?s = "s\<lparr>fs_mem := (fs_mem s)(p \<mapsto> \<lparr>fn_next = fs_list_heads s ! i\<rparr>),
      fs_list_heads := (fs_list_heads s)[i := Some p]\<rparr>"
    have fb: "fall_block (p, l) = (p, block_layout i)"
      using Some by (simp add: fall_block_def fall_layout_def)
    have "8 \<le> BLOCK_SIZES ! i"
      using block_layout_size(2) [OF i] by (simp add: block_layout_def word_le_nat_alt)
    then have "fsb_dealloc H s p l = Inr ?s"
      using Some i Ls(1)
      by (simp add: fsb_dealloc_def SIZE_OF_FS_NODE_def ALIGN_OF_FS_NODE_def fsb_lists_def)
    moreover have "p \<notin> set (Ls ! j)" if "j < 9" for j
      using that len block_layout_size(1) [OF i] d by (intro not_on_lists) (auto simp: held_def fb)
    then have "fsb_lists ?s ?Ls" by (intro push_lists [OF Ls(1) i]) blast
    moreover have "held L ?Ls = held (add_mset (p, l) L) Ls"
      using held_pop(2) [OF Some, of ?Ls p "Ls ! i" L] i len by simp
    ultimately show ?thesis
      using Ls unfolding fsb_inv_def by (intro exI [of _ ?s] conjI exI [of _ ?Ls]) simp_all
  next
    case None
    then have fb: "fall_block (p, l) = (p, l)" by (simp add: fall_block_def fall_layout_def)
    obtain h where h: "hp_deallocate H (fs_fallback s) p l = Inr h" "hinv h (held L Ls)"
      using hp.dealloc_inv [of "fs_fallback s" p l "held L Ls"] Ls(2) by (auto simp: eq fb)
    have "p \<noteq> 0" using Ls(3) by (simp add: eq fb block_ok_def)
    then have "fsb_dealloc H s p l = Inr (s\<lparr>fs_fallback := h\<rparr>)"
      using None h(1) by (simp add: fsb_dealloc_def)
    moreover have "fsb_inv hinv lo hi (s\<lparr>fs_fallback := h\<rparr>) L"
      using Ls h(2) unfolding fsb_inv_def
      by (intro exI [of _ Ls]) (simp add: eq fsb_lists_def pairwise_disjoint_add)
    ultimately show ?thesis by blast
  qed
qed

lemma write_spec:
  assumes "fsb_inv hinv lo hi s L" "fsb_wr hwr L s s'"
  shows "fsb_inv hinv lo hi s' L"
proof -
  obtain Ls where Ls: "fsb_lists s Ls" "hinv (fs_fallback s) (held L Ls)"
    "\<forall>b \<in># held L Ls. block_ok lo hi b" "pairwise_mset disjoint_blocks (held L Ls)"
    "\<forall>c \<in># L. good_layout (snd c)"
    using assms(1) by (auto simp: fsb_inv_def)
  have len: "length Ls = 9" using Ls(1) by (simp add: fsb_lists_def)
  from assms(2) have heads: "fs_list_heads s' = fs_list_heads s"
    and hw: "hwr (held L Ls) (fs_fallback s) (fs_fallback s')"
    and mem: "\<And>a. (\<forall>c \<in># L. unat a + 8 \<le> block_lo c \<or> block_hi c \<le> unat a) \<Longrightarrow>
        (\<exists>b \<in># held L Ls. block_lo b \<le> unat a \<and> unat a + 8 \<le> block_hi b) \<Longrightarrow> fs_mem s' a = fs_mem s a"
    using fsb_lists_unique [OF Ls(1)] by (auto simp: fsb_wr_def)
  have "fs_mem s' a = fs_mem s a" if a: "a \<in> set (Ls ! i)" and i: "i < 9" for a i
  proof (rule mem)
    let ?b = "(a, block_layout i)"
    have m: "?b \<in># free_blocks Ls" by (rule free_blocks_mem [OF i len a])
    then have b: "?b \<in># held L Ls" by (simp add: held_def)
    moreover have "block_lo ?b = unat a" "unat a + 8 \<le> block_hi ?b"
      using block_layout_size(2) [OF i] by (simp_all add: block_defs)
    ultimately show "\<exists>b \<in># held L Ls. block_lo b \<le> unat a \<and> unat a + 8 \<le> block_hi b"
      by (intro bexI [of _ ?b]) simp_all
    show "\<forall>c \<in># L. unat a + 8 \<le> block_lo c \<or> block_hi c \<le> unat a"
    proof
      fix c assume c: "c \<in># L"
      have "held L Ls = add_mset ?b (image_mset fall_block L + (free_blocks Ls - {#?b#}))"
        using m by (simp add: held_def)
      then have "disjoint_blocks ?b (fall_block c)"
        using Ls(4) c by (simp add: pairwise_disjoint_add)
      then show "unat a + 8 \<le> block_lo c \<or> block_hi c \<le> unat a"
        using fall_block_bounds [of c] Ls(5) c block_layout_size(2) [OF i]
        by (auto simp: disjoint_blocks_def block_defs)
    qed
  qed
  then have "fs_chain (fs_mem s') p (Ls ! i) = fs_chain (fs_mem s) p (Ls ! i)" if "i < 9" for p i
    using that by (intro fs_chain_cong) blast
  then have "fsb_lists s' Ls" using Ls(1) heads by (simp add: fsb_lists_def)
  then show ?thesis
    using Ls hp.wr_inv [OF Ls(2) hw] unfolding fsb_inv_def by blast
qed

end

sublocale fallback_heap \<subseteq> fsb: global_alloc "fsb_alloc H" "fsb_dealloc H" "fsb_wr hwr"
  "fsb_inv hinv lo hi" lo hi
  by unfold_locales (use alloc_spec alloc_refused alloc_ends dealloc_spec write_spec in blast)+

lemma fsb_init_inv:
  assumes "fsb_init H (fsb_new H m) a n = Inr s" "hinv (fs_fallback s) {#}"
  shows "fsb_inv hinv lo hi s {#}"
proof -
  have heads: "fs_list_heads s = replicate 9 None"
    using assms(1) by (auto simp: fsb_init_def fsb_new_def rbind_simps)
  then have "fsb_lists s (replicate 9 [])" by (simp add: fsb_lists_def)
  moreover have "held {#} (replicate 9 []) = {#}" by (simp add: held_def free_blocks_Nil)
  ultimately show ?thesis using assms(2) unfolding fsb_inv_def by (intro exI) auto
qed

text \<open>
  The linked-list allocator of this repository is such a heap: it can stand in for the
  third-party one, and then the whole stack is code of this repository.
\<close>

definition ll_heap_ops :: "ll_allocator heap_ops" where
  "ll_heap_ops =
     \<lparr>hp_empty = ll_new Map.empty, hp_init = ll_init,
      hp_allocate_first_fit = (\<lambda>h l. map_option (\<lambda>r. rbind r (\<lambda>(p, h').
        Inr (if p = 0 then None else Some p, h'))) (ll_alloc h l)),
      hp_deallocate = ll_dealloc\<rparr>"

lemma heap_alloc_ll: "heap_alloc ll_heap_ops = ll_alloc"
proof (intro ext)
  fix h l
  show "heap_alloc ll_heap_ops h l = ll_alloc h l"
  proof (cases "ll_alloc h l")
    case (Some r)
    then show ?thesis by (cases r) (auto simp: heap_alloc_def ll_heap_ops_def)
  qed (simp add: heap_alloc_def ll_heap_ops_def)
qed

interpretation fsb_ll: fallback_heap ll_heap_ops ll_wr "ll_inv lo hi" lo hi
  for lo hi
proof -
  have "hp_deallocate ll_heap_ops = ll_dealloc" by (simp add: ll_heap_ops_def)
  then show "fallback_heap ll_heap_ops ll_wr (ll_inv lo hi) lo hi"
    unfolding fallback_heap_def heap_alloc_ll using ll.global_alloc_axioms by simp
qed

text \<open>Facts about runs of the allocator over a heap that keeps the contract.\<close>

context fallback_heap
begin

lemma fsb_run_blocks:
  assumes "fsb_init H (fsb_new H m) a n = Inr s0" "hinv (fs_fallback s0) {#}"
    and "heap_run (fsb_alloc H) (fsb_dealloc H) (fsb_wr hwr) s0 s L"
  shows "(\<forall>c \<in># L. block_ok lo hi c) \<and> pairwise_mset disjoint_blocks L"
  using fsb.run_blocks [OF assms(3) fsb_init_inv [of H m a n s0 hinv, OF assms(1,2)]] .

lemma fsb_run_dealloc:
  assumes "fsb_init H (fsb_new H m) a n = Inr s0" "hinv (fs_fallback s0) {#}"
    and "heap_run (fsb_alloc H) (fsb_dealloc H) (fsb_wr hwr) s0 s (add_mset (p, l) L)"
  shows "\<exists>s'. fsb_dealloc H s p l = Inr s'"
  using fsb.run_dealloc_ok [OF assms(3) fsb_init_inv [of H m a n s0 hinv, OF assms(1,2)]] by blast

end

lemma fsb_alloc_panic_iff:
  assumes "fsb_lists s Ls"
  shows "fsb_alloc H s l = Some (Inl e) \<longleftrightarrow>
    (\<forall>i. list_index l = Some i \<longrightarrow> Ls ! i = []) \<and>
    hp_allocate_first_fit H (fs_fallback s) (fall_layout l) = Some (Inl e)"
proof (cases rule: fsb_request_cases [of l Ls])
  case (1 i p ps)
  then show ?thesis using fsb_alloc_hit [OF assms 1, of H] by auto
next
  case 2
  then have "fsb_alloc H s l = Some (Inl e) \<longleftrightarrow> fallback_alloc H s (fall_layout l) = Some (Inl e)"
    using fsb_alloc_miss [OF assms, of l H] by simp
  also have "\<dots> \<longleftrightarrow> hp_allocate_first_fit H (fs_fallback s) (fall_layout l) = Some (Inl e)"
    by (auto simp: fallback_alloc_def split: option.splits sum.splits)
  finally show ?thesis using 2 by simp
qed

lemma fsb_dealloc_alloc:
  assumes "length (fs_list_heads s) = 9" "list_index l = Some i" "list_index l' = Some i"
  shows "\<exists>s' s''. fsb_dealloc H s p l = Inr s' \<and> fsb_alloc H s' l' = Some (Inr (p, s'')) \<and>
    fs_list_heads s'' = fs_list_heads s \<and> fs_fallback s'' = fs_fallback s \<and>
    (\<forall>a. a \<noteq> p \<longrightarrow> fs_mem s'' a = fs_mem s a)"
proof -
  have i: "i < 9" using assms(2) by (simp add: list_index_Some_iff)
  have "8 \<le> BLOCK_SIZES ! i"
    using block_layout_size(2) [OF i] by (simp add: block_layout_def word_le_nat_alt)
  then show ?thesis
    using assms i
    by (simp add: fsb_dealloc_def fsb_alloc_def SIZE_OF_FS_NODE_def ALIGN_OF_FS_NODE_def)
qed

text \<open>A returned box is the block of the next one, so a loop over boxes settles on one block.\<close>

lemma list_index_usize: "list_index usize_layout = Some 0"
  by (simp add: list_index_def usize_layout_def BLOCK_SIZES_def)

lemma box_dealloc:
  assumes "length (fs_list_heads s) = 9"
  shows "fsb_dealloc H s p usize_layout =
    Inr (s\<lparr>fs_mem := (fs_mem s)(p \<mapsto> \<lparr>fn_next = fs_list_heads s ! 0\<rparr>),
           fs_list_heads := (fs_list_heads s)[0 := Some p]\<rparr>)"
  using assms
  by (simp add: fsb_dealloc_def list_index_usize BLOCK_SIZES_def SIZE_OF_FS_NODE_def ALIGN_OF_FS_NODE_def)

lemma fsb_alloc_length:
  "fsb_alloc H s l = Some (Inr (p, s')) \<Longrightarrow> length (fs_list_heads s') = length (fs_list_heads s)"
  by (auto simp: fsb_alloc_def fallback_alloc_def split: option.splits sum.splits prod.splits)

lemma many_boxes_settle:
  assumes "length (fs_list_heads s) = 9" "fs_list_heads s ! 0 = Some p" "fs_mem s p \<noteq> None" "p \<noteq> 0"
  shows "many_boxes H n s = Some (Inr (replicate n p, s))"
proof (induction n)
  case (Suc n)
  obtain nd where nd: "fs_mem s p = Some nd" using assms(3) by blast
  define s1 where "s1 = s\<lparr>fs_list_heads := (fs_list_heads s)[0 := fn_next nd], fs_mem := (fs_mem s)(p := None)\<rparr>"
  have "box_new H s usize_layout = Some (Inr (p, s1))"
    using assms nd by (simp add: box_new_def fsb_alloc_def list_index_usize null_mut_def s1_def)
  moreover have "fsb_dealloc H s1 p usize_layout = Inr s"
  proof -
    have "(fs_list_heads s)[0 := Some p] = fs_list_heads s"
      using assms(2) list_update_id [of "fs_list_heads s" 0] by simp
    moreover have "(fs_mem s)(p \<mapsto> \<lparr>fn_next = fn_next nd\<rparr>) = fs_mem s" using nd by auto
    ultimately show ?thesis using assms(1) by (simp add: box_dealloc s1_def)
  qed
  ultimately show ?case using Suc.IH by simp
qed simp

section \<open>A concrete heap, for the witnesses\<close>

abbreviation (input) ex_fsb :: "ll_allocator fsb_allocator" where
  "ex_fsb \<equiv> \<lparr>fs_list_heads = replicate 9 None, fs_fallback = ex_ll, fs_mem = Map.empty\<rparr>"

lemma ex_fsb_init: "fsb_init ll_heap_ops (fsb_new ll_heap_ops Map.empty) 4096 1024 = Inr ex_fsb"
  using ex_ll_init by (simp add: fsb_init_def fsb_new_def ll_heap_ops_def)

lemma ex_fsb_lists: "fsb_lists ex_fsb (replicate 9 [])"
  by (simp add: fsb_lists_def)

lemma list_index_24: "list_index (ex_layout 24) = Some 2"
  by (simp add: list_index_def BLOCK_SIZES_def)

lemma ex_fsb_alloc:
  "\<exists>s. fsb_alloc ll_heap_ops ex_fsb (ex_layout 24) = Some (Inr (4096, s)) \<and> fs_list_heads s = replicate 9 None"
proof -
  have p: "is_power_of_two 32" by (auto simp: is_power_of_two_iff intro!: exI [of _ 5])
  have "block_layout 2 = \<lparr>l_size = 32, l_align = 32\<rparr>" by (simp add: block_layout_def BLOCK_SIZES_def)
  then have fl: "fall_layout (ex_layout 24) = \<lparr>l_size = 32, l_align = 32\<rparr>"
    by (simp add: fall_layout_def list_index_24)
  have sa: "size_align \<lparr>l_size = 32, l_align = 32\<rparr> = Inr (32, 32)"
    using p by (simp add: size_align_def align_to_def from_size_align_def valid_layout_def pad_to_align_def
        ALIGN_OF_NODE_def SIZE_OF_NODE_def)
  have "align_up 4096 32 = Inr 4096" by (simp add: align_up_aligned [OF p])
  then obtain h where "ll_alloc ex_ll \<lparr>l_size = 32, l_align = 32\<rparr> = Some (Inr (4096, h))"
    using ll_alloc_fit [of "[]" "(4096, ex_layout 1024)" "[]", OF _ sa, of 4096 5120 ex_ll "{#}" 4096]
      ex_ll_inv p by (simp add: block_defs)
  then have "fallback_alloc ll_heap_ops ex_fsb (fall_layout (ex_layout 24)) = Some (Inr (4096, ex_fsb\<lparr>fs_fallback := h\<rparr>))"
    by (simp add: fallback_alloc_eq heap_alloc_ll fl)
  moreover have "\<forall>i. list_index (ex_layout 24) = Some i \<longrightarrow> replicate 9 ([] :: usize list) ! i = []"
    by (simp add: list_index_24)
  ultimately show ?thesis using fsb_alloc_miss [OF ex_fsb_lists, of "ex_layout 24" ll_heap_ops] by auto
qed

text \<open>The first box of a heap is at its start.\<close>

lemma first_box:
  assumes "ll_inv_with [(a, ex_layout n)] lo hi h {#}" "unat a + 8 < 2 ^ 64" "8 dvd unat a"
    and "32 \<le> unat n"
  shows "\<exists>s. fsb_alloc ll_heap_ops \<lparr>fs_list_heads = replicate 9 None, fs_fallback = h, fs_mem = m\<rparr> usize_layout =
    Some (Inr (a, s))"
proof -
  let ?s = "\<lparr>fs_list_heads = replicate 9 None, fs_fallback = h, fs_mem = m\<rparr>"
  have p: "is_power_of_two 8" by (auto simp: is_power_of_two_iff intro!: exI [of _ 3])
  have fl: "fall_layout usize_layout = \<lparr>l_size = 8, l_align = 8\<rparr>"
    by (simp add: fall_layout_def list_index_usize block_layout_def BLOCK_SIZES_def)
  have sa: "size_align \<lparr>l_size = 8, l_align = 8\<rparr> = Inr (16, 8)"
    using p by (simp add: size_align_def align_to_def from_size_align_def valid_layout_def pad_to_align_def
        ALIGN_OF_NODE_def SIZE_OF_NODE_def)
  have "align_up a 8 = Inr a" using assms(2,3) by (simp add: align_up_aligned [OF p])
  moreover have "\<not> unat n - 16 < 16" using assms(4) by simp
  ultimately obtain h' where "ll_alloc h \<lparr>l_size = 8, l_align = 8\<rparr> = Some (Inr (a, h'))"
    using ll_alloc_fit [of "[]" "(a, ex_layout n)" "[]", OF _ sa, of lo hi h "{#}" a] assms(1,4) p
    by (simp add: block_defs)
  then have "fallback_alloc ll_heap_ops ?s (fall_layout usize_layout) = Some (Inr (a, ?s\<lparr>fs_fallback := h'\<rparr>))"
    by (simp add: fallback_alloc_eq heap_alloc_ll fl)
  moreover have "\<forall>i. list_index usize_layout = Some i \<longrightarrow> replicate 9 ([] :: usize list) ! i = []"
    by (simp add: list_index_usize)
  moreover have "fsb_lists ?s (replicate 9 [])" by (simp add: fsb_lists_def)
  ultimately show ?thesis using fsb_alloc_miss [of ?s "replicate 9 []" usize_layout ll_heap_ops] by auto
qed

lemma ex_fsb_alloc_usize: "\<exists>s. fsb_alloc ll_heap_ops ex_fsb usize_layout = Some (Inr (4096, s))"
  using first_box [OF ex_ll_inv] by simp

section \<open>Properties\<close>

text \<open>
  C1: over any fallback heap that keeps its contract, and for any sequence of requests,
  returns and writes into held blocks, the blocks a program holds from the kernel's allocator
  lie in the heap, are aligned as requested, and never overlap.
\<close>

theorem fsb_heap_safe:
  assumes "fallback_heap H hwr hinv lo hi"
    and "fsb_init H (fsb_new H m) a n = Inr s0" "hinv (fs_fallback s0) {#}"
    and "heap_run (fsb_alloc H) (fsb_dealloc H) (fsb_wr hwr) s0 s L"
  shows "(\<forall>c \<in># L. block_ok lo hi c) \<and> pairwise_mset disjoint_blocks L"
  by (rule fallback_heap.fsb_run_blocks [OF assms])

lemma ex_fsb_fallback: "ll_inv 4096 5120 (fs_fallback ex_fsb) {#}"
  using ex_ll_inv by (auto simp: ll_inv_def)

lemma ex_fsb_run:
  "\<exists>s. heap_run (fsb_alloc ll_heap_ops) (fsb_dealloc ll_heap_ops) (fsb_wr ll_wr) ex_fsb s
     {#(4096, ex_layout 24)#}"
proof -
  obtain s where s: "fsb_alloc ll_heap_ops ex_fsb (ex_layout 24) = Some (Inr (4096, s))"
    using ex_fsb_alloc by blast
  show ?thesis
    by (rule exI, rule heap_run.request [where alloc = "fsb_alloc ll_heap_ops",
        OF heap_run.start ex_ll_alloc(2) s]) simp
qed

theorem fsb_heap_safe_witness: "block_ok 4096 5120 (4096, ex_layout 24)"
proof -
  obtain s where r: "heap_run (fsb_alloc ll_heap_ops) (fsb_dealloc ll_heap_ops) (fsb_wr ll_wr) ex_fsb s
     {#(4096, ex_layout 24)#}"
    using ex_fsb_run by blast
  show ?thesis
    using fsb_heap_safe [OF fsb_ll.fallback_heap_axioms ex_fsb_init ex_fsb_fallback r] by simp
qed

text \<open>
  C36: a program can always return a block it holds: \<open>dealloc\<close> does not panic, in any state a
  program can reach over a fallback heap that keeps its contract.
\<close>

theorem fsb_dealloc_never_panics:
  assumes "fallback_heap H hwr hinv lo hi"
    and "fsb_init H (fsb_new H m) a n = Inr s0" "hinv (fs_fallback s0) {#}"
    and "heap_run (fsb_alloc H) (fsb_dealloc H) (fsb_wr hwr) s0 s (add_mset (p, l) L)"
  shows "\<exists>s'. fsb_dealloc H s p l = Inr s'"
  by (rule fallback_heap.fsb_run_dealloc [OF assms])

theorem fsb_dealloc_never_panics_witness:
  "\<exists>s s'. fsb_dealloc ll_heap_ops s 4096 (ex_layout 24) = Inr s'"
proof -
  obtain s where r: "heap_run (fsb_alloc ll_heap_ops) (fsb_dealloc ll_heap_ops) (fsb_wr ll_wr) ex_fsb s
     {#(4096, ex_layout 24)#}"
    using ex_fsb_run by blast
  show ?thesis
    using fsb_dealloc_never_panics [OF fsb_ll.fallback_heap_axioms ex_fsb_init ex_fsb_fallback r] by blast
qed

text \<open>
  \<open>list_index\<close> chooses the smallest block size that is at least the size and the alignment
  of the layout, and none exactly when both do not fit in 2048.
\<close>

lemma list_index_least:
  "(list_index l = Some i \<longleftrightarrow>
     i < 9 \<and> max (unat (l_size l)) (unat (l_align l)) \<le> 2 ^ (i + 3) \<and>
     (\<forall>j < i. 2 ^ (j + 3) < max (unat (l_size l)) (unat (l_align l)))) \<and>
   (list_index l = None \<longleftrightarrow> 2048 < max (unat (l_size l)) (unat (l_align l)))"
  using list_index_Some_iff list_index_None_iff by blast

text \<open>
  A small block that has just been returned is the next one handed out for any layout of
  the same block size; the lists and the fallback heap are as before the return.
\<close>

lemma fsb_reuses_block:
  assumes "length (fs_list_heads s) = 9" "list_index l = Some i" "list_index l' = Some i"
  shows "\<exists>s' s''. fsb_dealloc H s p l = Inr s' \<and> fsb_alloc H s' l' = Some (Inr (p, s'')) \<and>
    fs_list_heads s'' = fs_list_heads s \<and> fs_fallback s'' = fs_fallback s \<and>
    (\<forall>a. a \<noteq> p \<longrightarrow> fs_mem s'' a = fs_mem s a)"
  using assms by (rule fsb_dealloc_alloc)

text \<open>
  \<open>alloc\<close> panics exactly when the list of the block size is empty and the fallback heap
  panics: the indexing and the \<open>unwrap\<close> of the block layout always succeed.
\<close>

lemma fsb_alloc_panics_only_in_fallback:
  assumes "fsb_lists s Ls"
  shows "fsb_alloc H s l = Some (Inl e) \<longleftrightarrow>
    (\<forall>i. list_index l = Some i \<longrightarrow> Ls ! i = []) \<and>
    hp_allocate_first_fit H (fs_fallback s) (fall_layout l) = Some (Inl e)"
  using assms by (rule fsb_alloc_panic_iff)

text \<open>
  C34: freed memory is reused: if the first box of the loop can be allocated, any number of
  rounds succeeds, every box is at the same address, and the fallback heap is left as the first
  allocation left it.
\<close>

theorem many_boxes_reuse_memory:
  assumes "length (fs_list_heads s) = 9" "fsb_alloc H s usize_layout = Some (Inr (p, s'))" "p \<noteq> null_mut"
  shows "\<exists>s''. many_boxes H (Suc n) s = Some (Inr (replicate (Suc n) p, s'')) \<and>
    fs_fallback s'' = fs_fallback s'"
proof -
  have len: "length (fs_list_heads s') = 9" using fsb_alloc_length [OF assms(2)] assms(1) by simp
  let ?s1 = "s'\<lparr>fs_mem := (fs_mem s')(p := None)\<rparr>"
  have b: "box_new H s usize_layout = Some (Inr (p, ?s1))" using assms(2,3) by (simp add: box_new_def)
  define s2 where "s2 = ?s1\<lparr>fs_mem := (fs_mem ?s1)(p \<mapsto> \<lparr>fn_next = fs_list_heads s' ! 0\<rparr>),
    fs_list_heads := (fs_list_heads s')[0 := Some p]\<rparr>"
  have d: "fsb_dealloc H ?s1 p usize_layout = Inr s2"
    using box_dealloc [of ?s1 H p] len by (simp add: s2_def)
  have "many_boxes H n s2 = Some (Inr (replicate n p, s2))"
    by (rule many_boxes_settle) (use assms(3) len in \<open>simp_all add: s2_def null_mut_def\<close>)
  then show ?thesis using b d by (simp add: s2_def)
qed

theorem many_boxes_reuse_memory_witness:
  "\<exists>s. many_boxes ll_heap_ops (unat HEAP_SIZE) ex_fsb = Some (Inr (replicate (unat HEAP_SIZE) 4096, s))"
proof -
  obtain s where s: "fsb_alloc ll_heap_ops ex_fsb usize_layout = Some (Inr (4096, s))"
    using ex_fsb_alloc_usize by blast
  have "unat HEAP_SIZE = Suc 102399" by (simp add: HEAP_SIZE_def)
  with many_boxes_reuse_memory [of ex_fsb, OF _ s, of 102399] show ?thesis
    by (auto simp: null_mut_def simp del: replicate_Suc many_boxes.simps)
qed

end
