(* ===== verification/Memory.thy ===== *)
theory Memory
  imports Prelude
begin

text \<open>
  \<^verbatim>\<open>src/memory.rs\<close>: the walk through the active page tables, the frame allocator over the
  bootloader's memory map, and the example mapping. The types of the crates \<open>x86_64\<close> and
  \<open>bootloader\<close> are type variables, their functions are the fields of the records below, and
  what the code relies on of them is stated by the predicates \<open>phys_spec\<close>, \<open>virt_spec\<close> and
  \<open>memory_map_spec\<close>.
\<close>

section \<open>The crates x86_64 and bootloader\<close>

text \<open>\<open>PhysAddr\<close> and \<open>PhysFrame\<close>.\<close>

record ('p, 'f) phys_ops =
  phys_new :: "u64 \<Rightarrow> 'p result"
  phys_add :: "'p \<Rightarrow> u64 \<Rightarrow> 'p result"
  phys_as_u64 :: "'p \<Rightarrow> u64"
  frame_containing_address :: "'p \<Rightarrow> 'f"
  frame_start_address :: "'f \<Rightarrow> 'p"

text \<open>\<open>VirtAddr\<close>: \<open>p4_index\<close> to \<open>p1_index\<close>, \<open>page_offset\<close>, \<open>+ u64\<close>, and the address it points to.\<close>

record ('v, 'ix) virt_ops =
  virt_add :: "'v \<Rightarrow> u64 \<Rightarrow> 'v result"
  virt_as_ptr :: "'v \<Rightarrow> u64"
  p4_index :: "'v \<Rightarrow> 'ix"
  p3_index :: "'v \<Rightarrow> 'ix"
  p2_index :: "'v \<Rightarrow> 'ix"
  p1_index :: "'v \<Rightarrow> 'ix"
  page_offset :: "'v \<Rightarrow> u64"

text \<open>\<open>PageTable\<close> and \<open>PageTableEntry::frame\<close>, whose errors the code matches on.\<close>

datatype frame_error = FrameNotPresent | HugeFrame

record ('tbl, 'ix, 'en, 'f) table_ops =
  table_at :: "'tbl \<Rightarrow> 'ix \<Rightarrow> 'en"
  entry_frame :: "'en \<Rightarrow> frame_error + 'f"

text \<open>\<open>MemoryMap\<close>, its regions, and the value \<open>MemoryRegionType::Usable\<close>.\<close>

record ('m, 'r, 't) memory_map_ops =
  mm_iter :: "'m \<Rightarrow> 'r list"
  region_type :: "'r \<Rightarrow> 't"
  range_start_addr :: "'r \<Rightarrow> u64"
  range_end_addr :: "'r \<Rightarrow> u64"
  Usable :: 't

section \<open>Page tables\<close>

text \<open>
  The parameters of a walk besides the operations: the frame \<open>Cr3::read\<close> gives, and the
  page tables in memory, by the address of the pointer that is dereferenced.
\<close>

definition active_level_4_table ::
  "('v, 'ix) virt_ops \<Rightarrow> ('p, 'f) phys_ops \<Rightarrow> 'f \<Rightarrow> 'v \<Rightarrow> u64 result" where
  "active_level_4_table V P cr3 physical_memory_offset =
     (let level_4_page_table_frame = cr3;
          phys = frame_start_address P level_4_page_table_frame in
      rbind (virt_add V physical_memory_offset (phys_as_u64 P phys)) (\<lambda>virt.
        Inr (virt_as_ptr V virt)))"

fun translate_loop ::
  "('v, 'ix) virt_ops \<Rightarrow> ('p, 'f) phys_ops \<Rightarrow> ('tbl, 'ix, 'en, 'f) table_ops \<Rightarrow> (u64 \<rightharpoonup> 'tbl) \<Rightarrow>
    'v \<Rightarrow> 'f \<Rightarrow> 'ix list \<Rightarrow> 'f option result" where
  "translate_loop V P T mem physical_memory_offset frame [] = Inr (Some frame)"
| "translate_loop V P T mem physical_memory_offset frame (index # table_indexes) =
     rbind (virt_add V physical_memory_offset (phys_as_u64 P (frame_start_address P frame))) (\<lambda>virt.
     case mem (virt_as_ptr V virt) of
       None \<Rightarrow> Inl (Fault (virt_as_ptr V virt))
     | Some table \<Rightarrow>
         (case entry_frame T (table_at T table index) of
            Inr frame' \<Rightarrow> translate_loop V P T mem physical_memory_offset frame' table_indexes
          | Inl FrameNotPresent \<Rightarrow> Inr None
          | Inl HugeFrame \<Rightarrow> Inl (Message ''huge pages are not supported'')))"

definition translate_addr_inner ::
  "('v, 'ix) virt_ops \<Rightarrow> ('p, 'f) phys_ops \<Rightarrow> ('tbl, 'ix, 'en, 'f) table_ops \<Rightarrow> (u64 \<rightharpoonup> 'tbl) \<Rightarrow>
    'f \<Rightarrow> 'v \<Rightarrow> 'v \<Rightarrow> 'p option result" where
  "translate_addr_inner V P T mem cr3 addr physical_memory_offset =
     (let level_4_page_table_frame = cr3;
          table_indexes = [p4_index V addr, p3_index V addr, p2_index V addr, p1_index V addr] in
      rbind (translate_loop V P T mem physical_memory_offset level_4_page_table_frame table_indexes)
        (\<lambda>r. case r of
           None \<Rightarrow> Inr None
         | Some frame \<Rightarrow> rbind (phys_add P (frame_start_address P frame) (page_offset V addr)) (\<lambda>p. Inr (Some p))))"

definition translate_addr ::
  "('v, 'ix) virt_ops \<Rightarrow> ('p, 'f) phys_ops \<Rightarrow> ('tbl, 'ix, 'en, 'f) table_ops \<Rightarrow> (u64 \<rightharpoonup> 'tbl) \<Rightarrow>
    'f \<Rightarrow> 'v \<Rightarrow> 'v \<Rightarrow> 'p option result" where
  "translate_addr V P T mem cr3 addr physical_memory_offset =
     translate_addr_inner V P T mem cr3 addr physical_memory_offset"

text \<open>\<open>OffsetPageTable::new\<close> is the argument \<open>offset_page_table_new\<close>.\<close>

definition memory_init ::
  "('v, 'ix) virt_ops \<Rightarrow> ('p, 'f) phys_ops \<Rightarrow> 'f \<Rightarrow> (u64 \<Rightarrow> 'v \<Rightarrow> 'mp) \<Rightarrow> 'v \<Rightarrow> 'mp result" where
  "memory_init V P cr3 offset_page_table_new physical_memory_offset =
     rbind (active_level_4_table V P cr3 physical_memory_offset) (\<lambda>level_4_table.
       Inr (offset_page_table_new level_4_table physical_memory_offset))"

section \<open>Frame allocators\<close>

type_synonym ('f, 's) allocate_frame = "'s \<Rightarrow> ('f option \<times> 's) result"

definition empty_allocate_frame :: "('f, unit) allocate_frame" where
  "empty_allocate_frame self = Inr (None, self)"

record 'm boot_info_frame_allocator =
  bf_memory_map :: 'm
  bf_next :: usize

definition boot_init :: "'m \<Rightarrow> 'm boot_info_frame_allocator" where
  "boot_init memory_map = \<lparr>bf_memory_map = memory_map, bf_next = 0\<rparr>"

text \<open>\<open>(start..end).step_by(4096)\<close>: the step stops at the end of the range or of the type.\<close>

function step_range :: "u64 \<Rightarrow> u64 \<Rightarrow> u64 list" where
  "step_range start stop =
     (if start < stop
      then start # (case checked_add start 4096 of
                      None \<Rightarrow> []
                    | Some start' \<Rightarrow> step_range start' stop)
      else [])"
  by pat_completeness auto
termination
  by (relation "measure (\<lambda>(s, e). unat e - unat s)")
    (auto simp: checked_add_eq_Some word_less_nat_alt)

declare step_range.simps [simp del]

text \<open>
  The iterator is lazy: its items are the results of the closures, in order, and \<open>nth(n)\<close>
  runs the closures of the items it skips.
\<close>

definition usable_frames ::
  "('m, 'r, 't) memory_map_ops \<Rightarrow> ('p, 'f) phys_ops \<Rightarrow> 'm boot_info_frame_allocator \<Rightarrow> 'f result list" where
  "usable_frames M P self =
     (let regions = mm_iter M (bf_memory_map self);
          usable_regions = filter (\<lambda>r. region_type M r = Usable M) regions;
          addr_ranges = map (\<lambda>r. (range_start_addr M r, range_end_addr M r)) usable_regions;
          frame_addresses = concat (map (\<lambda>r. step_range (fst r) (snd r)) addr_ranges) in
      map (\<lambda>addr. rbind (phys_new P addr) (\<lambda>p. Inr (frame_containing_address P p))) frame_addresses)"

fun iter_nth :: "'a result list \<Rightarrow> nat \<Rightarrow> 'a option result" where
  "iter_nth [] n = Inr None"
| "iter_nth (x # xs) 0 = rbind x (\<lambda>v. Inr (Some v))"
| "iter_nth (x # xs) (Suc n) = rbind x (\<lambda>_. iter_nth xs n)"

definition boot_allocate_frame ::
  "('m, 'r, 't) memory_map_ops \<Rightarrow> ('p, 'f) phys_ops \<Rightarrow> ('f, 'm boot_info_frame_allocator) allocate_frame" where
  "boot_allocate_frame M P self =
     rbind (iter_nth (usable_frames M P self) (unat (bf_next self))) (\<lambda>frame.
     rbind (uadd (bf_next self) 1) (\<lambda>next.
       Inr (frame, self\<lparr>bf_next := next\<rparr>)))"

section \<open>create_example_mapping\<close>

text \<open>
  \<open>Mapper::map_to\<close> draws the frames of new page tables from the allocator it is given, so
  it is a function of \<open>allocate_frame\<close> and of the allocator's state. It gives an error or the
  \<open>MapperFlush\<close> token; \<open>flush\<close> only invalidates the TLB entry and is part of the operation.
\<close>

record ('mp, 'pg, 'f, 'fl, 's, 'er) mapper_ops =
  map_to_flush :: "('f, 's) allocate_frame \<Rightarrow> 'pg \<Rightarrow> 'f \<Rightarrow> 'fl \<Rightarrow> 'mp \<Rightarrow> 's \<Rightarrow> (('er + unit) \<times> 'mp \<times> 's) result"
  PRESENT :: 'fl
  WRITABLE :: 'fl
  flags_or :: "'fl \<Rightarrow> 'fl \<Rightarrow> 'fl"
  FrameAllocationFailed :: 'er

definition create_example_mapping ::
  "('p, 'f) phys_ops \<Rightarrow> ('mp, 'pg, 'f, 'fl, 's, 'er) mapper_ops \<Rightarrow> ('f, 's) allocate_frame \<Rightarrow>
    'pg \<Rightarrow> 'mp \<Rightarrow> 's \<Rightarrow> ('mp \<times> 's) result" where
  "create_example_mapping P MP allocate_frame page mapper frame_allocator =
     rbind (phys_new P 0xb8000) (\<lambda>addr.
     let frame = frame_containing_address P addr;
         flags = flags_or MP (PRESENT MP) (WRITABLE MP) in
     rbind (map_to_flush MP allocate_frame page frame flags mapper frame_allocator)
       (\<lambda>(map_to_result, mapper', frame_allocator').
         case map_to_result of
           Inl e \<Rightarrow> Inl (Expect ''map_to failed'')
         | Inr _ \<Rightarrow> Inr (mapper', frame_allocator')))"

section \<open>The contract of frame allocators\<close>

text \<open>Repeated calls of \<open>allocate_frame\<close>, and the frames they handed out.\<close>

fun alloc_frames :: "('f, 's) allocate_frame \<Rightarrow> nat \<Rightarrow> 's \<Rightarrow> ('f option list \<times> 's) result" where
  "alloc_frames alloc 0 s = Inr ([], s)"
| "alloc_frames alloc (Suc n) s =
     rbind (alloc s) (\<lambda>(f, s').
     rbind (alloc_frames alloc n s') (\<lambda>(fs, s''). Inr (f # fs, s'')))"

abbreviation frames_given :: "'f option list \<Rightarrow> 'f list" where
  "frames_given fs \<equiv> List.map_filter id fs"

text \<open>
  \<open>FrameAllocator\<close> is an unsafe trait: the implementer guarantees that only unused frames are
  yielded. \<open>inv s F\<close> is a state in which the frames \<open>F\<close> have been handed out, \<open>pool\<close> the
  frames that may be.
\<close>

locale frame_contract =
  fixes alloc :: "('f, 's) allocate_frame"
    and inv :: "'s \<Rightarrow> 'f set \<Rightarrow> bool"
    and pool :: "'f \<Rightarrow> bool"
  assumes alloc_frame: "inv s F \<Longrightarrow> alloc s = Inr (Some f, s') \<Longrightarrow> pool f \<and> f \<notin> F \<and> inv s' (insert f F)"
    and alloc_none: "inv s F \<Longrightarrow> alloc s = Inr (None, s') \<Longrightarrow> inv s' F"
begin

lemma alloc_frames_unused:
  assumes "inv s F" "alloc_frames alloc n s = Inr (fs, s')"
  shows "distinct (frames_given fs) \<and> (\<forall>f \<in> set (frames_given fs). pool f \<and> f \<notin> F) \<and>
    inv s' (F \<union> set (frames_given fs))"
  using assms
proof (induction n arbitrary: s F fs)
  case (Suc n)
  then obtain f s1 gs where a: "alloc s = Inr (f, s1)" "alloc_frames alloc n s1 = Inr (gs, s')" "fs = f # gs"
    by (auto simp: rbind_simps)
  show ?case
  proof (cases f)
    case None
    then show ?thesis
      using Suc.IH [OF alloc_none a(2)] Suc.prems(1) a by (simp add: map_filter_simps)
  next
    case (Some x)
    then have "pool x \<and> x \<notin> F \<and> inv s1 (insert x F)" using alloc_frame Suc.prems(1) a(1) by blast
    with Some show ?thesis
      using Suc.IH [of s1 "insert x F", OF _ a(2)] a(3) by (auto simp: map_filter_simps)
  qed
qed (simp add: map_filter_simps)

end

interpretation empty_frames: frame_contract empty_allocate_frame "\<lambda>_ F. F = {}" "\<lambda>_. False"
  by unfold_locales (simp_all add: empty_allocate_frame_def)

section \<open>The memory map\<close>

lemma step_range_set:
  "x \<in> set (step_range s e) \<longleftrightarrow> s \<le> x \<and> x < e \<and> 4096 dvd unat x - unat s"
proof (induction s e rule: step_range.induct)
  case (1 s e)
  show ?case
  proof (cases "s < e")
    case False
    then show ?thesis by (subst step_range.simps) auto
  next
    case True
    have far: "unat s + 4096 \<le> unat x" if "s \<le> x" "x \<noteq> s" "4096 dvd unat x - unat s"
    proof -
      have "unat s < unat x" using that(1,2) by (simp add: word_le_nat_alt word_unat_eq_iff)
      with that(3) show ?thesis by (auto dest: dvd_imp_le)
    qed
    show ?thesis
    proof (cases "checked_add s 4096")
      case None
      then have "unat s + 4096 \<ge> 2 ^ 64" by (simp add: checked_add_eq_None)
      then have "\<not> unat s + 4096 \<le> unat x" using unat_lt64 [of x] by (simp del: unat_lt64)
      with far True None show ?thesis by (subst step_range.simps) auto
    next
      case (Some s')
      then have s': "unat s' = unat s + 4096" by (simp add: checked_add_eq_Some)
      have "(s' \<le> x \<and> 4096 dvd unat x - unat s') \<longleftrightarrow> (s \<le> x \<and> x \<noteq> s \<and> 4096 dvd unat x - unat s)"
      proof
        assume l: "s' \<le> x \<and> 4096 dvd unat x - unat s'"
        then obtain k where k: "unat x - unat s' = 4096 * k" by (auto elim: dvdE)
        from l have le: "unat s' \<le> unat x" by (simp add: word_le_nat_alt)
        with k s' have "unat x - unat s = 4096 * Suc k" "unat s < unat x" by simp_all
        then show "s \<le> x \<and> x \<noteq> s \<and> 4096 dvd unat x - unat s"
          by (metis dvd_triv_left less_imp_le_nat less_irrefl word_le_nat_alt)
      next
        assume r: "s \<le> x \<and> x \<noteq> s \<and> 4096 dvd unat x - unat s"
        with far have "unat s' \<le> unat x" using s' by simp
        moreover have "4096 dvd (unat x - unat s) - 4096" using r by (simp only: dvd_diff_nat dvd_refl)
        ultimately show "s' \<le> x \<and> 4096 dvd unat x - unat s'"
          using s' by (simp add: word_le_nat_alt)
      qed
      then show ?thesis using 1 [OF True Some] True Some by (subst step_range.simps) auto
    qed
  qed
qed

lemma step_range_sorted: "sorted_wrt (<) (step_range s e)"
proof (induction s e rule: step_range.induct)
  case (1 s e)
  show ?case
  proof (cases "s < e \<and> checked_add s 4096 \<noteq> None")
    case True
    then obtain s' where s': "s < e" "checked_add s 4096 = Some s'" by blast
    then have "s < s'" by (simp add: checked_add_eq_Some word_less_nat_alt)
    then have "\<forall>x \<in> set (step_range s' e). s < x" by (auto simp: step_range_set)
    then show ?thesis using 1 [OF s'] s' by (subst step_range.simps) simp
  qed (subst step_range.simps, auto)
qed

text \<open>
  What the bootloader promises of the map: usable regions are page aligned, lie in the
  physical address space of 52 bits, and do not overlap.
\<close>

definition usable_regions :: "('m, 'r, 't) memory_map_ops \<Rightarrow> 'm \<Rightarrow> 'r list" where
  "usable_regions M mm = filter (\<lambda>r. region_type M r = Usable M) (mm_iter M mm)"

definition region_disjoint :: "('m, 'r, 't) memory_map_ops \<Rightarrow> 'r \<Rightarrow> 'r \<Rightarrow> bool" where
  "region_disjoint M r q =
     (range_end_addr M r \<le> range_start_addr M q \<or> range_end_addr M q \<le> range_start_addr M r)"

definition memory_map_spec :: "('m, 'r, 't) memory_map_ops \<Rightarrow> 'm \<Rightarrow> bool" where
  "memory_map_spec M mm =
     ((\<forall>r \<in> set (usable_regions M mm).
         4096 dvd unat (range_start_addr M r) \<and> 4096 dvd unat (range_end_addr M r) \<and>
         unat (range_end_addr M r) \<le> 2 ^ 52) \<and>
      sorted_wrt (region_disjoint M) (usable_regions M mm))"

abbreviation frame_addr :: "('p, 'f) phys_ops \<Rightarrow> 'f \<Rightarrow> u64" where
  "frame_addr P f \<equiv> phys_as_u64 P (frame_start_address P f)"

text \<open>
  What \<open>x86_64\<close> documents of physical addresses: \<open>PhysAddr::new\<close> accepts 52-bit addresses,
  \<open>containing_address\<close> gives the 4 KiB frame the address lies in, frames are aligned, and \<open>+\<close>
  adds as long as the sum has 52 bits.
\<close>

definition phys_spec :: "('p, 'f) phys_ops \<Rightarrow> bool" where
  "phys_spec P =
     ((\<forall>a. unat a < 2 ^ 52 \<longrightarrow> (\<exists>p. phys_new P a = Inr p \<and>
         unat (frame_addr P (frame_containing_address P p)) = unat a - unat a mod 4096)) \<and>
      (\<forall>f. 4096 dvd unat (frame_addr P f) \<and> unat (frame_addr P f) < 2 ^ 52) \<and>
      (\<forall>p n. unat (phys_as_u64 P p) + unat n < 2 ^ 52 \<longrightarrow>
         (\<exists>q. phys_add P p n = Inr q \<and> unat (phys_as_u64 P q) = unat (phys_as_u64 P p) + unat n)))"

definition usable_addrs :: "('m, 'r, 't) memory_map_ops \<Rightarrow> 'm \<Rightarrow> u64 list" where
  "usable_addrs M mm = concat (map (\<lambda>r. step_range (range_start_addr M r) (range_end_addr M r)) (usable_regions M mm))"

definition frame_of :: "('p, 'f) phys_ops \<Rightarrow> u64 \<Rightarrow> 'f" where
  "frame_of P a = frame_containing_address P (projr (phys_new P a))"

text \<open>A frame that lies in a usable region.\<close>

definition usable_frame :: "('m, 'r, 't) memory_map_ops \<Rightarrow> ('p, 'f) phys_ops \<Rightarrow> 'm \<Rightarrow> 'f \<Rightarrow> bool" where
  "usable_frame M P mm f =
     (\<exists>r \<in> set (mm_iter M mm). region_type M r = Usable M \<and> 4096 dvd unat (frame_addr P f) \<and>
        range_start_addr M r \<le> frame_addr P f \<and>
        unat (frame_addr P f) + 4096 \<le> unat (range_end_addr M r))"

lemma usable_addrs_iff:
  assumes "memory_map_spec M mm"
  shows "a \<in> set (usable_addrs M mm) \<longleftrightarrow>
    4096 dvd unat a \<and> (\<exists>r \<in> set (usable_regions M mm). range_start_addr M r \<le> a \<and> a < range_end_addr M r)"
proof -
  have "4096 dvd unat a - unat (range_start_addr M r) \<longleftrightarrow> 4096 dvd unat a"
    if "r \<in> set (usable_regions M mm)" "range_start_addr M r \<le> a" for r
    using assms that dvd_diffD [of 4096 "unat a" "unat (range_start_addr M r)"] dvd_diff_nat
    by (auto simp: memory_map_spec_def word_le_nat_alt)
  then show ?thesis by (auto simp: usable_addrs_def step_range_set)
qed

lemma distinct_concat_map:
  assumes "\<And>x. x \<in> set xs \<Longrightarrow> distinct (f x)"
    and "sorted_wrt (\<lambda>x y. set (f x) \<inter> set (f y) = {}) xs"
  shows "distinct (concat (map f xs))"
  using assms by (induction xs) auto

lemma usable_addrs_distinct:
  assumes "memory_map_spec M mm"
  shows "distinct (usable_addrs M mm)"
  unfolding usable_addrs_def
proof (rule distinct_concat_map)
  show "distinct (step_range (range_start_addr M r) (range_end_addr M r))" for r
    using step_range_sorted by (simp add: strict_sorted_iff)
  show "sorted_wrt (\<lambda>r q. set (step_range (range_start_addr M r) (range_end_addr M r)) \<inter>
      set (step_range (range_start_addr M q) (range_end_addr M q)) = {}) (usable_regions M mm)"
    by (rule sorted_wrt_mono_rel [of _ "region_disjoint M"])
      (use assms in \<open>auto simp: memory_map_spec_def region_disjoint_def step_range_set\<close>)
qed

section \<open>The boot-info frame allocator\<close>

lemma iter_nth_ok: "iter_nth (map Inr xs) n = Inr (if n < length xs then Some (xs ! n) else None)"
proof (induction xs arbitrary: n)
  case (Cons x xs)
  then show ?case by (cases n) simp_all
qed simp

lemma usable_addrs_bound:
  assumes "memory_map_spec M mm" "a \<in> set (usable_addrs M mm)"
  shows "unat a < 2 ^ 52" "4096 dvd unat a"
  using assms usable_addrs_iff [OF assms(1), of a]
  by (force simp: memory_map_spec_def word_less_nat_alt)+

lemma frame_of_addr:
  assumes "phys_spec P" "unat a < 2 ^ 52" "4096 dvd unat a"
  shows "phys_new P a = Inr (projr (phys_new P a))" "frame_addr P (frame_of P a) = a"
proof -
  from assms(1,2) obtain p where p: "phys_new P a = Inr p"
    "unat (frame_addr P (frame_containing_address P p)) = unat a - unat a mod 4096"
    unfolding phys_spec_def by blast
  then show "phys_new P a = Inr (projr (phys_new P a))" by simp
  show "frame_addr P (frame_of P a) = a"
    using p assms(3) by (simp add: frame_of_def word_unat_eq_iff dvd_imp_mod_0)
qed

lemma usable_frames_ok:
  assumes "phys_spec P" "memory_map_spec M (bf_memory_map s)"
  shows "usable_frames M P s = map Inr (map (frame_of P) (usable_addrs M (bf_memory_map s)))"
proof -
  have "usable_frames M P s =
      map (\<lambda>a. rbind (phys_new P a) (\<lambda>p. Inr (frame_containing_address P p))) (usable_addrs M (bf_memory_map s))"
    by (simp add: usable_frames_def usable_addrs_def usable_regions_def Let_def comp_def)
  moreover have "rbind (phys_new P a) (\<lambda>p. Inr (frame_containing_address P p)) = Inr (frame_of P a)"
    if "a \<in> set (usable_addrs M (bf_memory_map s))" for a
    using frame_of_addr(1) [OF assms(1) usable_addrs_bound [OF assms(2) that]]
    by (metis frame_of_def rbind_Inr)
  ultimately show ?thesis by simp
qed

lemma boot_allocate_frame_eq:
  assumes "phys_spec P" "memory_map_spec M (bf_memory_map s)"
  shows "boot_allocate_frame M P s =
    (if unat (bf_next s) + 1 < 2 ^ 64
     then Inr (if unat (bf_next s) < length (usable_addrs M (bf_memory_map s))
               then Some (frame_of P (usable_addrs M (bf_memory_map s) ! unat (bf_next s))) else None,
               s\<lparr>bf_next := bf_next s + 1\<rparr>)
     else Inl Overflow)"
  unfolding boot_allocate_frame_def usable_frames_ok [OF assms] iter_nth_ok
  by (simp add: uadd_def)

lemma frame_of_usable:
  assumes "phys_spec P" "memory_map_spec M mm" "a \<in> set (usable_addrs M mm)"
  shows "usable_frame M P mm (frame_of P a)"
proof -
  note b = usable_addrs_bound [OF assms(2,3)]
  obtain r where r: "r \<in> set (usable_regions M mm)" "range_start_addr M r \<le> a" "a < range_end_addr M r"
    using usable_addrs_iff [OF assms(2)] assms(3) by blast
  then have "4096 dvd unat (range_end_addr M r)" using assms(2) by (simp add: memory_map_spec_def)
  then have "unat a + 4096 \<le> unat (range_end_addr M r)"
    using b(2) r(3) by (auto simp: word_less_nat_alt elim!: dvdE)
  then show ?thesis
    using r b by (auto simp: usable_frame_def usable_regions_def frame_of_addr(2) [OF assms(1) b])
qed

text \<open>After \<open>next\<close> calls the first \<open>next\<close> frames of the map have been handed out.\<close>

definition boot_inv ::
  "('m, 'r, 't) memory_map_ops \<Rightarrow> ('p, 'f) phys_ops \<Rightarrow> 'm \<Rightarrow> 'm boot_info_frame_allocator \<Rightarrow> 'f set \<Rightarrow> bool" where
  "boot_inv M P mm s F =
     (phys_spec P \<and> memory_map_spec M mm \<and> bf_memory_map s = mm \<and>
      F = frame_of P ` set (take (unat (bf_next s)) (usable_addrs M mm)))"

lemma frame_of_inj:
  assumes "phys_spec P" "memory_map_spec M mm"
  shows "inj_on (frame_of P) (set (usable_addrs M mm))"
  by (rule inj_on_inverseI [of _ "frame_addr P"])
    (rule frame_of_addr(2) [OF assms(1) usable_addrs_bound [OF assms(2)]])

interpretation boot_frames: frame_contract "boot_allocate_frame M P" "boot_inv M P mm" "usable_frame M P mm"
  for M P mm
proof unfold_locales
  fix s F f s'
  assume inv: "boot_inv M P mm s F" and a: "boot_allocate_frame M P s = Inr (Some f, s')"
  let ?xs = "usable_addrs M mm" and ?n = "unat (bf_next s)"
  have spec: "phys_spec P" "memory_map_spec M mm" "bf_memory_map s = mm" "F = frame_of P ` set (take ?n ?xs)"
    using inv by (simp_all add: boot_inv_def)
  then have n: "?n + 1 < 2 ^ 64" "?n < length ?xs" "f = frame_of P (?xs ! ?n)" "s' = s\<lparr>bf_next := bf_next s + 1\<rparr>"
    using a boot_allocate_frame_eq [of P M s] by (auto split: if_splits)
  have n': "unat (bf_next s') = Suc ?n" using n(1,4) unat_add64 [of "bf_next s" 1] by simp
  have "?xs ! ?n \<notin> set (take ?n ?xs)"
    using usable_addrs_distinct [OF spec(2)] n(2) by (simp add: distinct_conv_nth in_set_conv_nth)
  then have "f \<notin> F"
    using frame_of_inj [OF spec(1,2)] n(2,3) spec(4)
    by (auto dest: inj_onD in_set_takeD)
  moreover have "boot_inv M P mm s' (insert f F)"
    using spec n n' by (simp add: boot_inv_def take_Suc_conv_app_nth)
  moreover have "usable_frame M P mm f" using frame_of_usable [OF spec(1,2)] n(2,3) by simp
  ultimately show "usable_frame M P mm f \<and> f \<notin> F \<and> boot_inv M P mm s' (insert f F)" by blast
next
  fix s F s'
  assume inv: "boot_inv M P mm s F" and a: "boot_allocate_frame M P s = Inr (None, s')"
  let ?n = "unat (bf_next s)"
  have spec: "phys_spec P" "memory_map_spec M mm" "bf_memory_map s = mm"
    using inv by (simp_all add: boot_inv_def)
  then have n: "?n + 1 < 2 ^ 64" "length (usable_addrs M mm) \<le> ?n" "s' = s\<lparr>bf_next := bf_next s + 1\<rparr>"
    using a boot_allocate_frame_eq [of P M s] by (auto split: if_splits)
  have "unat (bf_next s') = Suc ?n" using n(1,3) unat_add64 [of "bf_next s" 1] by simp
  then show "boot_inv M P mm s' F" using inv n by (simp add: boot_inv_def)
qed

lemma boot_init_inv:
  "phys_spec P \<Longrightarrow> memory_map_spec M mm \<Longrightarrow> boot_inv M P mm (boot_init mm) {}"
  by (simp add: boot_inv_def boot_init_def)

lemma alloc_frames_boot:
  assumes "phys_spec P" "memory_map_spec M mm" "k + n < 2 ^ 64"
  defines "xs \<equiv> usable_addrs M mm"
  shows "alloc_frames (boot_allocate_frame M P) n \<lparr>bf_memory_map = mm, bf_next = word_of_nat k\<rparr> =
    Inr (map (\<lambda>i. if i < length xs then Some (frame_of P (xs ! i)) else None) [k..<k + n],
         \<lparr>bf_memory_map = mm, bf_next = word_of_nat (k + n)\<rparr>)"
  using assms(3)
proof (induction n arbitrary: k)
  case (Suc n)
  let ?s = "\<lparr>bf_memory_map = mm, bf_next = word_of_nat k :: usize\<rparr>"
  have k: "unat (word_of_nat k :: usize) = k" using Suc.prems by (simp add: unat_of_nat)
  have "boot_allocate_frame M P ?s = Inr (if k < length xs then Some (frame_of P (xs ! k)) else None,
      \<lparr>bf_memory_map = mm, bf_next = word_of_nat (Suc k)\<rparr>)"
    using boot_allocate_frame_eq [OF assms(1), of M ?s] assms(2) Suc.prems
    by (simp add: k xs_def add.commute)
  then show ?case
    using Suc.IH [of "Suc k"] Suc.prems by (simp add: upt_conv_Cons del: upt_Suc of_nat_Suc)
qed simp

lemma alloc_frames_boot_enough:
  assumes "phys_spec P" "memory_map_spec M mm" "n \<le> length (usable_addrs M mm)" "n < 2 ^ 64"
  shows "\<exists>fs s'. alloc_frames (boot_allocate_frame M P) n (boot_init mm) = Inr (map Some fs, s')"
proof -
  let ?xs = "usable_addrs M mm"
  have "map (\<lambda>i. if i < length ?xs then Some (frame_of P (?xs ! i)) else None) [0..<n] =
      map Some (map (\<lambda>i. frame_of P (?xs ! i)) [0..<n])"
    using assms(3) by simp
  from alloc_frames_boot [OF assms(1,2), of 0 n, simplified, unfolded this] assms(4)
  show ?thesis unfolding boot_init_def by (auto simp del: map_map)
qed

section \<open>The walk and the hardware\<close>

text \<open>
  The reference is the walk of the memory management unit, which reads the tables at their
  physical addresses. \<open>physical_memory_offset\<close> has to be chosen as the callers promise: the
  whole physical memory is mapped there.
\<close>

fun mmu_walk ::
  "('p, 'f) phys_ops \<Rightarrow> ('tbl, 'ix, 'en, 'f) table_ops \<Rightarrow> (u64 \<Rightarrow> 'tbl) \<Rightarrow> 'f \<Rightarrow> 'ix list \<Rightarrow> frame_error + 'f" where
  "mmu_walk P T pmem f [] = Inr f"
| "mmu_walk P T pmem f (i # is) =
     rbind (entry_frame T (table_at T (pmem (frame_addr P f)) i)) (\<lambda>f'. mmu_walk P T pmem f' is)"

definition virt_spec :: "('v, 'ix) virt_ops \<Rightarrow> bool" where
  "virt_spec V = (\<forall>v. unat (page_offset V v) < 4096)"

definition phys_mapped ::
  "('v, 'ix) virt_ops \<Rightarrow> (u64 \<rightharpoonup> 'tbl) \<Rightarrow> (u64 \<Rightarrow> 'tbl) \<Rightarrow> 'v \<Rightarrow> bool" where
  "phys_mapped V mem pmem physical_memory_offset =
     (\<forall>a. unat a < 2 ^ 52 \<and> 4096 dvd unat a \<longrightarrow>
        (\<exists>v. virt_add V physical_memory_offset a = Inr v \<and> mem (virt_as_ptr V v) = Some (pmem a)))"

lemma translate_loop_mmu:
  assumes "phys_spec P" "phys_mapped V mem pmem off"
  shows "translate_loop V P T mem off f is =
    (case mmu_walk P T pmem f is of
       Inr f' \<Rightarrow> Inr (Some f')
     | Inl FrameNotPresent \<Rightarrow> Inr None
     | Inl HugeFrame \<Rightarrow> Inl (Message ''huge pages are not supported''))"
proof (induction "is" arbitrary: f)
  case (Cons i "is")
  have "unat (frame_addr P f) < 2 ^ 52 \<and> 4096 dvd unat (frame_addr P f)"
    using assms(1) by (simp add: phys_spec_def)
  then obtain v where v: "virt_add V off (frame_addr P f) = Inr v"
      "mem (virt_as_ptr V v) = Some (pmem (frame_addr P f))"
    using assms(2) unfolding phys_mapped_def by blast
  show ?case
    by (cases "entry_frame T (table_at T (pmem (frame_addr P f)) i)")
      (simp_all add: v Cons.IH split: frame_error.splits)
qed simp

lemma frame_plus_offset:
  assumes "phys_spec P" "unat n < 4096"
  shows "\<exists>q. phys_add P (frame_start_address P f) n = Inr q \<and> unat (phys_as_u64 P q) = unat (frame_addr P f) + unat n"
proof -
  have "4096 dvd unat (frame_addr P f)" "unat (frame_addr P f) < 2 ^ 52"
    using assms(1) by (auto simp: phys_spec_def)
  then have "unat (frame_addr P f) + unat n < 2 ^ 52" using assms(2) by (auto elim!: dvdE)
  then show ?thesis using assms(1) unfolding phys_spec_def by blast
qed

section \<open>Mapping pages\<close>

text \<open>
  What \<open>Mapper::map_to\<close> documents, in terms of the mappings \<open>lookup\<close> of the page table: it
  only draws frames from the allocator, on success the page is newly mapped to the frame with
  the flags, on failure no mapping changes.
\<close>

definition mapper_spec ::
  "('mp, 'pg, 'f, 'fl, 's, 'er) mapper_ops \<Rightarrow> ('mp \<Rightarrow> 'pg \<rightharpoonup> 'f \<times> 'fl) \<Rightarrow> bool" where
  "mapper_spec MP lookup =
     (\<forall>alloc page frame flags mp s r mp' s'.
        map_to_flush MP alloc page frame flags mp s = Inr (r, mp', s') \<longrightarrow>
        (\<exists>n fs. alloc_frames alloc n s = Inr (fs, s')) \<and>
        (case r of
           Inr _ \<Rightarrow> lookup mp page = None \<and> lookup mp' = (lookup mp)(page \<mapsto> (frame, flags))
         | Inl _ \<Rightarrow> lookup mp' = lookup mp))"

lemma mapper_specD:
  assumes "mapper_spec MP lookup" "map_to_flush MP alloc page frame flags mp s = Inr (r, mp', s')"
  shows "\<exists>n fs. alloc_frames alloc n s = Inr (fs, s')"
    "r = Inr u \<Longrightarrow> lookup mp page = None \<and> lookup mp' = (lookup mp)(page \<mapsto> (frame, flags))"
    "r = Inl e \<Longrightarrow> lookup mp' = lookup mp"
  using assms unfolding mapper_spec_def by (fastforce split: sum.splits)+

section \<open>A concrete machine, for the witnesses\<close>

text \<open>52-bit physical addresses, a frame being any address in it.\<close>

definition frame_base :: "u64 \<Rightarrow> u64" where
  "frame_base f = word_of_nat (unat f mod 2 ^ 52 div 4096 * 4096)"

lemma unat_frame_base: "unat (frame_base f) = unat f mod 2 ^ 52 div 4096 * 4096"
proof -
  have "unat f mod 2 ^ 52 div 4096 * 4096 \<le> unat f mod 2 ^ 52" by simp
  also have "\<dots> < 2 ^ 52" by simp
  finally have "unat f mod 2 ^ 52 div 4096 * 4096 < 2 ^ 64" by simp
  then show ?thesis unfolding frame_base_def unat_of_nat by simp
qed

abbreviation (input) ex_phys :: "(u64, u64) phys_ops" where
  "ex_phys \<equiv> \<lparr>
     phys_new = \<lambda>a. if unat a < 2 ^ 52 then Inr a else Inl AssertFailed,
     phys_add = \<lambda>p n. if unat p + unat n < 2 ^ 52 then Inr (p + n) else Inl AssertFailed,
     phys_as_u64 = \<lambda>p. p,
     frame_containing_address = \<lambda>p. p,
     frame_start_address = frame_base\<rparr>"

lemma ex_phys_spec: "phys_spec ex_phys"
  unfolding phys_spec_def
proof (intro conjI allI impI)
  fix a :: u64 assume "unat a < 2 ^ 52"
  then show "\<exists>p. phys_new ex_phys a = Inr p \<and>
      unat (frame_addr ex_phys (frame_containing_address ex_phys p)) = unat a - unat a mod 4096"
    by (simp add: unat_frame_base minus_mod_eq_div_mult)
next
  fix p n :: u64
  assume "unat (phys_as_u64 ex_phys p) + unat n < 2 ^ 52"
  then show "\<exists>q. phys_add ex_phys p n = Inr q \<and>
      unat (phys_as_u64 ex_phys q) = unat (phys_as_u64 ex_phys p) + unat n"
    by (simp add: unat_add64)
next
  fix f :: u64
  show "4096 dvd unat (frame_addr ex_phys f)" by (simp add: unat_frame_base)
  have "unat f mod 2 ^ 52 div 4096 * 4096 \<le> unat f mod 2 ^ 52" by simp
  also have "\<dots> < 2 ^ 52" by simp
  finally show "unat (frame_addr ex_phys f) < 2 ^ 52" by (simp add: unat_frame_base)
qed

text \<open>A map with a usable region of two frames and one of one frame around a reserved one.\<close>

abbreviation (input) ex_map_ops :: "((u64 \<times> u64 \<times> bool) list, u64 \<times> u64 \<times> bool, bool) memory_map_ops" where
  "ex_map_ops \<equiv> \<lparr>mm_iter = id, region_type = (\<lambda>r. snd (snd r)), range_start_addr = fst,
     range_end_addr = (\<lambda>r. fst (snd r)), Usable = True\<rparr>"

abbreviation (input) ex_map :: "(u64 \<times> u64 \<times> bool) list" where
  "ex_map \<equiv> [(4096, 12288, True), (12288, 16384, False), (16384, 20480, True)]"

lemma ex_map_spec: "memory_map_spec ex_map_ops ex_map"
  by (simp add: memory_map_spec_def usable_regions_def region_disjoint_def)

lemma ex_usable_addrs: "usable_addrs ex_map_ops ex_map = [4096, 8192, 16384]"
proof -
  have "checked_add 4096 4096 = Some 8192" "checked_add 8192 4096 = Some 12288" "checked_add 16384 4096 = Some 20480"
    by (simp_all add: checked_add_def)
  then have "step_range 4096 12288 = [4096, 8192]" "step_range 16384 20480 = [16384]"
    by (simp_all add: step_range.simps [of 4096] step_range.simps [of 8192] step_range.simps [of 12288]
        step_range.simps [of 16384] step_range.simps [of 20480])
  then show ?thesis by (simp add: usable_addrs_def usable_regions_def)
qed

text \<open>Flat virtual addresses, and tables whose entries hold the frame and the bits 0 (present) and 7 (huge).\<close>

abbreviation (input) ex_virt :: "(u64, u64) virt_ops" where
  "ex_virt \<equiv> \<lparr>virt_add = uadd, virt_as_ptr = \<lambda>v. v,
     p4_index = \<lambda>v. drop_bit 39 v AND 511, p3_index = \<lambda>v. drop_bit 30 v AND 511,
     p2_index = \<lambda>v. drop_bit 21 v AND 511, p1_index = \<lambda>v. drop_bit 12 v AND 511,
     page_offset = \<lambda>v. word_of_nat (unat v mod 4096)\<rparr>"

abbreviation (input) ex_tables :: "(u64 \<Rightarrow> u64, u64, u64, u64) table_ops" where
  "ex_tables \<equiv> \<lparr>table_at = \<lambda>t i. t i,
     entry_frame = \<lambda>e. if \<not> bit e 0 then Inl FrameNotPresent else if bit e 7 then Inl HugeFrame else Inr e\<rparr>"

text \<open>Each table points to the frame behind it.\<close>

abbreviation (input) ex_pmem :: "u64 \<Rightarrow> u64 \<Rightarrow> u64" where
  "ex_pmem \<equiv> \<lambda>a i. a + 4097"

lemma ex_virt_spec: "virt_spec ex_virt"
proof -
  have "unat (word_of_nat (unat v mod 4096) :: u64) < 4096" for v :: u64
  proof -
    have "unat v mod 4096 < 4096" by simp
    then have "unat v mod 4096 < 2 ^ 64" by simp
    then show ?thesis unfolding unat_of_nat by simp
  qed
  then show ?thesis by (simp add: virt_spec_def)
qed

lemma ex_phys_mapped: "phys_mapped ex_virt (\<lambda>a. Some (ex_pmem a)) ex_pmem 0"
  by (simp add: phys_mapped_def uadd_def)

lemma ex_walk: "mmu_walk ex_phys ex_tables ex_pmem 4096 [0, 0, 0, 0] = Inr 20481"
proof -
  have f: "frame_base 4096 = 4096" "frame_base 8193 = 8192" "frame_base 12289 = 12288" "frame_base 16385 = 16384"
    by (simp_all add: frame_base_def)
  have b: "bit (8193 :: u64) 0" "bit (12289 :: u64) 0" "bit (16385 :: u64) 0" "bit (20481 :: u64) 0"
    "\<not> bit (8193 :: u64) 7" "\<not> bit (12289 :: u64) 7" "\<not> bit (16385 :: u64) 7" "\<not> bit (20481 :: u64) 7"
    by simp_all
  show ?thesis by (simp add: f b)
qed

section \<open>Properties\<close>

text \<open>
  C22: however many frames are requested of the allocator \<open>init\<close> gives, no frame is handed out
  twice and each lies in a usable region of the memory map.
\<close>

theorem boot_frames_unused:
  assumes "phys_spec P" "memory_map_spec M mm"
    and "alloc_frames (boot_allocate_frame M P) n (boot_init mm) = Inr (fs, s')"
  shows "distinct (frames_given fs) \<and> (\<forall>f \<in> set (frames_given fs). usable_frame M P mm f)"
  using boot_frames.alloc_frames_unused [OF boot_init_inv [OF assms(1,2)] assms(3)] by blast

theorem boot_frames_unused_witness:
  "\<exists>fs s'. alloc_frames (boot_allocate_frame ex_map_ops ex_phys) 5 (boot_init ex_map) = Inr (fs, s') \<and>
     distinct (frames_given fs)"
  using alloc_frames_boot [OF ex_phys_spec ex_map_spec, of 0 5]
    boot_frames_unused [OF ex_phys_spec ex_map_spec, of 5]
  by (simp add: boot_init_def)





text \<open>
  When \<open>create_example_mapping\<close> returns, the page is newly mapped to the frame of the VGA
  buffer at \<open>0xb8000\<close>, present and writable, and no other mapping has changed.
\<close>

lemma create_example_mapping_maps:
  assumes "phys_spec P" "mapper_spec MP lookup"
    and "create_example_mapping P MP alloc page mp s = Inr (mp', s')"
  shows "\<exists>f. frame_addr P f = 0xb8000 \<and> lookup mp page = None \<and>
    lookup mp' = (lookup mp)(page \<mapsto> (f, flags_or MP (PRESENT MP) (WRITABLE MP)))"
proof -
  have a: "phys_new P 0xb8000 = Inr (projr (phys_new P 0xb8000))" "frame_addr P (frame_of P 0xb8000) = 0xb8000"
    using frame_of_addr [OF assms(1), of "0xb8000"] by simp_all
  then obtain p where p: "phys_new P 0xb8000 = Inr p" "frame_of P 0xb8000 = frame_containing_address P p"
    by (simp add: frame_of_def)
  then have "rbind (map_to_flush MP alloc page (frame_of P 0xb8000) (flags_or MP (PRESENT MP) (WRITABLE MP)) mp s)
      (\<lambda>(r, mp1, s1). case r of Inl e \<Rightarrow> Inl (Expect ''map_to failed'') | Inr _ \<Rightarrow> Inr (mp1, s1)) = Inr (mp', s')"
    using assms(3) by (simp add: create_example_mapping_def Let_def)
  then obtain r mp1 s1 where r: "map_to_flush MP alloc page (frame_of P 0xb8000)
        (flags_or MP (PRESENT MP) (WRITABLE MP)) mp s = Inr (r, mp1, s1)"
      "(case r of Inl e \<Rightarrow> Inl (Expect ''map_to failed'') | Inr _ \<Rightarrow> Inr (mp1, s1)) = Inr (mp', s')"
    by (auto simp: rbind_eq_Inr)
  then obtain u where "r = Inr u" "mp1 = mp'" by (cases r) auto
  with mapper_specD(2) [OF assms(2) r(1)] a(2) show ?thesis by blast
qed

text \<open>A mapper that keeps the mappings as a finite map and refuses a page that is mapped.\<close>

abbreviation (input) ex_mapper :: "(u64 \<rightharpoonup> u64 \<times> u64, u64, u64, u64, 's, unit) mapper_ops" where
  "ex_mapper \<equiv> \<lparr>map_to_flush = \<lambda>alloc page frame flags mp s.
       if mp page = None then Inr (Inr (), mp(page \<mapsto> (frame, flags)), s) else Inr (Inl (), mp, s),
     PRESENT = 1, WRITABLE = 2, flags_or = (OR), FrameAllocationFailed = ()\<rparr>"

lemma ex_mapper_spec: "mapper_spec ex_mapper (\<lambda>mp. mp)"
  unfolding mapper_spec_def by (auto intro!: exI [of _ "0::nat"] split: if_splits sum.splits)

end
