(* ===== verification/Heap_Init.thy ===== *)
theory Heap_Init
  imports Fixed_Size_Block Memory
begin

text \<open>
  \<open>init_heap\<close> of \<^verbatim>\<open>src/allocator.rs\<close>: the pages of the heap are mapped one by one to frames
  of the frame allocator, then the global allocator is initialised with the heap's bounds.
  Page arithmetic is the crate \<open>x86_64\<close>'s and a parameter; \<open>page_spec\<close> states what is used.
  The static \<open>ALLOCATOR\<close> is passed as its state: nothing else holds its lock while it runs.
\<close>

section \<open>Mapping the heap\<close>

record ('v, 'pg) page_ops =
  virt_new :: "u64 \<Rightarrow> 'v result"
  virt_add_usize :: "'v \<Rightarrow> usize \<Rightarrow> 'v result"
  virt_sub :: "'v \<Rightarrow> u64 \<Rightarrow> 'v result"
  page_containing_address :: "'v \<Rightarrow> 'pg"
  page_range_inclusive :: "'pg \<Rightarrow> 'pg \<Rightarrow> 'pg list"

definition heap_page_range :: "('v, 'pg) page_ops \<Rightarrow> 'pg list result" where
  "heap_page_range PG =
     rbind (virt_new PG HEAP_START) (\<lambda>heap_start.
     rbind (virt_add_usize PG heap_start HEAP_SIZE) (\<lambda>x.
     rbind (virt_sub PG x 1) (\<lambda>heap_end.
     let heap_start_page = page_containing_address PG heap_start;
         heap_end_page = page_containing_address PG heap_end in
     Inr (page_range_inclusive PG heap_start_page heap_end_page))))"

fun map_pages ::
  "('mp, 'pg, 'f, 'fl, 's, 'er) mapper_ops \<Rightarrow> ('f, 's) allocate_frame \<Rightarrow> 'pg list \<Rightarrow> 'mp \<Rightarrow> 's \<Rightarrow>
    (('er + unit) \<times> 'mp \<times> 's) result" where
  "map_pages MP allocate_frame [] mapper frame_allocator = Inr (Inr (), mapper, frame_allocator)"
| "map_pages MP allocate_frame (page # pages) mapper frame_allocator =
     rbind (allocate_frame frame_allocator) (\<lambda>(f, frame_allocator').
     case f of
       None \<Rightarrow> Inr (Inl (FrameAllocationFailed MP), mapper, frame_allocator')
     | Some frame \<Rightarrow>
         let flags = flags_or MP (PRESENT MP) (WRITABLE MP) in
         rbind (map_to_flush MP allocate_frame page frame flags mapper frame_allocator')
           (\<lambda>(r, mapper', frame_allocator'').
             case r of
               Inl e \<Rightarrow> Inr (Inl e, mapper', frame_allocator'')
             | Inr _ \<Rightarrow> map_pages MP allocate_frame pages mapper' frame_allocator''))"

definition init_heap ::
  "'h heap_ops \<Rightarrow> ('v, 'pg) page_ops \<Rightarrow> ('mp, 'pg, 'f, 'fl, 's, 'er) mapper_ops \<Rightarrow> ('f, 's) allocate_frame \<Rightarrow>
    'mp \<Rightarrow> 's \<Rightarrow> 'h fsb_allocator \<Rightarrow> (('er + unit) \<times> 'mp \<times> 's \<times> 'h fsb_allocator) result" where
  "init_heap H PG MP allocate_frame mapper frame_allocator ALLOCATOR =
     rbind (heap_page_range PG) (\<lambda>page_range.
     rbind (map_pages MP allocate_frame page_range mapper frame_allocator)
       (\<lambda>(r, mapper', frame_allocator').
         case r of
           Inl e \<Rightarrow> Inr (Inl e, mapper', frame_allocator', ALLOCATOR)
         | Inr _ \<Rightarrow>
             rbind (fsb_init H ALLOCATOR HEAP_START HEAP_SIZE) (\<lambda>ALLOCATOR'.
               Inr (Inr (), mapper', frame_allocator', ALLOCATOR'))))"

section \<open>What mapping the pages achieves\<close>

lemma map_pages_ConsD:
  assumes "map_pages MP alloc (page # pages) mp s = Inr (Inr u, mp', s')"
  obtains frame s1 mp2 s2 v where "alloc s = Inr (Some frame, s1)"
    "map_to_flush MP alloc page frame (flags_or MP (PRESENT MP) (WRITABLE MP)) mp s1 = Inr (Inr v, mp2, s2)"
    "map_pages MP alloc pages mp2 s2 = Inr (Inr u, mp', s')"
proof -
  obtain f s1 where a: "alloc s = Inr (f, s1)" using assms by (auto simp: rbind_eq_Inr)
  then obtain frame where f: "f = Some frame" using assms by (cases f) auto
  let ?m = "map_to_flush MP alloc page frame (flags_or MP (PRESENT MP) (WRITABLE MP)) mp s1"
  obtain r mp2 s2 where m: "?m = Inr (r, mp2, s2)"
    using assms a f by (auto simp: rbind_eq_Inr Let_def)
  then obtain v where "r = Inr v" using assms a f by (cases r) (auto simp: Let_def)
  with that a f m show thesis using assms by (simp add: Let_def)
qed

text \<open>The frames are drawn through the contract of frame allocators, so this is proved for any of them.\<close>

context frame_contract
begin

lemma map_pages_ok:
  assumes "mapper_spec MP lookup" "inv s F" "map_pages MP alloc ps mp s = Inr (Inr u, mp', s')"
  shows "\<exists>frames F'. length frames = length ps \<and> distinct frames \<and> (\<forall>f \<in> set frames. pool f \<and> f \<notin> F) \<and>
    inv s' F' \<and> F \<union> set frames \<subseteq> F' \<and> distinct ps \<and> (\<forall>p \<in> set ps. lookup mp p = None) \<and>
    lookup mp' = (lookup mp)(ps [\<mapsto>] map (\<lambda>f. (f, flags_or MP (PRESENT MP) (WRITABLE MP))) frames)"
  using assms(2,3)
proof (induction ps arbitrary: mp s F)
  case Nil
  then show ?case by auto
next
  case (Cons p ps)
  let ?fl = "flags_or MP (PRESENT MP) (WRITABLE MP)"
  obtain f s1 mp2 s2 v where a: "alloc s = Inr (Some f, s1)"
      "map_to_flush MP alloc p f ?fl mp s1 = Inr (Inr v, mp2, s2)"
      "map_pages MP alloc ps mp2 s2 = Inr (Inr u, mp', s')"
    using map_pages_ConsD [OF Cons.prems(2)] by metis
  have f: "pool f" "f \<notin> F" "inv s1 (insert f F)" using alloc_frame [OF Cons.prems(1) a(1)] by auto
  obtain n fs where "alloc_frames alloc n s1 = Inr (fs, s2)" using mapper_specD(1) [OF assms(1) a(2)] by blast
  from alloc_frames_unused [OF f(3) this] have i: "inv s2 (insert f F \<union> set (frames_given fs))" by blast
  have m: "lookup mp p = None" "lookup mp2 = (lookup mp)(p \<mapsto> (f, ?fl))"
    using mapper_specD(2) [OF assms(1) a(2)] by auto
  obtain frames F' where IH: "length frames = length ps" "distinct frames"
      "\<forall>g \<in> set frames. pool g \<and> g \<notin> insert f F \<union> set (frames_given fs)"
      "inv s' F'" "insert f F \<union> set (frames_given fs) \<union> set frames \<subseteq> F'" "distinct ps"
      "\<forall>q \<in> set ps. lookup mp2 q = None"
      "lookup mp' = (lookup mp2)(ps [\<mapsto>] map (\<lambda>f. (f, ?fl)) frames)"
    using Cons.IH [OF i a(3)] by blast
  have "p \<notin> set ps" using IH(7) m(2) by auto
  moreover have "\<forall>q \<in> set ps. lookup mp q = None" using IH(7) m by (metis fun_upd_apply)
  ultimately show ?case
    using IH(1-6,8) f m by (intro exI [of _ "f # frames"] exI [of _ F']) auto
qed

end

lemma map_pages_errorD:
  assumes "mapper_spec MP lookup" "map_pages MP alloc ps mp s = Inr (Inl e, mp', s')"
  shows "\<exists>k frames. k < length ps \<and> length frames = k \<and>
    lookup mp' = (lookup mp)(take k ps [\<mapsto>] map (\<lambda>f. (f, flags_or MP (PRESENT MP) (WRITABLE MP))) frames)"
  using assms(2)
proof (induction ps arbitrary: mp s)
  case (Cons p ps)
  let ?fl = "flags_or MP (PRESENT MP) (WRITABLE MP)"
  obtain f s1 where a: "alloc s = Inr (f, s1)" using Cons.prems by (auto simp: rbind_eq_Inr)
  show ?case
  proof (cases f)
    case None
    then show ?thesis using Cons.prems a by (auto intro!: exI [of _ 0])
  next
    case (Some frame)
    obtain r mp2 s2 where m: "map_to_flush MP alloc p frame ?fl mp s1 = Inr (r, mp2, s2)"
      using Cons.prems a Some by (auto simp: rbind_eq_Inr Let_def)
    show ?thesis
    proof (cases r)
      case (Inl e')
      then have "lookup mp' = lookup mp" "e' = e"
        using Cons.prems a Some m mapper_specD(3) [OF assms(1) m Inl] by (auto simp: Let_def)
      then show ?thesis by (intro exI [of _ 0]) auto
    next
      case (Inr v)
      then have "map_pages MP alloc ps mp2 s2 = Inr (Inl e, mp', s')"
        using Cons.prems a Some m by (simp add: Let_def)
      from Cons.IH [OF this] obtain k frames where k: "k < length ps" "length frames = k"
          "lookup mp' = (lookup mp2)(take k ps [\<mapsto>] map (\<lambda>f. (f, ?fl)) frames)"
        by blast
      moreover have "lookup mp2 = (lookup mp)(p \<mapsto> (frame, ?fl))"
        using mapper_specD(2) [OF assms(1) m Inr] by simp
      ultimately show ?thesis by (intro exI [of _ "Suc k"] exI [of _ "frame # frames"]) auto
    qed
  qed
qed simp

section \<open>The pages of the heap\<close>

text \<open>
  What \<open>x86_64\<close> documents of virtual addresses and pages, with \<open>va\<close> the address a \<open>VirtAddr\<close>
  holds and \<open>pa\<close> the start address of a page: below \<open>2^47\<close> all addresses are canonical,
  and an inclusive range lists the pages from the first to the last.
\<close>

definition page_spec :: "('v, 'pg) page_ops \<Rightarrow> ('v \<Rightarrow> u64) \<Rightarrow> ('pg \<Rightarrow> u64) \<Rightarrow> bool" where
  "page_spec PG va pa =
     ((\<forall>a. unat a < 2 ^ 47 \<longrightarrow> (\<exists>v. virt_new PG a = Inr v \<and> va v = a)) \<and>
      (\<forall>v n. unat (va v) + unat n < 2 ^ 47 \<longrightarrow>
         (\<exists>w. virt_add_usize PG v n = Inr w \<and> unat (va w) = unat (va v) + unat n)) \<and>
      (\<forall>v n. unat n \<le> unat (va v) \<and> unat (va v) < 2 ^ 47 \<longrightarrow>
         (\<exists>w. virt_sub PG v n = Inr w \<and> unat (va w) = unat (va v) - unat n)) \<and>
      (\<forall>v. unat (pa (page_containing_address PG v)) = unat (va v) - unat (va v) mod 4096) \<and>
      (\<forall>p q. pa p \<le> pa q \<longrightarrow>
         map (\<lambda>r. unat (pa r)) (page_range_inclusive PG p q) =
         map (\<lambda>i. unat (pa p) + 4096 * i) [0..<(unat (pa q) - unat (pa p)) div 4096 + 1]))"

lemma unat_HEAP: "unat HEAP_START = 0x444444440000" "unat HEAP_SIZE = 102400"
  by (simp_all add: HEAP_START_def HEAP_SIZE_def)

text \<open>The start addresses of the pages the heap consists of.\<close>

definition heap_page_addrs :: "nat list" where
  "heap_page_addrs = map (\<lambda>i. unat HEAP_START + 4096 * i) [0..<25]"

lemma length_heap_page_addrs [simp]: "length heap_page_addrs = 25"
  by (simp add: heap_page_addrs_def)

lemma page_specD:
  assumes "page_spec PG va pa"
  shows "unat a < 2 ^ 47 \<Longrightarrow> \<exists>v. virt_new PG a = Inr v \<and> va v = a"
    "unat (va v) + unat n < 2 ^ 47 \<Longrightarrow> \<exists>w. virt_add_usize PG v n = Inr w \<and> unat (va w) = unat (va v) + unat n"
    "unat m \<le> unat (va v) \<Longrightarrow> unat (va v) < 2 ^ 47 \<Longrightarrow>
      \<exists>w. virt_sub PG v m = Inr w \<and> unat (va w) = unat (va v) - unat m"
    "unat (pa (page_containing_address PG v)) = unat (va v) - unat (va v) mod 4096"
    "pa p \<le> pa q \<Longrightarrow> map (\<lambda>r. unat (pa r)) (page_range_inclusive PG p q) =
      map (\<lambda>i. unat (pa p) + 4096 * i) [0..<(unat (pa q) - unat (pa p)) div 4096 + 1]"
  using assms unfolding page_spec_def by blast+

lemma heap_pages:
  assumes "page_spec PG va pa"
  shows "\<exists>ps. heap_page_range PG = Inr ps \<and>
    map (\<lambda>p. unat (pa p)) ps = heap_page_addrs"
proof -
  note D = page_specD [OF assms]
  obtain v where v: "virt_new PG HEAP_START = Inr v" "va v = HEAP_START"
    using D(1) [of HEAP_START] by (auto simp: unat_HEAP)
  obtain w where w: "virt_add_usize PG v HEAP_SIZE = Inr w" "unat (va w) = unat HEAP_START + unat HEAP_SIZE"
    using D(2) [of v HEAP_SIZE] by (auto simp: v unat_HEAP)
  obtain x where x: "virt_sub PG w 1 = Inr x" "unat (va x) = unat HEAP_START + unat HEAP_SIZE - 1"
    using D(3) [of 1 w] by (auto simp: w unat_HEAP)
  let ?p = "page_containing_address PG v" and ?q = "page_containing_address PG x"
  have pq: "unat (pa ?p) = unat HEAP_START" "unat (pa ?q) = unat HEAP_START + 98304"
    using D(4) [of v] D(4) [of x] by (simp_all add: v(2) x(2) unat_HEAP)
  then have "pa ?p \<le> pa ?q" by (simp add: word_le_nat_alt)
  note r = D(5) [OF this]
  have "(unat (pa ?q) - unat (pa ?p)) div 4096 + 1 = 25" unfolding pq by simp
  then have "map (\<lambda>r. unat (pa r)) (page_range_inclusive PG ?p ?q) = heap_page_addrs"
    using r unfolding heap_page_addrs_def pq by simp
  moreover have "heap_page_range PG = Inr (page_range_inclusive PG ?p ?q)"
    by (simp add: heap_page_range_def v(1) w(1) x(1))
  ultimately show ?thesis by blast
qed

lemma init_heap_okD:
  assumes "init_heap H PG MP alloc mp s A = Inr (Inr u, mp', s', A')" "heap_page_range PG = Inr ps"
  shows "map_pages MP alloc ps mp s = Inr (Inr (), mp', s')" "fsb_init H A HEAP_START HEAP_SIZE = Inr A'"
proof -
  obtain r mp1 s1 where m: "map_pages MP alloc ps mp s = Inr (r, mp1, s1)"
    using assms by (auto simp: init_heap_def rbind_eq_Inr)
  then obtain v where "r = Inr v" using assms by (cases r) (auto simp: init_heap_def)
  with m assms show "map_pages MP alloc ps mp s = Inr (Inr (), mp', s')" "fsb_init H A HEAP_START HEAP_SIZE = Inr A'"
    by (auto simp: init_heap_def rbind_eq_Inr)
qed

lemma init_heap_errorD:
  assumes "init_heap H PG MP alloc mp s A = Inr (Inl e, mp', s', A')" "heap_page_range PG = Inr ps"
  shows "map_pages MP alloc ps mp s = Inr (Inl e, mp', s')" "A' = A"
proof -
  obtain r mp1 s1 where m: "map_pages MP alloc ps mp s = Inr (r, mp1, s1)"
    using assms by (auto simp: init_heap_def rbind_eq_Inr)
  then obtain e' where "r = Inl e'" using assms by (cases r) (auto simp: init_heap_def rbind_eq_Inr)
  with m assms show "map_pages MP alloc ps mp s = Inr (Inl e, mp', s')" "A' = A"
    by (auto simp: init_heap_def)
qed

text \<open>The pages of the heap are mapped to frames \<open>frames\<close>, and nothing else changed.\<close>

definition heap_mapped :: "('pg \<Rightarrow> u64) \<Rightarrow> ('pg \<rightharpoonup> 'f \<times> 'fl) \<Rightarrow> ('pg \<rightharpoonup> 'f \<times> 'fl) \<Rightarrow> 'fl \<Rightarrow> 'f list \<Rightarrow> bool" where
  "heap_mapped pa old new flags frames =
     (\<exists>ps. map (\<lambda>p. unat (pa p)) ps = heap_page_addrs \<and> distinct ps \<and>
        length frames = 25 \<and> distinct frames \<and> (\<forall>p \<in> set ps. old p = None) \<and>
        (\<forall>i < 25. new (ps ! i) = Some (frames ! i, flags)) \<and> (\<forall>p. p \<notin> set ps \<longrightarrow> new p = old p))"

lemma map_upds_nth:
  "distinct ps \<Longrightarrow> length xs = length ps \<Longrightarrow> i < length ps \<Longrightarrow> (m(ps [\<mapsto>] xs)) (ps ! i) = Some (xs ! i)"
proof (induction ps arbitrary: m xs i)
  case (Cons p ps)
  then obtain x ys where xs: "xs = x # ys" by (cases xs) auto
  show ?case
  proof (cases i)
    case 0
    then show ?thesis using Cons.prems xs by (simp add: map_upds_apply_nontin)
  next
    case (Suc j)
    moreover have "ps ! j \<noteq> p" using Cons.prems Suc by auto
    ultimately show ?thesis using Cons xs by simp
  qed
qed simp

lemma heap_mappedI:
  assumes "map (\<lambda>p. unat (pa p)) ps = heap_page_addrs" "length frames = length ps"
    and "distinct ps" "distinct frames" "\<forall>p \<in> set ps. old p = None" "new = old(ps [\<mapsto>] map (\<lambda>f. (f, flags)) frames)"
  shows "heap_mapped pa old new flags frames"
proof -
  have len: "length ps = 25" using arg_cong [OF assms(1), of length] by simp
  show ?thesis
    unfolding heap_mapped_def
    using assms len
    by (intro exI [of _ ps]) (simp add: map_upds_nth map_upds_apply_nontin)
qed

lemma heap_mapped_covers:
  assumes "heap_mapped pa old new flags frames" "unat HEAP_START \<le> x" "x < unat HEAP_START + unat HEAP_SIZE"
  shows "\<exists>p f. f \<in> set frames \<and> new p = Some (f, flags) \<and> unat (pa p) \<le> x \<and> x < unat (pa p) + 4096"
proof -
  obtain ps where ps: "map (\<lambda>p. unat (pa p)) ps = heap_page_addrs" "length frames = 25"
      "\<forall>i < 25. new (ps ! i) = Some (frames ! i, flags)"
    using assms(1) unfolding heap_mapped_def by blast
  obtain k where k: "x = unat HEAP_START + k" "k < 102400"
    using assms(2,3) by (auto simp: unat_HEAP(2) le_iff_add)
  define i where "i = k div 4096"
  have i: "i < 25" using k(2) by (simp add: i_def less_mult_imp_div_less)
  have len: "length ps = 25" using arg_cong [OF ps(1), of length] by simp
  have "unat (pa (ps ! i)) = heap_page_addrs ! i" using i len by (simp flip: ps(1))
  also have "\<dots> = unat HEAP_START + 4096 * i" using i by (simp add: heap_page_addrs_def)
  finally have "unat (pa (ps ! i)) \<le> x \<and> x < unat (pa (ps ! i)) + 4096"
    using div_mult_mod_eq [of k 4096] mod_less_divisor [of 4096 k] k(1) unfolding i_def by linarith
  moreover have "frames ! i \<in> set frames" using i ps(2) by simp
  ultimately show ?thesis using ps(3) i by blast
qed

context frame_contract
begin

lemma map_pages_mapped:
  assumes "mapper_spec MP lookup" "inv s F" "map (\<lambda>p. unat (pa p)) ps = heap_page_addrs"
    and "map_pages MP alloc ps mp s = Inr (Inr u, mp', s')"
  shows "\<exists>frames. heap_mapped pa (lookup mp) (lookup mp') (flags_or MP (PRESENT MP) (WRITABLE MP)) frames \<and>
    (\<forall>f \<in> set frames. pool f \<and> f \<notin> F)"
proof -
  obtain frames where "length frames = length ps" "distinct frames" "\<forall>f \<in> set frames. pool f \<and> f \<notin> F"
      "distinct ps" "\<forall>p \<in> set ps. lookup mp p = None"
      "lookup mp' = (lookup mp)(ps [\<mapsto>] map (\<lambda>f. (f, flags_or MP (PRESENT MP) (WRITABLE MP))) frames)"
    using map_pages_ok [OF assms(1,2,4)] by metis
  then show ?thesis by (intro exI [of _ frames] conjI heap_mappedI [OF assms(3)])
qed

end

section \<open>A concrete boot, for the witnesses\<close>

abbreviation (input) ex_page :: "(u64, u64) page_ops" where
  "ex_page \<equiv> \<lparr>virt_new = Inr, virt_add_usize = uadd, virt_sub = usub,
     page_containing_address = \<lambda>v. word_of_nat (unat v div 4096 * 4096),
     page_range_inclusive = \<lambda>p q. map (\<lambda>i. word_of_nat (unat p + 4096 * i)) [0..<(unat q - unat p) div 4096 + 1]\<rparr>"

lemma ex_page_spec: "page_spec ex_page (\<lambda>v. v) (\<lambda>p. p)"
  unfolding page_spec_def
proof (intro conjI allI impI)
  fix v n :: u64
  show "\<exists>w. virt_new ex_page v = Inr w \<and> w = v" by simp
  show "unat v + unat n < 2 ^ 47 \<Longrightarrow> \<exists>w. virt_add_usize ex_page v n = Inr w \<and> unat w = unat v + unat n"
    by (simp add: uadd_def unat_add64)
  show "unat n \<le> unat v \<and> unat v < 2 ^ 47 \<Longrightarrow> \<exists>w. virt_sub ex_page v n = Inr w \<and> unat w = unat v - unat n"
    by (simp add: usub_def word_le_nat_alt unat_sub64)
  have "unat v div 4096 * 4096 \<le> unat v" by simp
  also have "unat v < 2 ^ 64" by simp
  finally show "unat (page_containing_address ex_page v) = unat v - unat v mod 4096"
    unfolding page_ops.simps by (subst unat_word_of_nat64) (simp_all add: minus_mod_eq_div_mult)
next
  fix p q :: u64 assume "p \<le> q"
  then have pq: "unat p \<le> unat q" by (simp add: word_le_nat_alt)
  have "unat (word_of_nat (unat p + 4096 * i) :: u64) = unat p + 4096 * i" if "i < (unat q - unat p) div 4096 + 1" for i
  proof (rule unat_word_of_nat64)
    have "i \<le> (unat q - unat p) div 4096" using that by simp
    then have "4096 * i \<le> 4096 * ((unat q - unat p) div 4096)" by simp
    also have "\<dots> \<le> unat q - unat p" by simp
    finally have "unat p + 4096 * i \<le> unat q" using pq by simp
    then show "unat p + 4096 * i < 2 ^ 64" by (rule le_less_trans) simp
  qed
  then show "map (\<lambda>r. unat r) (page_range_inclusive ex_page p q) =
      map (\<lambda>i. unat p + 4096 * i) [0..<(unat q - unat p) div 4096 + 1]"
    by (simp del: upt_Suc add: comp_def)
qed

abbreviation (input) ex_heap_map :: "(u64 \<times> u64 \<times> bool) list" where
  "ex_heap_map \<equiv> [(4096, 106496, True)]"

lemma ex_heap_map_spec: "memory_map_spec ex_map_ops ex_heap_map"
  by (simp add: memory_map_spec_def usable_regions_def)

lemma ex_heap_map_frames: "25 \<le> length (usable_addrs ex_map_ops ex_heap_map)"
proof -
  let ?xs = "usable_addrs ex_map_ops ex_heap_map" and ?f = "\<lambda>i :: nat. word_of_nat (4096 + 4096 * i) :: u64"
  have u: "unat (?f i) = 4096 + 4096 * i" if "i < 25" for i
    using that by (intro unat_word_of_nat64) simp
  have "?f i \<in> set ?xs" if "i < 25" for i
    using that u [OF that] unfolding usable_addrs_iff [OF ex_heap_map_spec]
    by (simp add: usable_regions_def word_le_nat_alt word_less_nat_alt)
  then have "?f ` {..<25} \<subseteq> set ?xs" by blast
  moreover have "inj_on ?f {..<25}"
    by (rule inj_onI) (metis add_left_cancel lessThan_iff mult_cancel1 u zero_neq_numeral)
  ultimately have "25 \<le> card (set ?xs)" using card_mono [of "set ?xs" "?f ` {..<25}"] card_image by fastforce
  then show ?thesis using card_length [of ?xs] by simp
qed

lemma ex_map_pages:
  assumes "alloc_frames alloc (length ps) s = Inr (map Some fs, s')" "distinct ps" "\<forall>p \<in> set ps. mp p = None"
  shows "\<exists>mp'. map_pages ex_mapper alloc ps mp s = Inr (Inr (), mp', s')"
  using assms
proof (induction ps arbitrary: s fs mp)
  case (Cons p ps)
  then obtain f gs s1 where "fs = f # gs" "alloc s = Inr (Some f, s1)" "alloc_frames alloc (length ps) s1 = Inr (map Some gs, s')"
    by (auto simp: rbind_eq_Inr map_eq_Cons_conv)
  moreover have "\<forall>q \<in> set ps. (mp(p \<mapsto> (f, 3))) q = None" using Cons.prems(2,3) by auto
  ultimately show ?case using Cons.IH [of s1 gs "mp(p \<mapsto> (f, 3))"] Cons.prems
    by (simp del: fun_upd_apply)
qed simp

lemma ex_alloc_25:
  "\<exists>fs s'. alloc_frames (boot_allocate_frame ex_map_ops ex_phys) 25 (boot_init ex_heap_map) = Inr (map Some fs, s')"
  by (rule alloc_frames_boot_enough [OF ex_phys_spec ex_heap_map_spec ex_heap_map_frames]) simp

lemma ex_init_heap:
  "\<exists>mp' s' h. ll_init (ll_new Map.empty) HEAP_START HEAP_SIZE = Inr h \<and>
     init_heap ll_heap_ops ex_page ex_mapper (boot_allocate_frame ex_map_ops ex_phys) Map.empty
       (boot_init ex_heap_map) (fsb_new ll_heap_ops Map.empty) =
     Inr (Inr (), mp', s', \<lparr>fs_list_heads = replicate 9 None, fs_fallback = h, fs_mem = Map.empty\<rparr>)"
proof -
  obtain ps where ps: "heap_page_range ex_page = Inr ps" "map unat ps = heap_page_addrs"
    using heap_pages [OF ex_page_spec] by auto
  have "length ps = 25" using arg_cong [OF ps(2), of length] by simp
  moreover have "distinct ps"
    using ps(2) by (intro distinct_map [THEN iffD1, THEN conjunct1, of unat])
      (simp add: heap_page_addrs_def distinct_map inj_on_def del: upt_rec_numeral)
  ultimately obtain mp' s' where m: "map_pages ex_mapper (boot_allocate_frame ex_map_ops ex_phys) ps Map.empty
      (boot_init ex_heap_map) = Inr (Inr (), mp', s')"
    using ex_alloc_25 ex_map_pages [of "boot_allocate_frame ex_map_ops ex_phys" ps "boot_init ex_heap_map" _ _ Map.empty]
    by auto
  obtain h where h: "ll_init (ll_new Map.empty) HEAP_START HEAP_SIZE = Inr h"
    using add_free_region_eq [of HEAP_START HEAP_SIZE "ll_new Map.empty"]
    by (auto simp: ll_init_def unat_HEAP)
  then have "fsb_init ll_heap_ops (fsb_new ll_heap_ops Map.empty) HEAP_START HEAP_SIZE =
      Inr \<lparr>fs_list_heads = replicate 9 None, fs_fallback = h, fs_mem = Map.empty\<rparr>"
    by (simp add: fsb_init_def fsb_new_def ll_heap_ops_def)
  with h m ps(1) show ?thesis by (auto simp: init_heap_def)
qed

section \<open>Properties\<close>

text \<open>
  C24: when \<open>init_heap\<close> succeeds, exactly the 25 pages of the heap have been mapped, present and
  writable, to 25 different frames that the frame allocator had not handed out before, and the
  global allocator has been initialised with the bounds of the heap.
\<close>

theorem init_heap_maps_heap:
  assumes "page_spec PG va pa" "mapper_spec MP lookup" "frame_contract alloc finv pool" "finv s F"
    and "init_heap H PG MP alloc mp s A = Inr (Inr (), mp', s', A')"
  shows "\<exists>frames. heap_mapped pa (lookup mp) (lookup mp') (flags_or MP (PRESENT MP) (WRITABLE MP)) frames \<and>
    (\<forall>f \<in> set frames. pool f \<and> f \<notin> F) \<and> fsb_init H A HEAP_START HEAP_SIZE = Inr A'"
proof -
  obtain ps where ps: "heap_page_range PG = Inr ps"
      "map (\<lambda>p. unat (pa p)) ps = heap_page_addrs"
    using heap_pages [OF assms(1)] by blast
  note d = init_heap_okD [OF assms(5) ps(1)]
  show ?thesis using frame_contract.map_pages_mapped [OF assms(3,2,4) ps(2) d(1)] d(2) by blast
qed

theorem init_heap_maps_heap_witness:
  "\<exists>mp' s' A frames. init_heap ll_heap_ops ex_page ex_mapper (boot_allocate_frame ex_map_ops ex_phys) Map.empty
       (boot_init ex_heap_map) (fsb_new ll_heap_ops Map.empty) = Inr (Inr (), mp', s', A) \<and>
     heap_mapped (\<lambda>p. p) Map.empty mp' 3 frames"
proof -
  obtain mp' s' A where i: "init_heap ll_heap_ops ex_page ex_mapper (boot_allocate_frame ex_map_ops ex_phys)
      Map.empty (boot_init ex_heap_map) (fsb_new ll_heap_ops Map.empty) = Inr (Inr (), mp', s', A)"
    using ex_init_heap by blast
  from init_heap_maps_heap [OF ex_page_spec ex_mapper_spec boot_frames.frame_contract_axioms
      boot_init_inv [OF ex_phys_spec ex_heap_map_spec] i]
  show ?thesis using i by auto
qed

text \<open>
  When \<open>init_heap\<close> reports an error the global allocator is untouched, so every later
  allocation is still refused, and only some of the first pages of the heap have been mapped.
\<close>

lemma init_heap_error_untouched:
  assumes "page_spec PG va pa" "mapper_spec MP lookup"
    and "init_heap H PG MP alloc mp s A = Inr (Inl e, mp', s', A')"
  shows "A' = A \<and> (\<exists>ps frames. length frames = length ps \<and> length ps < 25 \<and>
    map (\<lambda>p. unat (pa p)) ps = take (length ps) heap_page_addrs \<and>
    lookup mp' = (lookup mp)(ps [\<mapsto>] map (\<lambda>f. (f, flags_or MP (PRESENT MP) (WRITABLE MP))) frames))"
proof -
  obtain ps where ps: "heap_page_range PG = Inr ps"
      "map (\<lambda>p. unat (pa p)) ps = heap_page_addrs"
    using heap_pages [OF assms(1)] by blast
  have len: "length ps = 25" using arg_cong [OF ps(2), of length] by simp
  note d = init_heap_errorD [OF assms(3) ps(1)]
  obtain k frames where k: "k < length ps" "length frames = k"
      "lookup mp' = (lookup mp)(take k ps [\<mapsto>] map (\<lambda>f. (f, flags_or MP (PRESENT MP) (WRITABLE MP))) frames)"
    using map_pages_errorD [OF assms(2) d(1)] by blast
  have "map (\<lambda>p. unat (pa p)) (take k ps) = take k heap_page_addrs"
    using arg_cong [OF ps(2), of "take k"] by (simp add: take_map)
  then show ?thesis using k d(2) len by (intro conjI exI [of _ "take k ps"] exI [of _ frames]) auto
qed



end
