(* ===== verification/Kernel.thy ===== *)
theory Kernel
  imports Interrupts Executor Heap_Init
begin

text \<open>
  \<^verbatim>\<open>src/lib.rs\<close> and \<^verbatim>\<open>src/main.rs\<close>: setting up the CPU, the test runner, and the tasks that the kernel
  starts. What a test or a task prints is the list of messages; how a message gets to the screen
  is in \<open>Vga_Buffer\<close> and \<open>Interrupts\<close>.
\<close>

section \<open>Setting up the CPU\<close>

text \<open>The first two statements of \<open>init\<close>; the others are \<open>init_code\<close> in \<open>Interrupts\<close>.\<close>

definition init_tables ::
  "('v, 'tss, 'd, 'gdt, 'sel) gdt_ops \<Rightarrow> (handler, 'idt) idt_ops \<Rightarrow> u64 \<Rightarrow> ('gdt, 'sel, 'idt) cpu \<Rightarrow> ('gdt, 'sel, 'idt) cpu result" where
  "init_tables G I STACK c = rbind (gdt_init G STACK c) (init_idt I)"

section \<open>The test runner\<close>

datatype qemu_exit_code = Success | Failure

fun exit_code_as_u32 :: "qemu_exit_code \<Rightarrow> u32" where
  "exit_code_as_u32 Success = 0x10"
| "exit_code_as_u32 Failure = 0x11"

text \<open>
  The world that the tests act on, the bytes sent over the serial line, and the values written to
  the port of the exit device.
\<close>

record 'w test_state =
  ts_world :: 'w
  ts_serial :: bytes
  ts_exit_port :: "u32 list"

definition serial_out :: "bytes \<Rightarrow> 'w test_state \<Rightarrow> 'w test_state" where
  "serial_out s st = st\<lparr>ts_serial := ts_serial st @ s\<rparr>"

definition exit_qemu :: "qemu_exit_code \<Rightarrow> 'w test_state \<Rightarrow> 'w test_state" where
  "exit_qemu exit_code st = st\<lparr>ts_exit_port := ts_exit_port st @ [exit_code_as_u32 exit_code]\<rparr>"

text \<open>\<open>Display\<close> of an unsigned number.\<close>

fun decimal :: "nat \<Rightarrow> bytes" where
  "decimal n = (if n < 10 then [48 + word_of_nat n] else decimal (n div 10) @ [48 + word_of_nat (n mod 10)])"

text \<open>A test: its type name, and the function.\<close>

record 'w test_case =
  tc_name :: bytes
  tc_fun :: "'w \<Rightarrow> 'w result"

text \<open>A panic does not unwind: the panic handler runs in the state in which it happened.\<close>

definition testable_run :: "'w test_case \<Rightarrow> 'w test_state \<Rightarrow> panic \<times> 'w test_state + 'w test_state" where
  "testable_run self st =
     (let st = serial_out (tc_name self @ ascii ''...'' @ [0x09]) st in
      case tc_fun self (ts_world st) of
        Inl e \<Rightarrow> Inl (e, st)
      | Inr w \<Rightarrow> Inr (serial_out (ascii ''[ok]'' @ [0x0a]) (st\<lparr>ts_world := w\<rparr>)))"

fun run_tests :: "'w test_case list \<Rightarrow> 'w test_state \<Rightarrow> panic \<times> 'w test_state + 'w test_state" where
  "run_tests [] st = Inr st"
| "run_tests (test # tests) st = rbind (testable_run test st) (run_tests tests)"

definition test_runner :: "'w test_case list \<Rightarrow> 'w test_state \<Rightarrow> panic \<times> 'w test_state + 'w test_state" where
  "test_runner tests st =
     (let st = serial_out (ascii ''Running '' @ decimal (length tests) @ ascii '' tests'' @ [0x0a]) st in
      rbind (run_tests tests st) (\<lambda>st. Inr (exit_qemu Success st)))"

text \<open>\<open>test_panic_handler\<close> up to its endless loop; \<open>fmt_info\<close> is \<open>Display\<close> of \<open>PanicInfo\<close>.\<close>

definition test_panic_handler :: "(panic \<Rightarrow> bytes) \<Rightarrow> panic \<Rightarrow> 'w test_state \<Rightarrow> 'w test_state" where
  "test_panic_handler fmt_info info st =
     exit_qemu Failure (serial_out (ascii ''Error: '' @ fmt_info info @ [0x0a, 0x0a])
       (serial_out (ascii ''[failed]'' @ [0x0a, 0x0a]) st))"

text \<open>\<open>test_kernel_main\<close> up to its endless loop, with the panic handler of test builds.\<close>

definition test_kernel_main ::
  "(panic \<Rightarrow> bytes) \<Rightarrow> ('v, 'tss, 'd, 'gdt, 'sel) gdt_ops \<Rightarrow> (handler, 'idt) idt_ops \<Rightarrow> u64 \<Rightarrow> ('gdt, 'sel, 'idt) cpu \<Rightarrow>
    'w test_case list \<Rightarrow> 'w test_state \<Rightarrow> 'w test_state" where
  "test_kernel_main fmt_info G I STACK c tests st =
     (case init_tables G I STACK c of
        Inl e \<Rightarrow> test_panic_handler fmt_info e st
      | Inr c' \<Rightarrow>
          (case test_runner tests st of
             Inl (e, st') \<Rightarrow> test_panic_handler fmt_info e st'
           | Inr st' \<Rightarrow> st'))"

section \<open>The tasks\<close>

definition async_number :: u32 where "async_number = 42"

text \<open>The futures that \<open>kernel_main\<close> spawns, and what is printed and shared between them.\<close>

datatype 'kbd kernel_future = ExampleTask | PrintKeypresses "'kbd print_keypresses"

record ('oc, 'aw) kernel_world =
  kw_console :: "bytes list"
  kw_kb :: "('oc, 'aw) keyboard_statics"

definition print_line :: "bytes list \<Rightarrow> ('oc, 'aw) kernel_world \<Rightarrow> ('oc, 'aw) kernel_world" where
  "print_line ms w = w\<lparr>kw_console := kw_console w @ ms\<rparr>"

fun kernel_poll ::
  "('oc, 'q) once_ops \<Rightarrow> ('q, u8) queue_ops \<Rightarrow> ('aw, task_waker) atomic_waker_ops \<Rightarrow>
    ('kbd, 'er, 'ev, 'ch, 'kc) pc_keyboard_ops \<Rightarrow>
    ('kbd kernel_future, task_waker, ('oc, 'aw) kernel_world) future_poll" where
  "kernel_poll OC Q AW KB ExampleTask cx w =
     (let number = async_number in
      Some (Inr (Ready, ExampleTask, [], print_line [ascii ''async number: '' @ decimal (unat number) @ [0x0a]] w)))"
| "kernel_poll OC Q AW KB (PrintKeypresses f) cx w =
     map_option (\<lambda>r. rbind r (\<lambda>(printed, f', kb).
         Inr (Pending, PrintKeypresses f', [], print_line printed (w\<lparr>kw_kb := kb\<rparr>))))
       (print_keypresses_poll OC Q AW KB cx f (kw_kb w))"

definition kernel_spawn :: "('tq, task_id) queue_ops \<Rightarrow> u64 \<Rightarrow> ('kbd kernel_future, 'tq) executor result" where
  "kernel_spawn TQ NEXT_ID =
     (let executor = executor_new TQ; (task1, next) = task_new NEXT_ID ExampleTask in
      rbind (spawn TQ task1 executor) (\<lambda>executor.
      let (task2, next) = task_new next (PrintKeypresses NotStarted) in
      spawn TQ task2 executor))"

text \<open>A keyboard interrupt as the executor sees it: the scancode, the warning, the wake-up.\<close>

definition key_interrupt ::
  "('oc, 'q) once_ops \<Rightarrow> ('q, u8) queue_ops \<Rightarrow> ('aw, task_waker) atomic_waker_ops \<Rightarrow> ('tq, task_id) queue_ops \<Rightarrow> u8 \<Rightarrow>
    ('f, 'tq) executor \<times> ('oc, 'aw) kernel_world \<Rightarrow> (('f, 'tq) executor \<times> ('oc, 'aw) kernel_world) result" where
  "key_interrupt OC Q AW TQ scancode s =
     (case s of (ex, w) \<Rightarrow>
        case add_scancode OC Q AW scancode (kw_kb w) of (woken, messages, kb) \<Rightarrow>
          rbind (case woken of None \<Rightarrow> Inr (ex_task_queue ex) | Some waker \<Rightarrow> wake TQ waker (ex_task_queue ex)) (\<lambda>q.
            Inr (ex\<lparr>ex_task_queue := q\<rparr>, print_line messages (w\<lparr>kw_kb := kb\<rparr>))))"

section \<open>The tables are installed\<close>

lemma init_tables_ok:
  assumes "tss_spec G va ist" "gdt_spec G descriptor used" "idt_spec I entry" "unat STACK + 20480 < 2 ^ 47"
  shows "\<exists>g (s :: _ selectors) idt t v. init_tables G I STACK c = Inr (c\<lparr>cpu_gdtr := Some g, cpu_cs := Some (code_selector s),
      cpu_tr := Some (tss_selector s), cpu_idtr := Some idt\<rparr>) \<and>
    descriptor g (code_selector s) = Some (kernel_code_segment G) \<and>
    descriptor g (tss_selector s) = Some (tss_segment G t) \<and> entry idt = idt_table \<and>
    ist t 0 = Some v \<and> unat (va v) = unat STACK + 20480"
proof -
  obtain t v where t: "TSS_new G STACK = Inr t" "ist t 0 = Some v" "unat (va v) = unat STACK + 20480"
    using TSS_new_ok [OF assms(1,4)] by blast
  obtain g s where g: "GDT_new G t = Inr (g, s)" "descriptor g (code_selector s) = Some (kernel_code_segment G)"
      "descriptor g (tss_selector s) = Some (tss_segment G t)"
    using GDT_new_ok [OF assms(2)] by blast
  obtain idt where idt: "IDT_new I = Inr idt" "entry idt = idt_table" using IDT_new_ok [OF assms(3)] by blast
  have "init_tables G I STACK c = Inr (c\<lparr>cpu_gdtr := Some g, cpu_cs := Some (code_selector s),
      cpu_tr := Some (tss_selector s), cpu_idtr := Some idt\<rparr>)"
    using t(1) g(1) idt(1) by (simp add: init_tables_def gdt_init_def init_idt_def)
  then show ?thesis using t(2,3) g(2,3) idt(2) by blast
qed

section \<open>The verdict of the test runner\<close>

text \<open>The position of the first test that panics, the panic and the world it started in; or the
  world after all tests.\<close>

fun first_failure :: "'w test_case list \<Rightarrow> 'w \<Rightarrow> nat \<times> panic \<times> 'w + 'w" where
  "first_failure [] w = Inr w"
| "first_failure (t # ts) w =
     (case tc_fun t w of
        Inl e \<Rightarrow> Inl (0, e, w)
      | Inr w' \<Rightarrow> (case first_failure ts w' of Inl (n, x) \<Rightarrow> Inl (Suc n, x) | Inr w'' \<Rightarrow> Inr w''))"

definition ok_line :: "'w test_case \<Rightarrow> bytes" where
  "ok_line t = tc_name t @ ascii ''...'' @ [0x09] @ ascii ''[ok]'' @ [0x0a]"

lemma run_tests_eq:
  "run_tests ts st =
     (case first_failure ts (ts_world st) of
        Inr w \<Rightarrow> Inr (st\<lparr>ts_world := w, ts_serial := ts_serial st @ concat (map ok_line ts)\<rparr>)
      | Inl (n, e, w) \<Rightarrow> Inl (e, st\<lparr>ts_world := w,
          ts_serial := ts_serial st @ concat (map ok_line (take n ts)) @ tc_name (ts ! n) @ ascii ''...'' @ [0x09]\<rparr>))"
proof (induction ts arbitrary: st)
  case (Cons t ts)
  show ?case
  proof (cases "tc_fun t (ts_world st)")
    case (Inr w)
    then show ?thesis
      using Cons.IH [of "serial_out (ascii ''[ok]'' @ [0x0a]) (serial_out (tc_name t @ ascii ''...'' @ [0x09]) st\<lparr>ts_world := w\<rparr>)"]
      by (auto simp: testable_run_def serial_out_def ok_line_def [abs_def] split: sum.splits)
  qed (simp add: testable_run_def serial_out_def)
qed simp

lemma first_failure_lt: "first_failure ts w = Inl (n, x) \<Longrightarrow> n < length ts"
  by (induction ts arbitrary: w n) (auto split: sum.splits)

section \<open>From the key to the screen\<close>

text \<open>
  The kernel between rounds: only the task \<open>i\<close> is left, which waits for key presses with decoder
  \<open>kbd\<close>; the scancodes \<open>xs\<close> have arrived, and the task is in the queue of the executor if there are
  any, and otherwise its waker is registered.
\<close>

definition awaits ::
  "('oc, 'q) once_ops \<Rightarrow> ('q \<Rightarrow> u8 list) \<Rightarrow> ('q \<Rightarrow> nat) \<Rightarrow> ('aw \<Rightarrow> task_waker option) \<Rightarrow> ('tq \<Rightarrow> task_id list) \<Rightarrow> ('tq \<Rightarrow> nat) \<Rightarrow>
    task_id \<Rightarrow> 'kbd \<Rightarrow> u8 list \<Rightarrow> ('kbd kernel_future, 'tq) executor \<Rightarrow> ('oc, 'aw) kernel_world \<Rightarrow> bool" where
  "awaits OC contents cap reg tcontents tcap i kbd xs ex w =
     (executor_inv ex \<and> ex_tasks ex = [i \<mapsto> \<lparr>t_id = i, t_future = PrintKeypresses (Looping kbd)\<rparr>] \<and>
      tcap (ex_task_queue ex) = 100 \<and> length xs \<le> 100 \<and>
      (\<exists>q. kb_queue OC (kw_kb w) = Some q \<and> contents q = xs \<and> cap q = 100) \<and>
      tcontents (ex_task_queue ex) = (if xs = [] then [] else [i]) \<and>
      reg (WAKER (kw_kb w)) = (if xs = [] then Some (task_waker_new i) else None))"

lemma print_line_sel [simp]:
  "kw_console (print_line ms w) = kw_console w @ ms" "kw_kb (print_line ms w) = kw_kb w"
  by (simp_all add: print_line_def)

lemma key_interrupt_awaits:
  assumes "once_spec OC" "queue_spec Q contents cap" "atomic_waker_spec AW reg" "queue_spec TQ tcontents tcap"
    and "awaits OC contents cap reg tcontents tcap i kbd xs ex w"
  shows "\<exists>ex' w' ms. key_interrupt OC Q AW TQ c (ex, w) = Inr (ex', w') \<and>
    awaits OC contents cap reg tcontents tcap i kbd (if length xs < 100 then xs @ [c] else xs) ex' w' \<and>
    kw_console w' = kw_console w @ ms \<and> length ms = (if length xs < 100 then 0 else 1)"
proof -
  obtain q where q: "kb_queue OC (kw_kb w) = Some q" "contents q = xs" "cap q = 100" and xs: "length xs \<le> 100"
    using assms(5) by (auto simp: awaits_def)
  show ?thesis
  proof (cases "length xs < 100")
    case True
    obtain kb q' where kb: "add_scancode OC Q AW c (kw_kb w) = (reg (WAKER (kw_kb w)), [], kb)" "kb_queue OC kb = Some q'"
        "contents q' = xs @ [c]" "cap q' = 100" "reg (WAKER kb) = None"
      using add_scancode_room [OF assms(1-3) q(1), of c] q(2,3) True by auto
    obtain tq where tq: "xs = [] \<Longrightarrow> aq_push TQ (ex_task_queue ex) i = Some tq \<and> tcontents tq = [i] \<and> tcap tq = 100"
      using queue_specD(3) [OF assms(4), of "ex_task_queue ex" i] assms(5) by (cases "xs = []") (auto simp: awaits_def)
    show ?thesis
      using assms(5) kb tq True by (cases "xs = []")
        (auto simp: awaits_def key_interrupt_def wake_def wake_task_def task_waker_new_def)
  next
    case False
    then show ?thesis
      using add_scancode_full [OF assms(2) q(1), of AW c] q assms(5) by (auto simp: key_interrupt_def awaits_def)
  qed
qed

lemma key_interrupts_awaits:
  assumes "once_spec OC" "queue_spec Q contents cap" "atomic_waker_spec AW reg" "queue_spec TQ tcontents tcap"
    and "awaits OC contents cap reg tcontents tcap i kbd xs ex w"
  shows "\<exists>ex' w' ms. rfold (key_interrupt OC Q AW TQ) cs (ex, w) = Inr (ex', w') \<and>
    awaits OC contents cap reg tcontents tcap i kbd (xs @ take (100 - length xs) cs) ex' w' \<and>
    kw_console w' = kw_console w @ ms \<and> length ms = length cs - (100 - length xs)"
  using assms(5)
proof (induction cs arbitrary: xs ex w)
  case (Cons c cs)
  let ?ys = "if length xs < 100 then xs @ [c] else xs"
  obtain ex1 w1 ms1 where 1: "key_interrupt OC Q AW TQ c (ex, w) = Inr (ex1, w1)"
      "awaits OC contents cap reg tcontents tcap i kbd ?ys ex1 w1"
      "kw_console w1 = kw_console w @ ms1" "length ms1 = (if length xs < 100 then 0 else 1)"
    using key_interrupt_awaits [OF assms(1-4) Cons.prems, of c] by blast
  obtain ex2 w2 ms2 where 2: "rfold (key_interrupt OC Q AW TQ) cs (ex1, w1) = Inr (ex2, w2)"
      "awaits OC contents cap reg tcontents tcap i kbd (?ys @ take (100 - length ?ys) cs) ex2 w2"
      "kw_console w2 = kw_console w1 @ ms2" "length ms2 = length cs - (100 - length ?ys)"
    using Cons.IH [OF 1(2)] by blast
  have "length xs \<le> 100" using Cons.prems by (simp add: awaits_def)
  then have "?ys @ take (100 - length ?ys) cs = xs @ take (100 - length xs) (c # cs)"
      "length ms1 + length ms2 = length (c # cs) - (100 - length xs)"
    using 1(4) 2(4) by (auto simp: take_Cons')
  then show ?case using 1 2 by (intro exI [of _ ex2] exI [of _ w2] exI [of _ "ms1 @ ms2"]) simp
qed (auto intro: exI [of _ "[]"])

lemma run_poll:
  assumes "executor_inv ex" "aq_pop Q (ex_task_queue ex) = Some (i, q)" "ex_tasks ex i = Some t"
    and "FP (t_future t) (task_waker_new i) w = Some (Inr (p, f, [], w'))"
  shows "run_ready_tasks Q FP ex w = run_ready_tasks Q FP (after_poll ex i p (t\<lparr>t_future := f\<rparr>) q) w'"
  by (subst run_ready_tasks_round) (simp add: ready_round_poll [OF assms(1-3)] assms(4) wake_all_def)

lemma run_empty:
  "queue_spec Q contents cap \<Longrightarrow> contents (ex_task_queue ex) = [] \<Longrightarrow> run_ready_tasks Q FP ex w = Some (Inr (ex, w))"
  by (subst run_ready_tasks_round) (simp add: ready_round_None queue_specD(5))

lemma run_awaits:
  assumes "once_spec OC" "queue_spec Q contents cap" "atomic_waker_spec AW reg" "queue_spec TQ tcontents tcap"
    and "awaits OC contents cap reg tcontents tcap i kbd xs ex w"
  shows "\<exists>ex' w'. run_ready_tasks TQ (kernel_poll OC Q AW KB) ex w = Some (Inr (ex', w')) \<and>
    kw_console w' = kw_console w @ fst (decode_all KB xs kbd) \<and>
    awaits OC contents cap reg tcontents tcap i (snd (decode_all KB xs kbd)) [] ex' w'"
proof (cases xs)
  case Nil
  then show ?thesis using assms(5) run_empty [OF assms(4), of ex "kernel_poll OC Q AW KB" w] by (auto simp: awaits_def)
next
  case (Cons x ys)
  let ?f = "Looping (snd (decode_all KB xs kbd))"
  obtain q where q: "kb_queue OC (kw_kb w) = Some q" "contents q = xs" "cap q = 100"
    using assms(5) by (auto simp: awaits_def)
  obtain kb q' where kb: "print_keypresses_poll OC Q AW KB (task_waker_new i) (Looping kbd) (kw_kb w) =
        Some (Inr (fst (decode_all KB xs kbd), ?f, kb))"
      "kb_queue OC kb = Some q'" "contents q' = []" "cap q' = 100" "reg (WAKER kb) = Some (task_waker_new i)"
    using keypress_loop_drains [OF assms(1-3) q(1), of KB "task_waker_new i" "[]" kbd] q(2,3)
    by (auto simp: print_keypresses_poll_def)
  obtain tq where tq: "aq_pop TQ (ex_task_queue ex) = Some (i, tq)" "tcontents tq = []" "tcap tq = 100"
    using queue_specD(6) [OF assms(4), of "ex_task_queue ex" i "[]"] assms(5) Cons by (auto simp: awaits_def)
  let ?t = "\<lparr>t_id = i, t_future = PrintKeypresses (Looping kbd)\<rparr>"
  let ?w = "print_line (fst (decode_all KB xs kbd)) (w\<lparr>kw_kb := kb\<rparr>)"
  let ?ex = "after_poll ex i Pending (?t\<lparr>t_future := PrintKeypresses ?f\<rparr>) tq"
  have ex: "executor_inv ex" "ex_tasks ex i = Some ?t" "ex_tasks ex = [i \<mapsto> ?t]" using assms(5) by (auto simp: awaits_def)
  have "run_ready_tasks TQ (kernel_poll OC Q AW KB) ex w = Some (Inr (?ex, ?w))"
    using run_poll [OF ex(1) tq(1) ex(2), of "kernel_poll OC Q AW KB" w Pending "PrintKeypresses ?f" ?w] kb(1)
      run_empty [OF assms(4), of ?ex] tq(2) by simp
  moreover have "executor_inv ?ex" by (rule after_poll_inv [OF ex(1)]) simp
  ultimately show ?thesis using kb ex(3) tq(2,3) by (auto simp: awaits_def)
qed

lemma executor_new_props:
  "executor_inv (executor_new Q)" "ex_tasks (executor_new Q) = Map.empty" "ex_task_queue (executor_new Q) = aq_new Q 100"
  by (simp_all add: executor_new_def executor_inv_def)

lemma kernel_spawn_ok:
  fixes TQ :: "('tq, task_id) queue_ops"
  assumes "queue_spec TQ tcontents tcap"
  shows "\<exists>ex :: ('kbd kernel_future, 'tq) executor. kernel_spawn TQ n = Inr ex \<and> executor_inv ex \<and> tcontents (ex_task_queue ex) = [TaskId n, TaskId (n + 1)] \<and>
    tcap (ex_task_queue ex) = 100 \<and> ex_tasks ex = [TaskId n \<mapsto> \<lparr>t_id = TaskId n, t_future = ExampleTask\<rparr>,
      TaskId (n + 1) \<mapsto> \<lparr>t_id = TaskId (n + 1), t_future = PrintKeypresses NotStarted\<rparr>]"
proof -
  let ?t1 = "\<lparr>t_id = TaskId n, t_future = ExampleTask :: 'kbd kernel_future\<rparr>"
  let ?t2 = "\<lparr>t_id = TaskId (n + 1), t_future = PrintKeypresses NotStarted :: 'kbd kernel_future\<rparr>"
  note new = queue_specD(1,2) [OF assms, of 100]
  obtain ex1 where 1: "spawn TQ ?t1 (executor_new TQ) = Inr ex1" "executor_inv ex1" "ex_tasks ex1 = [TaskId n \<mapsto> ?t1]"
      "tcontents (ex_task_queue ex1) = [TaskId n]" "tcap (ex_task_queue ex1) = 100"
    using spawn_ok [OF assms executor_new_props(1) [of TQ], where t = ?t1] by (auto simp: executor_new_props new)
  obtain ex2 where "spawn TQ ?t2 ex1 = Inr ex2" "executor_inv ex2" "ex_tasks ex2 = (ex_tasks ex1)(TaskId (n + 1) \<mapsto> ?t2)"
      "tcontents (ex_task_queue ex2) = [TaskId n, TaskId (n + 1)]" "tcap (ex_task_queue ex2) = 100"
    using spawn_ok [OF assms 1(2), where t = ?t2] 1 by auto
  with 1 show ?thesis by (simp add: kernel_spawn_def task_new_def task_id_new_def)
qed

lemma decimal_42: "decimal 42 = ascii ''42''"
  by (simp add: decimal.simps [of 42] decimal.simps [of 4])

lemma boot_awaits:
  fixes TQ :: "('tq, task_id) queue_ops" and ex :: "('kbd kernel_future, 'tq) executor"
  assumes "once_spec OC" "queue_spec Q contents cap" "atomic_waker_spec AW reg" "queue_spec TQ tcontents tcap"
    and "kb_queue OC (kw_kb w) = None" "kernel_spawn TQ n = Inr ex"
  shows "\<exists>ex' w'. run_ready_tasks TQ (kernel_poll OC Q AW KB) ex w = Some (Inr (ex', w')) \<and>
    kw_console w' = kw_console w @ [ascii ''async number: 42'' @ [0x0a]] \<and>
    awaits OC contents cap reg tcontents tcap (TaskId (n + 1)) (kbd_new KB) [] ex' w'"
proof -
  let ?FP = "kernel_poll OC Q AW KB"
  let ?t2 = "\<lparr>t_id = TaskId (n + 1), t_future = PrintKeypresses NotStarted\<rparr>"
  have ex: "executor_inv ex" "tcontents (ex_task_queue ex) = [TaskId n, TaskId (n + 1)]" "tcap (ex_task_queue ex) = 100"
      "ex_tasks ex = [TaskId n \<mapsto> \<lparr>t_id = TaskId n, t_future = ExampleTask\<rparr>, TaskId (n + 1) \<mapsto> ?t2]"
    using kernel_spawn_ok [where 'kbd = 'kbd, OF assms(4), of n] assms(6) by auto
  obtain q1 where q1: "aq_pop TQ (ex_task_queue ex) = Some (TaskId n, q1)" "tcontents q1 = [TaskId (n + 1)]" "tcap q1 = 100"
    using queue_specD(6) [OF assms(4) ex(2)] ex(3) by auto
  obtain q2 where q2: "aq_pop TQ q1 = Some (TaskId (n + 1), q2)" "tcontents q2 = []" "tcap q2 = 100"
    using queue_specD(6) [OF assms(4) q1(2)] q1(3) by auto
  let ?w1 = "print_line [ascii ''async number: 42'' @ [0x0a]] w"
  let ?ex1 = "after_poll ex (TaskId n) Ready \<lparr>t_id = TaskId n, t_future = ExampleTask\<rparr> q1"
  have r1: "run_ready_tasks TQ ?FP ex w = run_ready_tasks TQ ?FP ?ex1 ?w1"
    using run_poll [OF ex(1) q1(1), of "\<lparr>t_id = TaskId n, t_future = ExampleTask\<rparr>" ?FP w Ready ExampleTask ?w1] ex(4)
    by (simp add: async_number_def decimal_42)
  have ex1: "executor_inv ?ex1" "ex_tasks ?ex1 = [TaskId (n + 1) \<mapsto> ?t2]"
    using after_poll_inv [OF ex(1)] ex(4) by (auto simp: fun_eq_iff)
  have t2: "ex_tasks ?ex1 (TaskId (n + 1)) = Some ?t2" by (simp only: ex1(2)) simp
  have p2: "aq_pop TQ (ex_task_queue ?ex1) = Some (TaskId (n + 1), q2)" using q2(1) by simp
  obtain kb0 where kb0: "scancode_stream_new OC Q (kw_kb w) = Inr kb0" "kb_queue OC kb0 = Some (aq_new Q 100)"
    using scancode_stream_new_ok [OF assms(1,5)] by blast
  obtain kb q where kb: "print_keypresses_poll OC Q AW KB (task_waker_new (TaskId (n + 1))) NotStarted (kw_kb w) =
        Some (Inr ([], Looping (kbd_new KB), kb))"
      "kb_queue OC kb = Some q" "contents q = []" "cap q = 100" "reg (WAKER kb) = Some (task_waker_new (TaskId (n + 1)))"
    using keypress_loop_drains [OF assms(1-3) kb0(2), of KB "task_waker_new (TaskId (n + 1))" "[]" "kbd_new KB"] kb0(1)
      queue_specD(1,2) [OF assms(2), of 100] by (auto simp: print_keypresses_poll_def)
  let ?w2 = "print_line [] (?w1\<lparr>kw_kb := kb\<rparr>)"
  let ?ex2 = "after_poll ?ex1 (TaskId (n + 1)) Pending (?t2\<lparr>t_future := PrintKeypresses (Looping (kbd_new KB))\<rparr>) q2"
  have "run_ready_tasks TQ ?FP ?ex1 ?w1 = Some (Inr (?ex2, ?w2))"
    using run_poll [OF ex1(1) p2 t2, of ?FP ?w1 Pending "PrintKeypresses (Looping (kbd_new KB))" ?w2]
      q2(2) kb(1) run_empty [OF assms(4), of ?ex2 ?FP ?w2] by simp
  moreover have "executor_inv ?ex2" by (rule after_poll_inv [OF ex1(1)]) simp
  ultimately show ?thesis using r1 kb q2 ex1(2) by (auto simp: awaits_def)
qed

text \<open>
  The loop of \<open>executor.run()\<close> as far as the tasks go: in each round the scancodes that arrive
  while the CPU sleeps, and then the tasks that are ready.
\<close>

fun kernel_rounds ::
  "('oc, 'q) once_ops \<Rightarrow> ('q, u8) queue_ops \<Rightarrow> ('aw, task_waker) atomic_waker_ops \<Rightarrow> ('kbd, 'er, 'ev, 'ch, 'kc) pc_keyboard_ops \<Rightarrow>
    ('tq, task_id) queue_ops \<Rightarrow> u8 list list \<Rightarrow> ('kbd kernel_future, 'tq) executor \<times> ('oc, 'aw) kernel_world \<Rightarrow>
    (('kbd kernel_future, 'tq) executor \<times> ('oc, 'aw) kernel_world) result option" where
  "kernel_rounds OC Q AW KB TQ [] s = Some (Inr s)"
| "kernel_rounds OC Q AW KB TQ (cs # css) s =
     (case rfold (key_interrupt OC Q AW TQ) cs s of
        Inl e \<Rightarrow> Some (Inl e)
      | Inr (ex, w) \<Rightarrow>
          (case run_ready_tasks TQ (kernel_poll OC Q AW KB) ex w of
             None \<Rightarrow> None
           | Some (Inl e) \<Rightarrow> Some (Inl e)
           | Some (Inr s') \<Rightarrow> kernel_rounds OC Q AW KB TQ css s'))"

lemma decode_all_append:
  "decode_all KB (xs @ ys) k =
     (fst (decode_all KB xs k) @ fst (decode_all KB ys (snd (decode_all KB xs k))), snd (decode_all KB ys (snd (decode_all KB xs k))))"
  by (induction xs arbitrary: k) (simp_all add: case_prod_beta)

lemma kernel_rounds_awaits:
  assumes "once_spec OC" "queue_spec Q contents cap" "atomic_waker_spec AW reg" "queue_spec TQ tcontents tcap"
    and "awaits OC contents cap reg tcontents tcap i kbd [] ex w" "\<forall>cs \<in> set css. length cs \<le> 100"
  shows "\<exists>ex' w'. kernel_rounds OC Q AW KB TQ css (ex, w) = Some (Inr (ex', w')) \<and>
    kw_console w' = kw_console w @ fst (decode_all KB (concat css) kbd)"
  using assms(5,6)
proof (induction css arbitrary: kbd ex w)
  case (Cons cs css)
  obtain ex1 w1 where 1: "rfold (key_interrupt OC Q AW TQ) cs (ex, w) = Inr (ex1, w1)"
      "awaits OC contents cap reg tcontents tcap i kbd cs ex1 w1" "kw_console w1 = kw_console w"
    using key_interrupts_awaits [OF assms(1-4) Cons.prems(1), of cs] Cons.prems(2) by auto
  obtain ex2 w2 where 2: "run_ready_tasks TQ (kernel_poll OC Q AW KB) ex1 w1 = Some (Inr (ex2, w2))"
      "kw_console w2 = kw_console w @ fst (decode_all KB cs kbd)"
      "awaits OC contents cap reg tcontents tcap i (snd (decode_all KB cs kbd)) [] ex2 w2"
    using run_awaits [OF assms(1-4) 1(2), of KB] 1(3) by auto
  show ?case using Cons.IH [OF 2(3)] Cons.prems(2) 1 2 by (auto simp: decode_all_append)
qed simp

section \<open>Concrete crates, for the witnesses\<close>

text \<open>A descriptor table is the list of its descriptors; the code segment is the empty one.\<close>

definition ex_gdt :: "(u64, nat \<rightharpoonup> u64, (nat \<rightharpoonup> u64) option, (nat \<rightharpoonup> u64) option list, nat) gdt_ops" where
  "ex_gdt = \<lparr>tss_new = Map.empty,
     tss_set_interrupt_stack = \<lambda>t i v. if i < 7 then Inr (t(i := Some v)) else Inl IndexOutOfBounds,
     virt_from_ptr = Inr, virt_plus = uadd, gdt_table_new = [], gdt_add_entry = \<lambda>g d. Inr (length g, g @ [d]),
     kernel_code_segment = None, tss_segment = Some\<rparr>"

lemma ex_tss_spec: "tss_spec ex_gdt (\<lambda>v. v) (\<lambda>t. t)"
  by (auto simp: tss_spec_def ex_gdt_def uadd_def unat_word_ariths(1))

lemma ex_gdt_spec: "gdt_spec ex_gdt (\<lambda>g s. if s < length g then Some (g ! s) else None) length"
  by (auto simp: gdt_spec_def ex_gdt_def nth_append fun_eq_iff)

definition ex_world :: "((u8 list \<times> nat) option, task_waker option) kernel_world" where
  "ex_world = \<lparr>kw_console = [], kw_kb = \<lparr>SCANCODE_QUEUE = None, WAKER = None\<rparr>\<rparr>"

definition ex_tests :: "nat test_case list" where
  "ex_tests = [\<lparr>tc_name = ascii ''a'', tc_fun = \<lambda>w. Inr (w + 1)\<rparr>,
     \<lparr>tc_name = ascii ''b'', tc_fun = \<lambda>w. if w = 0 then Inr w else Inl AssertFailed\<rparr>]"

section \<open>Properties\<close>

text \<open>
  C4: the kernel echoes the keyboard. After \<open>kernel_main\<close> has spawned its two tasks, the first
  round of the executor prints the number of the example task and leaves the keyboard task
  waiting; however the scancodes that follow are spread over rounds, at most a hundred in each,
  every round returns, and in the end what they all decode to has been printed, in order and
  without loss.
\<close>

theorem kernel_echoes_keys:
  fixes TQ :: "('tq, task_id) queue_ops" and KB :: "('kbd, 'er, 'ev, 'ch, 'kc) pc_keyboard_ops"
  assumes "once_spec OC" "queue_spec Q contents cap" "atomic_waker_spec AW reg" "queue_spec TQ tcontents tcap"
    and "kb_queue OC (kw_kb w) = None" "\<forall>cs \<in> set css. length cs \<le> 100"
  shows "\<exists>ex ex1 w1 ex2 w2. kernel_spawn TQ n = Inr ex \<and>
    run_ready_tasks TQ (kernel_poll OC Q AW KB) ex w = Some (Inr (ex1, w1)) \<and>
    kernel_rounds OC Q AW KB TQ css (ex1, w1) = Some (Inr (ex2, w2)) \<and>
    kw_console w2 = kw_console w @ [ascii ''async number: 42'' @ [0x0a]] @ fst (decode_all KB (concat css) (kbd_new KB))"
proof -
  obtain ex :: "('kbd kernel_future, 'tq) executor" where ex: "kernel_spawn TQ n = Inr ex"
    using kernel_spawn_ok [where 'kbd = 'kbd, OF assms(4), of n] by blast
  obtain ex1 w1 where 1: "run_ready_tasks TQ (kernel_poll OC Q AW KB) ex w = Some (Inr (ex1, w1))"
      "kw_console w1 = kw_console w @ [ascii ''async number: 42'' @ [0x0a]]"
      "awaits OC contents cap reg tcontents tcap (TaskId (n + 1)) (kbd_new KB) [] ex1 w1"
    using boot_awaits [OF assms(1-5) ex, of KB] by blast
  show ?thesis
    using ex 1 kernel_rounds_awaits [OF assms(1-4) 1(3) assms(6), of KB] by (auto simp del: list.map)
qed

theorem kernel_echoes_keys_witness:
  "\<exists>ex ex1 w1 ex2 w2. kernel_spawn list_queue 0 = Inr ex \<and>
     run_ready_tasks list_queue (kernel_poll ex_once list_queue ex_waker ex_keyboard) ex ex_world = Some (Inr (ex1, w1)) \<and>
     kernel_rounds ex_once list_queue ex_waker ex_keyboard list_queue [[30, 31], [32]] (ex1, w1) = Some (Inr (ex2, w2)) \<and>
     kw_console w2 = [ascii ''async number: 42'' @ [0x0a], [30], [31], [32]]"
proof -
  have n: "kb_queue ex_once (kw_kb ex_world) = None" by (simp add: ex_once_def ex_world_def)
  have d: "fst (decode_all ex_keyboard (concat [[30, 31], [32]]) (kbd_new ex_keyboard)) = [[30], [31], [32]]"
    by (simp add: process_scancode_def ex_keyboard_def)
  have l: "\<forall>cs \<in> set [[30, 31], [32 :: u8]]. length cs \<le> 100" by simp
  have c: "kw_console ex_world = []" by (simp add: ex_world_def)
  from kernel_echoes_keys [OF ex_once_spec list_queue_spec ex_waker_spec list_queue_spec n l, of 0 ex_keyboard]
  show ?thesis unfolding d c by simp
qed

text \<open>
  C15: \<open>init\<close> does not panic and installs all of the tables: exactly the breakpoint, double fault,
  page fault, timer and keyboard vectors have a handler, each its own; the code segment and the
  task register are valid; and the double fault handler runs on a stack of its own, at the end of
  the static array of 20 KiB.
\<close>

theorem init_installs_handlers:
  assumes "tss_spec G va ist" "gdt_spec G descriptor used" "idt_spec I entry" "unat STACK + 20480 < 2 ^ 47"
  shows "\<exists>c' g s k idt t v. init_tables G I STACK c = Inr c' \<and> cpu_gdtr c' = Some g \<and>
    cpu_cs c' = Some s \<and> descriptor g s = Some (kernel_code_segment G) \<and>
    cpu_tr c' = Some k \<and> descriptor g k = Some (tss_segment G t) \<and> cpu_idtr c' = Some idt \<and>
    entry idt = [3 \<mapsto> (BreakpointHandler, None), 8 \<mapsto> (DoubleFaultHandler, Some DOUBLE_FAULT_IST_INDEX),
      14 \<mapsto> (PageFaultHandler, None), 32 \<mapsto> (TimerHandler, None), 33 \<mapsto> (KeyboardHandler, None)] \<and>
    ist t (unat DOUBLE_FAULT_IST_INDEX) = Some v \<and> unat (va v) = unat STACK + 20480"
  using init_tables_ok [OF assms, of c] by (fastforce simp: idt_table_def DOUBLE_FAULT_IST_INDEX_def)

theorem init_installs_handlers_witness:
  "\<exists>c' idt. init_tables ex_gdt ex_idt 0x200000 \<lparr>cpu_gdtr = None, cpu_cs = None, cpu_tr = None, cpu_idtr = None\<rparr> = Inr c' \<and>
     cpu_idtr c' = Some idt \<and> idt 33 = Some (KeyboardHandler, None)"
proof -
  have "unat (0x200000 :: u64) + 20480 < 2 ^ 47" by simp
  from init_installs_handlers [OF ex_tss_spec ex_gdt_spec ex_idt_spec this]
  show ?thesis by fastforce
qed

text \<open>
  C19: the verdict of a test run. When \<open>init\<close> succeeds, the tests run in order; each that passes
  is reported as ok. If all pass, the only code written to the exit port is that for success; at
  the first panic the test is reported as failed with the message, no further test runs, and the
  only code written is that for failure.
\<close>

theorem test_verdict:
  assumes "init_tables G I STACK c = Inr c'"
  shows "let st' = test_kernel_main fmt_info G I STACK c tests st;
      header = ascii ''Running '' @ decimal (length tests) @ ascii '' tests'' @ [0x0a] in
    case first_failure tests (ts_world st) of
      Inr w \<Rightarrow> ts_world st' = w \<and> ts_exit_port st' = ts_exit_port st @ [0x10] \<and>
        ts_serial st' = ts_serial st @ header @ concat (map ok_line tests)
    | Inl (n, e, w) \<Rightarrow> n < length tests \<and> ts_world st' = w \<and> ts_exit_port st' = ts_exit_port st @ [0x11] \<and>
        ts_serial st' = ts_serial st @ header @ concat (map ok_line (take n tests)) @ tc_name (tests ! n) @
          ascii ''...'' @ [0x09] @ ascii ''[failed]'' @ [0x0a, 0x0a] @ ascii ''Error: '' @ fmt_info e @ [0x0a, 0x0a]"
proof -
  define header where "header = ascii ''Running '' @ decimal (length tests) @ ascii '' tests'' @ [0x0a]"
  have "test_kernel_main fmt_info G I STACK c tests st =
      (case rbind (run_tests tests (serial_out header st)) (\<lambda>st. Inr (exit_qemu Success st)) of
         Inl (e, st') \<Rightarrow> test_panic_handler fmt_info e st' | Inr st' \<Rightarrow> st')"
    unfolding test_kernel_main_def test_runner_def assms header_def Let_def by simp
  then show ?thesis
    unfolding header_def [symmetric] run_tests_eq Let_def
    by (auto simp: test_panic_handler_def exit_qemu_def serial_out_def dest: first_failure_lt split: sum.splits)
qed

theorem test_verdict_witness:
  "ts_exit_port (test_kernel_main (\<lambda>_. []) ex_gdt ex_idt 0x200000
     \<lparr>cpu_gdtr = None, cpu_cs = None, cpu_tr = None, cpu_idtr = None\<rparr> ex_tests
     \<lparr>ts_world = 0, ts_serial = [], ts_exit_port = []\<rparr>) = [0x11]"
proof -
  let ?c = "\<lparr>cpu_gdtr = None, cpu_cs = None, cpu_tr = None, cpu_idtr = None\<rparr>"
  have "unat (0x200000 :: u64) + 20480 < 2 ^ 47" by simp
  from init_tables_ok [OF ex_tss_spec ex_gdt_spec ex_idt_spec this, where c = ?c]
  obtain c' where "init_tables ex_gdt ex_idt 0x200000 ?c = Inr c'" by auto
  from test_verdict [OF this, where tests = ex_tests and fmt_info = "\<lambda>_. []" and st = "\<lparr>ts_world = 0, ts_serial = [], ts_exit_port = []\<rparr>"]
  show ?thesis by (simp add: ex_tests_def Let_def)
qed

end
