(* ===== verification/Heap_Values.thy ===== *)
theory Heap_Values
  imports Fixed_Size_Block
begin

text \<open>
  The values that \<open>kernel_main\<close> of \<^verbatim>\<open>src/main.rs\<close> puts on the heap: a box, a vector that grows by
  pushing, and a reference-counted vector. \<open>Box\<close>, \<open>Vec\<close> and \<open>Rc\<close> are the standard library's: what they
  request from the global allocator and return to it is modelled, for elements of type \<open>i32\<close>.
\<close>

section \<open>Vectors\<close>

text \<open>\<open>Vec<i32>\<close>: the buffer, if there is one, its capacity and the number of elements.\<close>

record vec =
  vec_ptr :: usize
  vec_cap :: nat
  vec_len :: nat

definition vec_new :: vec where
  "vec_new = \<lparr>vec_ptr = 4, vec_cap = 0, vec_len = 0\<rparr>"

definition i32_array :: "nat \<Rightarrow> layout" where
  "i32_array n = \<lparr>l_size = word_of_nat (4 * n), l_align = 4\<rparr>"

text \<open>\<open>GlobalAlloc::realloc\<close>, which the allocator does not override: a new block, and the old one back.\<close>

definition heap_realloc ::
  "'h heap_ops \<Rightarrow> 'h fsb_allocator \<Rightarrow> usize \<Rightarrow> layout \<Rightarrow> layout \<Rightarrow> (usize \<times> 'h fsb_allocator) result option" where
  "heap_realloc H s ptr l new_layout =
     obind (box_new H s new_layout) (\<lambda>(new_ptr, s').
       Some (rbind (fsb_dealloc H s' ptr l) (\<lambda>s''. Inr (new_ptr, s''))))"

text \<open>\<open>push\<close> on a full vector doubles the capacity; the smallest one is four.\<close>

definition vec_push :: "'h heap_ops \<Rightarrow> vec \<Rightarrow> 'h fsb_allocator \<Rightarrow> (vec \<times> 'h fsb_allocator) result option" where
  "vec_push H v s =
     (if vec_len v < vec_cap v then Some (Inr (v\<lparr>vec_len := vec_len v + 1\<rparr>, s))
      else
        let cap = max (max (2 * vec_cap v) (vec_len v + 1)) 4 in
        obind (if vec_cap v = 0 then box_new H s (i32_array cap)
               else heap_realloc H s (vec_ptr v) (i32_array (vec_cap v)) (i32_array cap)) (\<lambda>(p, s').
          Some (Inr (\<lparr>vec_ptr = p, vec_cap = cap, vec_len = vec_len v + 1\<rparr>, s'))))"

fun vec_pushes :: "'h heap_ops \<Rightarrow> nat \<Rightarrow> vec \<Rightarrow> 'h fsb_allocator \<Rightarrow> (vec \<times> 'h fsb_allocator) result option" where
  "vec_pushes H 0 v s = Some (Inr (v, s))"
| "vec_pushes H (Suc n) v s =
     obind (vec_push H v s) (\<lambda>(v', s'). vec_pushes H n v' s')"

section \<open>Layouts\<close>

text \<open>
  \<open>Box::new(41)\<close> requests an \<open>i32\<close>; \<open>Rc::new(vec![1, 2, 3])\<close> requests the buffer of the vector and then
  a block for the two counters and the vector, 40 bytes.
\<close>

definition rc_layout :: layout where
  "rc_layout = \<lparr>l_size = 40, l_align = 8\<rparr>"

definition i32_layout :: layout where
  "i32_layout = \<lparr>l_size = 4, l_align = 4\<rparr>"

section \<open>Requests against the block lists\<close>

text \<open>The free lists and the fallback heap.\<close>

definition heap_at :: "'h fsb_allocator \<Rightarrow> 'h \<Rightarrow> usize list list \<Rightarrow> bool" where
  "heap_at s h Ls = (fsb_lists s Ls \<and> fs_fallback s = h)"

lemma heap_at_forget:
  assumes "heap_at s h Ls" "\<forall>j < 9. p \<notin> set (Ls ! j)"
  shows "heap_at (s\<lparr>fs_mem := (fs_mem s)(p := None)\<rparr>) h Ls"
proof -
  have "fs_chain ((fs_mem s)(p := None)) q (Ls ! j) = fs_chain (fs_mem s) q (Ls ! j)" if "j < 9" for j q
    using assms(2) that by (intro fs_chain_cong) (metis fun_upd_other)
  then show ?thesis using assms(1) by (simp add: heap_at_def fsb_lists_def)
qed

lemma box_new_miss:
  assumes "heap_at s h Ls" "list_index l = Some i" "Ls ! i = []" "\<forall>j < 9. p \<notin> set (Ls ! j)" "p \<noteq> 0"
    and "hp_allocate_first_fit H h (block_layout i) = Some (Inr (Some p, h'))"
  shows "\<exists>s'. box_new H s l = Some (Inr (p, s')) \<and> heap_at s' h' Ls"
proof -
  have L: "fsb_lists s Ls" "fs_fallback s = h" using assms(1) by (simp_all add: heap_at_def)
  have "fsb_alloc H s l = Some (Inr (p, s\<lparr>fs_fallback := h'\<rparr>))"
    using fsb_alloc_miss [OF L(1), of l H] assms(2,3,6) L(2) by (simp add: fall_layout_def fallback_alloc_def)
  then have "box_new H s l = Some (Inr (p, s\<lparr>fs_fallback := h'\<rparr>\<lparr>fs_mem := (fs_mem (s\<lparr>fs_fallback := h'\<rparr>))(p := None)\<rparr>))"
    using assms(5) by (simp add: box_new_def null_mut_def)
  moreover have "heap_at (s\<lparr>fs_fallback := h'\<rparr>) h' Ls" using L(1) by (simp add: heap_at_def fsb_lists_def)
  note heap_at_forget [OF this assms(4)]
  ultimately show ?thesis by (intro exI conjI)
qed

lemma box_new_hit:
  assumes "heap_at s h Ls" "list_index l = Some i" "Ls ! i = a # as" "\<forall>j < 9. a \<notin> set (Ls[i := as] ! j)" "a \<noteq> 0"
  shows "\<exists>s'. box_new H s l = Some (Inr (a, s')) \<and> heap_at s' h (Ls[i := as])"
proof -
  have L: "fsb_lists s Ls" "fs_fallback s = h" using assms(1) by (simp_all add: heap_at_def)
  have i: "i < 9" using assms(2) by (simp add: list_index_Some_iff)
  obtain nd where nd: "fs_mem s a = Some nd" "fs_chain (fs_mem s) (fn_next nd) as"
      "fsb_alloc H s l = Some (Inr (a, s\<lparr>fs_list_heads := (fs_list_heads s)[i := fn_next nd],
        fs_mem := (fs_mem s)(a \<mapsto> nd\<lparr>fn_next := None\<rparr>)\<rparr>))" (is "_ = Some (Inr (a, ?s))")
    using fsb_alloc_hit [OF L(1) assms(2,3), of H] by blast
  have "heap_at ?s h (Ls[i := as])" using pop_lists [OF L(1) i nd(1,2) assms(4)] L(2) by (simp add: heap_at_def)
  note heap_at_forget [OF this assms(4)]
  moreover have "box_new H s l = Some (Inr (a, ?s\<lparr>fs_mem := (fs_mem ?s)(a := None)\<rparr>))"
    using nd(3) assms(5) by (simp add: box_new_def null_mut_def)
  ultimately show ?thesis by (intro exI conjI)
qed

lemma dealloc_at:
  assumes "heap_at s h Ls" "list_index l = Some i" "\<forall>j < 9. p \<notin> set (Ls ! j)"
  shows "\<exists>s'. fsb_dealloc H s p l = Inr s' \<and> heap_at s' h (Ls[i := p # Ls ! i])"
proof -
  have L: "fsb_lists s Ls" "fs_fallback s = h" using assms(1) by (simp_all add: heap_at_def)
  have i: "i < 9" using assms(2) by (simp add: list_index_Some_iff)
  have "8 \<le> BLOCK_SIZES ! i" using block_layout_size(2) [OF i] by (simp add: block_layout_def word_le_nat_alt)
  then have "fsb_dealloc H s p l = Inr (s\<lparr>fs_mem := (fs_mem s)(p \<mapsto> \<lparr>fn_next = fs_list_heads s ! i\<rparr>),
      fs_list_heads := (fs_list_heads s)[i := Some p]\<rparr>)"
    using L(1) i assms(2) by (simp add: fsb_dealloc_def fsb_lists_def SIZE_OF_FS_NODE_def ALIGN_OF_FS_NODE_def)
  then show ?thesis using push_lists [OF L(1) i assms(3)] L(2) by (simp add: heap_at_def)
qed

section \<open>Pushing\<close>

lemma vec_pushes_add:
  "vec_pushes H (m + n) v s =
     obind (vec_pushes H m v s) (\<lambda>(v', s'). vec_pushes H n v' s')"
  by (induction m arbitrary: v s) (auto simp: obind_def split: option.split sum.split)

lemma vec_pushes_room:
  "vec_len v + n \<le> vec_cap v \<Longrightarrow> vec_pushes H n v s = Some (Inr (v\<lparr>vec_len := vec_len v + n\<rparr>, s))"
  by (induction n arbitrary: v) (auto simp: vec_push_def)

lemma list_index_i32:
  assumes "1 \<le> k" "k \<le> 8"
  shows "list_index (i32_array (2 ^ (k + 1))) = Some k"
proof -
  have "(2::nat) ^ (k + 3) \<le> 2 ^ 11" using assms(2) by (intro power_increasing) simp_all
  then have "unat (word_of_nat (2 ^ (k + 3)) :: usize) = 2 ^ (k + 3)" by (intro unat_word_of_nat64) simp
  moreover have "(4::nat) \<le> 2 ^ (k + 3)" using power_increasing [of 2 "k + 3" "2::nat"] by simp
  moreover have "4 * 2 ^ (k + 1) = (2::nat) ^ (k + 3)" by (simp add: power_add)
  ultimately show ?thesis using assms(2) by (simp add: list_index_Some_iff i32_array_def max_def)
qed

text \<open>
  The requests that reach the fallback heap: one block of each size, in order. \<open>ps i\<close> is the block of
  size \<open>8 * 2 ^ i\<close>, and \<open>hs i\<close> the heap before the request for it.
\<close>

definition heap_serves :: "'h heap_ops \<Rightarrow> 'h \<Rightarrow> (nat \<Rightarrow> usize) \<Rightarrow> (nat \<Rightarrow> 'h) \<Rightarrow> bool" where
  "heap_serves H h ps hs =
     (hs 0 = h \<and> inj_on ps {..<9} \<and>
      (\<forall>i < 9. ps i \<noteq> 0 \<and> hp_allocate_first_fit H (hs i) (block_layout i) = Some (Inr (Some (ps i), hs (Suc i)))))"

text \<open>The lists when the vector has outgrown the blocks below \<open>k\<close>.\<close>

definition outgrown :: "(nat \<Rightarrow> usize) \<Rightarrow> nat \<Rightarrow> usize list list" where
  "outgrown ps k = map (\<lambda>j. if 1 \<le> j \<and> j < k then [ps j] else []) [0..<9]"

lemma outgrown_nth: "j < 9 \<Longrightarrow> outgrown ps k ! j = (if 1 \<le> j \<and> j < k then [ps j] else [])"
  by (simp add: outgrown_def)

lemma outgrown_fresh:
  assumes "heap_serves H h ps hs" "i < 9" "i = 0 \<or> k \<le> i"
  shows "\<forall>j < 9. ps i \<notin> set (outgrown ps k ! j)"
  using assms inj_on_eq_iff [of ps "{..<9}" i] by (auto simp: outgrown_nth heap_serves_def)

lemma outgrown_Suc: "1 \<le> k \<Longrightarrow> k < 9 \<Longrightarrow> (outgrown ps k)[k := ps k # outgrown ps k ! k] = outgrown ps (Suc k)"
  by (rule nth_equalityI) (auto simp: outgrown_def nth_list_update)

lemma vec_push_grows:
  assumes "heap_serves H h ps hs" "heap_at s (hs (Suc k)) (outgrown ps k)" "1 \<le> k" "k < 8"
  shows "\<exists>s'. vec_push H \<lparr>vec_ptr = ps k, vec_cap = 2 ^ (k + 1), vec_len = 2 ^ (k + 1)\<rparr> s =
      Some (Inr (\<lparr>vec_ptr = ps (Suc k), vec_cap = 2 ^ (k + 2), vec_len = 2 ^ (k + 1) + 1\<rparr>, s')) \<and>
    heap_at s' (hs (Suc (Suc k))) (outgrown ps (Suc k))"
proof -
  have li: "list_index (i32_array (2 ^ (k + 1))) = Some k" "list_index (i32_array (2 ^ (k + 2))) = Some (Suc k)"
    using list_index_i32 [of k] list_index_i32 [of "Suc k"] assms(3,4) by simp_all
  have p: "hp_allocate_first_fit H (hs (Suc k)) (block_layout (Suc k)) = Some (Inr (Some (ps (Suc k)), hs (Suc (Suc k))))"
      "ps (Suc k) \<noteq> 0"
    using assms(1,4) by (simp_all add: heap_serves_def)
  have "outgrown ps k ! Suc k = []" using assms(4) by (simp add: outgrown_nth)
  then obtain s1 where s1: "box_new H s (i32_array (2 ^ (k + 2))) = Some (Inr (ps (Suc k), s1))"
      "heap_at s1 (hs (Suc (Suc k))) (outgrown ps k)"
    using box_new_miss [OF assms(2) li(2) _ outgrown_fresh [OF assms(1)] p(2,1)] assms(4) by auto
  obtain s2 where s2: "fsb_dealloc H s1 (ps k) (i32_array (2 ^ (k + 1))) = Inr s2"
      "heap_at s2 (hs (Suc (Suc k))) (outgrown ps (Suc k))"
    using dealloc_at [OF s1(2) li(1) outgrown_fresh [OF assms(1), of k k], of H] outgrown_Suc [of k ps] assms(3,4) by auto
  have "max (max (2 * 2 ^ (k + 1)) (2 ^ (k + 1) + 1)) 4 = (2::nat) ^ (k + 2)"
    using power_increasing [of 2 "k + 2" "2::nat"] by simp
  then show ?thesis using s1(1) s2 by (simp add: vec_push_def heap_realloc_def Let_def)
qed

lemma vec_pushes_grow:
  assumes "heap_serves H h ps hs" "heap_at s (hs (Suc k)) (outgrown ps k)" "1 \<le> k" "k < 8" "1 \<le> n" "n \<le> 2 ^ (k + 1)"
  shows "\<exists>s'. vec_pushes H n \<lparr>vec_ptr = ps k, vec_cap = 2 ^ (k + 1), vec_len = 2 ^ (k + 1)\<rparr> s =
      Some (Inr (\<lparr>vec_ptr = ps (Suc k), vec_cap = 2 ^ (k + 2), vec_len = 2 ^ (k + 1) + n\<rparr>, s')) \<and>
    heap_at s' (hs (Suc (Suc k))) (outgrown ps (Suc k))"
proof -
  obtain m where m: "n = Suc m" using assms(5) by (cases n) auto
  obtain s' where s': "vec_push H \<lparr>vec_ptr = ps k, vec_cap = 2 ^ (k + 1), vec_len = 2 ^ (k + 1)\<rparr> s =
      Some (Inr (\<lparr>vec_ptr = ps (Suc k), vec_cap = 2 ^ (k + 2), vec_len = 2 ^ (k + 1) + 1\<rparr>, s'))"
      "heap_at s' (hs (Suc (Suc k))) (outgrown ps (Suc k))"
    using vec_push_grows [OF assms(1-4)] by blast
  have "vec_pushes H m \<lparr>vec_ptr = ps (Suc k), vec_cap = 2 ^ (k + 2), vec_len = 2 ^ (k + 1) + 1\<rparr> s' =
      Some (Inr (\<lparr>vec_ptr = ps (Suc k), vec_cap = 2 ^ (k + 2), vec_len = 2 ^ (k + 1) + 1 + m\<rparr>, s'))"
    using vec_pushes_room [of "\<lparr>vec_ptr = ps (Suc k), vec_cap = 2 ^ (k + 2), vec_len = 2 ^ (k + 1) + 1\<rparr>" m H s'] m assms(6)
    by simp
  with s' m show ?thesis by simp
qed

lemma vec_pushes_pow:
  assumes "heap_serves H h ps hs" "heap_at s (hs 1) (outgrown ps 0)" "1 \<le> k" "k \<le> 8"
  shows "\<exists>s'. vec_pushes H (2 ^ (k + 1)) vec_new s =
      Some (Inr (\<lparr>vec_ptr = ps k, vec_cap = 2 ^ (k + 1), vec_len = 2 ^ (k + 1)\<rparr>, s')) \<and>
    heap_at s' (hs (Suc k)) (outgrown ps k)"
  using assms(3,4)
proof (induction k rule: nat_induct_at_least)
  case base
  have p: "hp_allocate_first_fit H (hs 1) (block_layout 1) = Some (Inr (Some (ps 1), hs 2))" "ps 1 \<noteq> 0"
    using assms(1) by (simp_all add: heap_serves_def numeral_2_eq_2)
  have li: "list_index (i32_array 4) = Some 1" using list_index_i32 [of 1] by simp
  have e: "outgrown ps 0 = outgrown ps 1" by (simp add: outgrown_def)
  obtain s1 where s1: "box_new H s (i32_array 4) = Some (Inr (ps 1, s1))" "heap_at s1 (hs 2) (outgrown ps 1)"
    using box_new_miss [OF assms(2) li _ outgrown_fresh [OF assms(1)] p(2,1)] by (auto simp: outgrown_nth e)
  have "vec_push H vec_new s = Some (Inr (\<lparr>vec_ptr = ps 1, vec_cap = 4, vec_len = 1\<rparr>, s1))"
    using s1(1) by (simp add: vec_push_def vec_new_def)
  moreover have "vec_pushes H 3 \<lparr>vec_ptr = ps 1, vec_cap = 4, vec_len = 1\<rparr> s1 =
      Some (Inr (\<lparr>vec_ptr = ps 1, vec_cap = 4, vec_len = 4\<rparr>, s1))"
    by (simp add: vec_pushes_room)
  ultimately have "vec_pushes H (Suc 3) vec_new s = Some (Inr (\<lparr>vec_ptr = ps 1, vec_cap = 4, vec_len = 4\<rparr>, s1))"
    by (simp only: vec_pushes.simps) simp
  moreover have "heap_at s1 (hs (Suc 1)) (outgrown ps 1)" using s1(2) by (simp add: numeral_2_eq_2)
  ultimately show ?case by simp
next
  case (Suc k)
  then obtain s1 where s1: "vec_pushes H (2 ^ (k + 1)) vec_new s =
      Some (Inr (\<lparr>vec_ptr = ps k, vec_cap = 2 ^ (k + 1), vec_len = 2 ^ (k + 1)\<rparr>, s1))"
      "heap_at s1 (hs (Suc k)) (outgrown ps k)" by auto
  have "(2::nat) ^ (Suc k + 1) = 2 ^ (k + 1) + 2 ^ (k + 1)" by simp
  with vec_pushes_grow [OF assms(1) s1(2), of "2 ^ (k + 1)"] Suc.hyps Suc.prems s1(1)
  show ?case by (simp only: vec_pushes_add) auto
qed

section \<open>The values of kernel_main, in the heap\<close>

lemma list_index_small:
  "list_index i32_layout = Some 0" "list_index (i32_array 3) = Some 1" "list_index rc_layout = Some 3"
  by (simp_all add: list_index_def BLOCK_SIZES_def i32_layout_def i32_array_def rc_layout_def)

text \<open>The lists after all values: the buffer and the counted block have come from blocks the vector left.\<close>

definition kernel_free_lists :: "(nat \<Rightarrow> usize) \<Rightarrow> usize list list" where
  "kernel_free_lists ps = [[], [], [ps 2], [], [ps 4], [ps 5], [ps 6], [ps 7], []]"

lemma outgrown_8: "outgrown ps 8 = [[], [ps 1], [ps 2], [ps 3], [ps 4], [ps 5], [ps 6], [ps 7], []]"
  by (simp add: outgrown_def upt_conv_Cons numeral_eq_Suc)

lemma fresh_nth: "length L = 9 \<Longrightarrow> p \<notin> set (concat L) \<Longrightarrow> \<forall>j < 9. p \<notin> set (L ! j)"
  by (auto dest: nth_mem)

lemma kernel_heap_values_ok:
  assumes "heap_serves H h ps hs" "heap_at s h (replicate 9 [])"
  shows "\<exists>s1 s2 s3 s4. box_new H s i32_layout = Some (Inr (ps 0, s1)) \<and>
    vec_pushes H 500 vec_new s1 = Some (Inr (\<lparr>vec_ptr = ps 8, vec_cap = 512, vec_len = 500\<rparr>, s2)) \<and>
    box_new H s2 (i32_array 3) = Some (Inr (ps 1, s3)) \<and> box_new H s3 rc_layout = Some (Inr (ps 3, s4)) \<and>
    heap_at s4 (hs 9) (kernel_free_lists ps)"
proof -
  have ne: "ps i \<noteq> 0" "ps i = ps j \<longleftrightarrow> i = j" if "i < 9" "j < 9" for i j
    using assms(1) that inj_on_eq_iff [of ps "{..<9}" i j] by (auto simp: heap_serves_def)
  have e: "outgrown ps 0 = replicate 9 []" by (simp add: outgrown_def map_replicate_const)
  have h0: "heap_at s (hs 0) (outgrown ps 0)" using assms by (simp add: heap_serves_def e)
  have p0: "hp_allocate_first_fit H (hs 0) (block_layout 0) = Some (Inr (Some (ps 0), hs (Suc 0)))"
    using assms(1) unfolding heap_serves_def by (metis zero_less_numeral)
  obtain s1 where s1: "box_new H s i32_layout = Some (Inr (ps 0, s1))" "heap_at s1 (hs 1) (outgrown ps 0)"
    using box_new_miss [OF h0 list_index_small(1) _ outgrown_fresh [OF assms(1), of 0 0] ne(1) [of 0 0] p0]
    by (auto simp: outgrown_nth)
  obtain s2 where s2: "vec_pushes H (2 ^ (7 + 1)) vec_new s1 =
        Some (Inr (\<lparr>vec_ptr = ps 7, vec_cap = 2 ^ (7 + 1), vec_len = 2 ^ (7 + 1)\<rparr>, s2))"
      "heap_at s2 (hs (Suc 7)) (outgrown ps 7)"
    using vec_pushes_pow [OF assms(1) s1(2), of 7] by auto
  obtain s3 where s3: "vec_pushes H 244 \<lparr>vec_ptr = ps 7, vec_cap = 2 ^ (7 + 1), vec_len = 2 ^ (7 + 1)\<rparr> s2 =
        Some (Inr (\<lparr>vec_ptr = ps 8, vec_cap = 512, vec_len = 500\<rparr>, s3))"
      "heap_at s3 (hs 9) (outgrown ps 8)"
    using vec_pushes_grow [OF assms(1) s2(2), of 244] by auto
  have v: "vec_pushes H 500 vec_new s1 = Some (Inr (\<lparr>vec_ptr = ps 8, vec_cap = 512, vec_len = 500\<rparr>, s3))"
    using vec_pushes_add [of H "2 ^ (7 + 1)" 244 vec_new s1] s2(1) s3(1) by simp
  let ?L4 = "(outgrown ps 8)[1 := []]" and ?L5 = "(outgrown ps 8)[1 := [], 3 := []]"
  have f: "\<forall>j < 9. ps 1 \<notin> set (?L4 ! j)" "\<forall>j < 9. ps 3 \<notin> set (?L5 ! j)"
    by (intro fresh_nth; simp add: outgrown_8 ne(2))+
  obtain s4 where s4: "box_new H s3 (i32_array 3) = Some (Inr (ps 1, s4))" "heap_at s4 (hs 9) ?L4"
    using box_new_hit [OF s3(2) list_index_small(2) _ f(1) ne(1) [of 1 1], of H] by (auto simp: outgrown_8)
  obtain s5 where s5: "box_new H s4 rc_layout = Some (Inr (ps 3, s5))" "heap_at s5 (hs 9) (kernel_free_lists ps)"
    using box_new_hit [OF s4(2) list_index_small(3) _ f(2) ne(1) [of 3 3], of H]
    by (auto simp: outgrown_8 kernel_free_lists_def)
  show ?thesis using s1(1) v s4(1) s5 by blast
qed

section \<open>The linked list as the fallback heap\<close>

text \<open>
  A heap with a single free region from \<open>a\<close> to \<open>e\<close> serves a request that is aligned there from its
  start, and has a single region again.
\<close>

definition ll_single :: "nat \<Rightarrow> usize \<Rightarrow> ll_allocator \<Rightarrow> bool" where
  "ll_single e a h =
     (nd_next (ll_head h) = Some a \<and> ll_mem h a = Some \<lparr>nd_size = word_of_nat (e - unat a), nd_next = None\<rparr>)"

lemma ll_single_alloc:
  assumes "ll_single e a h" "size_align l = Inr (sz, al)" "align_up a al = Inr a"
    and "unat a + unat sz + 16 \<le> e" "e < 2 ^ 63" "8 dvd unat a" "8 dvd unat sz"
  shows "\<exists>h'. ll_alloc h l = Some (Inr (a, h')) \<and> ll_single e (a + sz) h'"
proof -
  have n: "unat (word_of_nat (e - unat a) :: usize) = e - unat a" by (rule unat_word_of_nat64) (use assms(5) in simp)
  have u: "unat (a + sz) = unat a + unat sz" using assms(4,5) by (intro unat_add64) simp
  let ?n = "word_of_nat (e - unat a) :: usize"
  have en: "uadd a ?n = Inr (a + ?n)" "unat (a + ?n) = e"
    using assms(4,5) n unat_add64 [of a ?n] by (simp_all add: uadd_def)
  have ca: "checked_add a sz = Some (a + sz)" using assms(4,5) by (simp add: checked_add_def)
  have ex: "usub (a + ?n) (a + sz) = Inr (word_of_nat (e - (unat a + unat sz)))"
  proof -
    have "(a + ?n) - (a + sz) = word_of_nat (e - (unat a + unat sz))"
      using en(2) u assms(4,5) by (intro word_unat_eq_iff [THEN iffD2]) (simp add: unat_sub64 unat_word_of_nat64 word_le_nat_alt)
    then show ?thesis using en(2) u assms(4) by (simp add: usub_def word_le_nat_alt)
  qed
  have x: "unat (word_of_nat (e - (unat a + unat sz)) :: usize) = e - (unat a + unat sz)"
    by (rule unat_word_of_nat64) (use assms(5) in simp)
  let ?h = "h\<lparr>ll_mem := (ll_mem h)(a \<mapsto> \<lparr>nd_size = ?n, nd_next = None\<rparr>), ll_head := (ll_head h)\<lparr>nd_next := None\<rparr>\<rparr>"
  have fr: "find_region h sz al = Some (Inr (Some (a, a), ?h))"
    using assms(1,3,4) en ca u unfolding find_region_def
    by (subst find_region_loop.simps)
      (simp add: ll_single_def get_next_def node_at_def alloc_from_region_def start_addr_def end_addr_def set_next_def
        word_less_nat_alt)
  have "add_free_region ?h (a + sz) (word_of_nat (e - (unat a + unat sz))) =
      Inr (?h\<lparr>ll_mem := (ll_mem ?h)(a + sz \<mapsto> \<lparr>nd_size = word_of_nat (e - (unat a + unat sz)), nd_next = None\<rparr>),
        ll_head := (ll_head ?h)\<lparr>nd_next := Some (a + sz)\<rparr>\<rparr>)" (is "_ = Inr ?h'")
    using assms(4-7) u x by (subst add_free_region_eq) (auto simp: dvd_add)
  then have "ll_alloc h l = Some (Inr (a, ?h'))"
    using assms(2,4) fr ca ex x en(1)
    by (simp add: ll_alloc_def node_at_def end_addr_def start_addr_def word_less_nat_alt)
  moreover have "ll_single e (a + sz) ?h'" by (simp add: ll_single_def u)
  ultimately show ?thesis by blast
qed

lemma block_index_cases:
  assumes "i < 9"
  obtains "i = 0" | "i = 1" | "i = 2" | "i = 3" | "i = 4" | "i = 5" | "i = 6" | "i = 7" | "i = (8 :: nat)"
  using assms by linarith

lemma size_align_block: "i < 9 \<Longrightarrow> size_align (block_layout i) = Inr (if i = 0 then 16 else BLOCK_SIZES ! i, BLOCK_SIZES ! i)"
proof -
  assume i: "i < 9"
  have "8 \<le> BLOCK_SIZES ! i"
    using block_layout_size(2) [OF i] by (simp add: block_layout_def word_le_nat_alt)
  then have "max (BLOCK_SIZES ! i) 8 = BLOCK_SIZES ! i" by (rule max_absorb1)
  then have "align_to (block_layout i) 8 = Some (block_layout i)"
    using from_size_align_block [OF i] by (simp add: align_to_def block_layout_def)
  then have "size_align (block_layout i) = Inr (max (l_size (pad_to_align (block_layout i))) 16, BLOCK_SIZES ! i)"
    by (simp add: size_align_def ALIGN_OF_NODE_def SIZE_OF_NODE_def pad_to_align_def block_layout_def)
  with i show ?thesis
    by (cases rule: block_index_cases) (simp_all add: pad_to_align_def block_layout_def BLOCK_SIZES_def)
qed

text \<open>The blocks that the linked list hands out, from a heap of at least one page at \<open>a\<close>.\<close>

definition ll_block :: "usize \<Rightarrow> nat \<Rightarrow> usize" where
  "ll_block a i = (if i = 0 then a else a + word_of_nat (8 * 2 ^ i))"

lemma unat_ll_block:
  assumes "i \<le> 9" "unat a + 4096 < 2 ^ 63"
  shows "unat (ll_block a i) = unat a + (if i = 0 then 0 else 8 * 2 ^ i)"
proof -
  have "(8::nat) * 2 ^ i \<le> 8 * 2 ^ 9" using assms(1) by (intro mult_left_mono power_increasing) simp_all
  then show ?thesis
    using assms(2) unat_word_of_nat64 [of "8 * 2 ^ i"] unat_add64 [of a "word_of_nat (8 * 2 ^ i)"] by (simp add: ll_block_def)
qed

lemma BLOCK_SIZES_word: "i < 9 \<Longrightarrow> BLOCK_SIZES ! i = 8 * 2 ^ i"
  by (cases rule: block_index_cases [of i]) (simp_all add: BLOCK_SIZES_def)

lemma ll_block_Suc: "i < 9 \<Longrightarrow> ll_block a (Suc i) = ll_block a i + (if i = 0 then 16 else BLOCK_SIZES ! i)"
  by (auto simp: ll_block_def BLOCK_SIZES_word)

lemma ll_serves_block:
  assumes "ll_single e (ll_block a i) h" "i < 9" "4096 dvd unat a" "unat a + 4112 \<le> e" "e < 2 ^ 63"
  shows "\<exists>h'. ll_alloc h (block_layout i) = Some (Inr (ll_block a i, h')) \<and> ll_single e (ll_block a (Suc i)) h'"
proof -
  let ?b = "ll_block a i" and ?sz = "if i = 0 then 16 else BLOCK_SIZES ! i"
  have u: "unat ?b = unat a + (if i = 0 then 0 else 8 * 2 ^ i)" using assms(2,4,5) by (intro unat_ll_block) simp_all
  have p: "(8::nat) * 2 ^ i \<le> 8 * 2 ^ 8" using assms(2) by (intro mult_left_mono power_increasing) simp_all
  have bs: "unat (BLOCK_SIZES ! i) = 8 * 2 ^ i" using unat_BLOCK_SIZES [OF assms(2)] by (simp add: power_add)
  have "(8::nat) * 2 ^ i dvd 4096" using le_imp_power_dvd [of "i + 3" 12 "2::nat"] assms(2) by (simp add: power_add)
  then have d: "8 * 2 ^ i dvd unat a" using assms(3) dvd_trans by blast
  then have db: "unat (BLOCK_SIZES ! i) dvd unat ?b" by (simp add: u bs)
  have "is_power_of_two (BLOCK_SIZES ! i)"
    using block_layout_good [OF assms(2)] by (simp add: good_layout_def valid_layout_def block_layout_def)
  then have al: "align_up ?b (BLOCK_SIZES ! i) = Inr ?b"
    using db u bs p assms(4,5) by (simp add: align_up_aligned)
  have "8 dvd unat ?b" "8 dvd unat ?sz" using db bs dvd_trans [of 8 "8 * 2 ^ i" "unat ?b"] by (simp_all add: bs)
  moreover have "unat ?b + unat ?sz + 16 \<le> e" using u bs p assms(4) by (simp split: if_splits)
  ultimately have "\<exists>h'. ll_alloc h (block_layout i) = Some (Inr (?b, h')) \<and> ll_single e (?b + ?sz) h'"
    using ll_single_alloc [OF assms(1) size_align_block [OF assms(2)] al _ assms(5)] by simp
  then show ?thesis by (simp only: ll_block_Suc [OF assms(2)])
qed

lemma ll_serves:
  assumes "ll_single e a h" "4096 dvd unat a" "unat a + 4112 \<le> e" "e < 2 ^ 63" "a \<noteq> 0"
  shows "\<exists>hs. heap_serves ll_heap_ops h (ll_block a) hs"
proof -
  have "\<exists>hs. hs 0 = h \<and> (\<forall>i < n. ll_alloc (hs i) (block_layout i) = Some (Inr (ll_block a i, hs (Suc i)))) \<and>
    ll_single e (ll_block a n) (hs n)" if "n \<le> 9" for n
    using that
  proof (induction n)
    case 0
    then show ?case using assms(1) by (auto simp: ll_block_def)
  next
    case (Suc n)
    then obtain hs where hs: "hs 0 = h" "\<forall>i < n. ll_alloc (hs i) (block_layout i) = Some (Inr (ll_block a i, hs (Suc i)))"
        "ll_single e (ll_block a n) (hs n)" by auto
    obtain h' where "ll_alloc (hs n) (block_layout n) = Some (Inr (ll_block a n, h'))" "ll_single e (ll_block a (Suc n)) h'"
      using ll_serves_block [OF hs(3) _ assms(2-4)] Suc.prems by auto
    with hs show ?case by (intro exI [of _ "hs(Suc n := h')"]) (auto simp: less_Suc_eq)
  qed
  from this [of 9] obtain hs where hs: "hs 0 = h" "\<forall>i < 9. ll_alloc (hs i) (block_layout i) = Some (Inr (ll_block a i, hs (Suc i)))"
    by auto
  have u: "unat (ll_block a i) = unat a + (if i = 0 then 0 else 8 * 2 ^ i)" if "i < 9" for i
    using that assms(3,4) by (intro unat_ll_block) simp_all
  have a: "unat a \<noteq> 0" using assms(5) by (simp add: unat_eq_zero)
  have "ll_block a i \<noteq> 0" if "i < 9" for i using u [OF that] a by (intro notI) simp
  moreover have "inj_on (ll_block a) {..<9}"
  proof (rule inj_onI)
    fix i j assume "i \<in> {..<9}" "j \<in> {..<9}" "ll_block a i = ll_block a j"
    then have "(if i = 0 then 0 else 8 * 2 ^ i) = (if j = 0 then 0 else 8 * (2::nat) ^ j)" using u [of i] u [of j] by simp
    then show "i = j" by (simp split: if_splits)
  qed
  ultimately have "heap_serves ll_heap_ops h (ll_block a) hs"
    using hs by (simp add: heap_serves_def ll_heap_ops_def)
  then show ?thesis by blast
qed

end
