(* ===== verification/Boot.thy ===== *)
theory Boot
  imports Kernel Heap_Values
begin

text \<open>
  \<^verbatim>\<open>src/main.rs\<close>: \<open>kernel_main\<close> from the entry to the executor, composed of the components, and the
  functions that \<open>main.rs\<close> keeps for demonstration. The output goes to the \<open>WRITER\<close> of the binary.
\<close>

section \<open>Writing to the screen\<close>

text \<open>The string has an o with two dots, which is two bytes.\<close>

definition write_to_vga :: "'c volatile_ops \<Rightarrow> 'c writer \<Rightarrow> 'c writer result" where
  "write_to_vga V w =
     rbind (write_str V (ascii ''Allo W'' @ [0xc3, 0xb6] @ ascii ''rt! '' @ [0x0a]) w) (\<lambda>w.
       write_fmt V [ascii ''Print numbers '', ascii ''42'', ascii '' and '', ascii ''0.3333333333333333'', ascii '' '' @ [0x0a]] w)"

text \<open>\<open>{:p}\<close>: the address in hexadecimal.\<close>

fun hexadecimal :: "nat \<Rightarrow> bytes" where
  "hexadecimal n =
     (let d = word_of_nat (n mod 16); c = (if n mod 16 < 10 then 48 + d else 87 + d) in
      if n < 16 then [c] else hexadecimal (n div 16) @ [c])"

definition fmt_pointer :: "usize \<Rightarrow> bytes" where
  "fmt_pointer p = ascii ''0x'' @ hexadecimal (unat p)"

section \<open>kernel_main\<close>

record 'm boot_info =
  physical_memory_offset :: u64
  memory_map :: 'm

text \<open>From the descriptor tables to the initialised heap; \<open>main\<close> of \<^verbatim>\<open>tests/heap_allocation.rs\<close> has the same code.\<close>

definition heap_setup ::
  "('v1, 'tss, 'd, 'gdt, 'sel) gdt_ops \<Rightarrow> (handler, 'idt) idt_ops \<Rightarrow> u64 \<Rightarrow> ('v, 'pg) page_ops \<Rightarrow> ('v, 'ix) virt_ops \<Rightarrow>
    ('p, 'f) phys_ops \<Rightarrow> 'f \<Rightarrow> (u64 \<Rightarrow> 'v \<Rightarrow> 'mp) \<Rightarrow> ('mp, 'pg, 'f, 'fl, 'm boot_info_frame_allocator, 'er) mapper_ops \<Rightarrow>
    ('m, 'r, 't) memory_map_ops \<Rightarrow> 'h heap_ops \<Rightarrow> 'm boot_info \<Rightarrow> ('gdt, 'sel, 'idt) cpu \<Rightarrow> 'h fsb_allocator \<Rightarrow>
    (('gdt, 'sel, 'idt) cpu \<times> 'mp \<times> 'm boot_info_frame_allocator \<times> 'h fsb_allocator) result" where
  "heap_setup G I STACK PG VT PH cr3 offset_page_table_new MP MM H boot_info c ALLOCATOR =
     rbind (init_tables G I STACK c) (\<lambda>c.
     rbind (virt_new PG (physical_memory_offset boot_info)) (\<lambda>phys_mem_offset.
     rbind (memory_init VT PH cr3 offset_page_table_new phys_mem_offset) (\<lambda>mapper.
     let frame_allocator = boot_init (memory_map boot_info) in
     rbind (init_heap H PG MP (boot_allocate_frame MM PH) mapper frame_allocator ALLOCATOR)
       (\<lambda>(r, mapper, frame_allocator, ALLOCATOR).
         case r of
           Inl e \<Rightarrow> Inl (Expect ''heap initialisation failed'')
         | Inr _ \<Rightarrow> Inr (c, mapper, frame_allocator, ALLOCATOR)))))"

definition kernel_setup ::
  "'c volatile_ops \<Rightarrow> ('v1, 'tss, 'd, 'gdt, 'sel) gdt_ops \<Rightarrow> (handler, 'idt) idt_ops \<Rightarrow> u64 \<Rightarrow> ('v, 'pg) page_ops \<Rightarrow> ('v, 'ix) virt_ops \<Rightarrow>
    ('p, 'f) phys_ops \<Rightarrow> 'f \<Rightarrow> (u64 \<Rightarrow> 'v \<Rightarrow> 'mp) \<Rightarrow> ('mp, 'pg, 'f, 'fl, 'm boot_info_frame_allocator, 'er) mapper_ops \<Rightarrow>
    ('m, 'r, 't) memory_map_ops \<Rightarrow> 'h heap_ops \<Rightarrow> 'm boot_info \<Rightarrow>
    'c writer \<Rightarrow> ('gdt, 'sel, 'idt) cpu \<Rightarrow> 'h fsb_allocator \<Rightarrow>
    ('c writer \<times> ('gdt, 'sel, 'idt) cpu \<times> 'mp \<times> 'm boot_info_frame_allocator \<times> 'h fsb_allocator) result" where
  "kernel_setup V G I STACK PG VT PH cr3 offset_page_table_new MP MM H boot_info w c ALLOCATOR =
     rbind (write_to_vga V w) (\<lambda>w.
     rbind (println V [ascii ''Hello from the hand crafted println macro :)''] w) (\<lambda>w.
     rbind (heap_setup G I STACK PG VT PH cr3 offset_page_table_new MP MM H boot_info c ALLOCATOR)
       (\<lambda>(c, mapper, frame_allocator, ALLOCATOR). Inr (w, c, mapper, frame_allocator, ALLOCATOR))))"

text \<open>
  The values on the heap. A reference count starts at one; \<open>clone\<close> and \<open>drop\<close> change it, and as it
  stays positive nothing is returned to the allocator.
\<close>

record heap_values =
  hv_heap_value :: usize
  hv_vec :: vec
  hv_rc_buffer :: usize
  hv_rc :: usize
  hv_strong :: nat

definition kernel_values ::
  "'c volatile_ops \<Rightarrow> 'h heap_ops \<Rightarrow> 'c writer \<Rightarrow> 'h fsb_allocator \<Rightarrow> ('c writer \<times> heap_values \<times> 'h fsb_allocator) result option" where
  "kernel_values V H w s =
     obind (box_new H s i32_layout) (\<lambda>(heap_value, s).
     obind (Some (println V [ascii ''Heap value at '', fmt_pointer heap_value] w)) (\<lambda>w.
     obind (vec_pushes H 500 vec_new s) (\<lambda>(vec, s).
     obind (Some (println V [ascii ''vec at '', fmt_pointer (vec_ptr vec)] w)) (\<lambda>w.
     obind (box_new H s (i32_array 3)) (\<lambda>(buffer, s).
     obind (box_new H s rc_layout) (\<lambda>(rc, s).
     let strong = 1; strong = strong + 1 in
     obind (Some (println V [ascii ''Current reference count is '', decimal strong] w)) (\<lambda>w.
     let strong = strong - 1 in
     obind (Some (println V [ascii ''Reference count is now: '', decimal strong] w)) (\<lambda>w.
       Some (Inr (w, \<lparr>hv_heap_value = heap_value, hv_vec = vec, hv_rc_buffer = buffer, hv_rc = rc, hv_strong = strong\<rparr>, s))))))))))"

record ('c, 'gdt, 'sel, 'idt, 'mp, 'm, 'h, 'kbd, 'tq) kernel =
  kn_writer :: "'c writer"
  kn_cpu :: "('gdt, 'sel, 'idt) cpu"
  kn_mapper :: 'mp
  kn_frame_allocator :: "'m boot_info_frame_allocator"
  kn_allocator :: "'h fsb_allocator"
  kn_values :: heap_values
  kn_executor :: "('kbd kernel_future, 'tq) executor"

text \<open>\<open>kernel_main\<close> up to \<open>executor.run()\<close>, which does not return.\<close>

definition kernel_main ::
  "'c volatile_ops \<Rightarrow> ('v1, 'tss, 'd, 'gdt, 'sel) gdt_ops \<Rightarrow> (handler, 'idt) idt_ops \<Rightarrow> u64 \<Rightarrow> ('v, 'pg) page_ops \<Rightarrow> ('v, 'ix) virt_ops \<Rightarrow>
    ('p, 'f) phys_ops \<Rightarrow> 'f \<Rightarrow> (u64 \<Rightarrow> 'v \<Rightarrow> 'mp) \<Rightarrow> ('mp, 'pg, 'f, 'fl, 'm boot_info_frame_allocator, 'er) mapper_ops \<Rightarrow>
    ('m, 'r, 't) memory_map_ops \<Rightarrow> 'h heap_ops \<Rightarrow> ('tq, task_id) queue_ops \<Rightarrow> 'm boot_info \<Rightarrow>
    'c writer \<Rightarrow> ('gdt, 'sel, 'idt) cpu \<Rightarrow> 'h fsb_allocator \<Rightarrow> u64 \<Rightarrow>
    ('c, 'gdt, 'sel, 'idt, 'mp, 'm, 'h, 'kbd, 'tq) kernel result option" where
  "kernel_main V G I STACK PG VT PH cr3 offset_page_table_new MP MM H TQ boot_info w c ALLOCATOR NEXT_ID =
     obind (Some (kernel_setup V G I STACK PG VT PH cr3 offset_page_table_new MP MM H boot_info w c ALLOCATOR))
       (\<lambda>(w, c, mapper, frame_allocator, s).
     obind (kernel_values V H w s) (\<lambda>(w, values, s).
     obind (Some (kernel_spawn TQ NEXT_ID)) (\<lambda>executor.
       Some (Inr \<lparr>kn_writer = w, kn_cpu = c, kn_mapper = mapper, kn_frame_allocator = frame_allocator, kn_allocator = s,
         kn_values = values, kn_executor = executor\<rparr>))))"

section \<open>Code kept for demonstration\<close>

definition HELLO :: bytes where "HELLO = ascii ''Hi from the minimal OS :)''"

text \<open>\<open>write_to_vga_unsafe\<close>, on the bytes of memory.\<close>

definition write_to_vga_unsafe :: "(u64 \<Rightarrow> u8) \<Rightarrow> u64 \<Rightarrow> u8" where
  "write_to_vga_unsafe mem =
     (let vga_buffer_addr = 0xb8000 in
      fold (\<lambda>(i, byte) mem. mem(vga_buffer_addr + word_of_nat i * 2 := byte, vga_buffer_addr + (word_of_nat i * 2 + 1) := 0xb))
        (enumerate 0 HELLO) mem)"

text \<open>\<open>stack_overflow\<close> only calls itself.\<close>

partial_function (option) stack_overflow :: "unit \<Rightarrow> unit option" where
  "stack_overflow u = stack_overflow u"

section \<open>The output\<close>

text \<open>Lines, each ended by a newline.\<close>

definition lines :: "bytes list \<Rightarrow> bytes" where
  "lines ls = concat (map (\<lambda>l. l @ [0x0a]) ls)"

lemma lines_Cons: "lines (l # ls) = (l @ [0x0a]) @ lines ls"
  by (simp add: lines_def)

lemma lines_Nil: "lines [] = []"
  by (simp add: lines_def)

text \<open>The lines of \<open>write_to_vga\<close>, the line of \<open>kernel_main\<close> before \<open>init\<close>, and those on the values.\<close>

definition vga_lines :: "bytes list" where
  "vga_lines = [ascii ''Allo W'' @ [0xc3, 0xb6] @ ascii ''rt! '', ascii ''Print numbers 42 and 0.3333333333333333 '']"

definition hello_line :: bytes where "hello_line = ascii ''Hello from the hand crafted println macro :)''"

definition value_lines :: "usize \<Rightarrow> usize \<Rightarrow> bytes list" where
  "value_lines heap_value vec =
     [ascii ''Heap value at '' @ fmt_pointer heap_value, ascii ''vec at '' @ fmt_pointer vec,
      ascii ''Current reference count is 2'', ascii ''Reference count is now: 1'']"

lemma write_to_vga_at:
  assumes "volatile_spec V" "console_at V cc t w"
  shows "\<exists>w'. write_to_vga V w = Inr w' \<and> console_at V cc (term_write cc (lines vga_lines) t) w'"
proof -
  let ?a = "ascii ''Allo W'' @ [0xc3, 0xb6] @ ascii ''rt! '' @ [0x0a]"
  let ?b = "[ascii ''Print numbers '', ascii ''42'', ascii '' and '', ascii ''0.3333333333333333'', ascii '' '' @ [0x0a]]"
  obtain w1 where 1: "write_fmt V [?a] w = Inr w1" "console_at V cc (term_write cc (concat [?a]) t) w1"
    using write_fmt_at [OF assms] by blast
  obtain w2 where 2: "write_fmt V ?b w1 = Inr w2" "console_at V cc (term_write cc (concat ?b) (term_write cc (concat [?a]) t)) w2"
    using write_fmt_at [OF assms(1) 1(2)] by blast
  have "lines vga_lines = concat [?a] @ concat ?b" by (simp add: lines_def vga_lines_def)
  then have "console_at V cc (term_write cc (lines vga_lines) t) w2" using 2(2) by (simp only: term_write_append)
  moreover have "write_str V ?a w = Inr w1" using 1(1) by (simp add: write_fmt_def rbind_eq_Inr del: list.map)
  ultimately show ?thesis using 2(1) by (simp add: write_to_vga_def del: list.map)
qed

lemma decimal_digit: "n < 10 \<Longrightarrow> decimal n = [48 + word_of_nat n]"
  by simp

lemma kernel_values_ok:
  assumes "volatile_spec V" "console_at V cc t w" "heap_serves H h ps hs" "heap_at s h (replicate 9 [])"
  shows "\<exists>w' s'. kernel_values V H w s = Some (Inr (w',
      \<lparr>hv_heap_value = ps 0, hv_vec = \<lparr>vec_ptr = ps 8, vec_cap = 512, vec_len = 500\<rparr>, hv_rc_buffer = ps 1, hv_rc = ps 3,
       hv_strong = 1\<rparr>, s')) \<and>
    console_at V cc (term_write cc (lines (value_lines (ps 0) (ps 8))) t) w' \<and> heap_at s' (hs 9) (kernel_free_lists ps)"
proof -
  obtain s1 s2 s3 s4 where s: "box_new H s i32_layout = Some (Inr (ps 0, s1))"
      "vec_pushes H 500 vec_new s1 = Some (Inr (\<lparr>vec_ptr = ps 8, vec_cap = 512, vec_len = 500\<rparr>, s2))"
      "box_new H s2 (i32_array 3) = Some (Inr (ps 1, s3))" "box_new H s3 rc_layout = Some (Inr (ps 3, s4))"
      "heap_at s4 (hs 9) (kernel_free_lists ps)"
    using kernel_heap_values_ok [OF assms(3,4)] by blast
  note P = println_at [OF assms(1)]
  define l1 l2 l3 l4 where "l1 = [ascii ''Heap value at '', fmt_pointer (ps 0)]" and "l2 = [ascii ''vec at '', fmt_pointer (ps 8)]"
    and "l3 = [ascii ''Current reference count is '', decimal 2]" and "l4 = [ascii ''Reference count is now: '', decimal 1]"
  note l = this
  define t1 t2 t3 where "t1 = term_write cc (concat l1 @ [0x0a]) t" and "t2 = term_write cc (concat l2 @ [0x0a]) t1"
    and "t3 = term_write cc (concat l3 @ [0x0a]) t2"
  note t = this
  obtain w1 where w1: "println V l1 w = Inr w1" "console_at V cc t1 w1" using P [OF assms(2)] unfolding t by blast
  obtain w2 where w2: "println V l2 w1 = Inr w2" "console_at V cc t2 w2" using P [OF w1(2)] unfolding t(2) by blast
  obtain w3 where w3: "println V l3 w2 = Inr w3" "console_at V cc t3 w3" using P [OF w2(2)] unfolding t(3) by blast
  obtain w4 where w4: "println V l4 w3 = Inr w4" "console_at V cc (term_write cc (concat l4 @ [0x0a]) t3) w4"
    using P [OF w3(2)] by blast
  have "kernel_values V H w s = Some (Inr (w4, \<lparr>hv_heap_value = ps 0,
      hv_vec = \<lparr>vec_ptr = ps 8, vec_cap = 512, vec_len = 500\<rparr>, hv_rc_buffer = ps 1, hv_rc = ps 3, hv_strong = 1\<rparr>, s4))"
    using s w1(1) w2(1) w3(1) w4(1)
    by (simp add: kernel_values_def l numeral_2_eq_2 del: decimal.simps vec_pushes.simps list.map)
  moreover have "console_at V cc (term_write cc (lines (value_lines (ps 0) (ps 8))) t) w4"
    using w4(2) by (simp add: l t value_lines_def lines_Cons lines_Nil term_write_append [symmetric] decimal_digit del: decimal.simps)
  ultimately show ?thesis using s(5) by blast
qed

section \<open>The boot sequence\<close>

lemma init_heap_lists:
  assumes "page_spec PG va pa" "init_heap H PG MP alloc mp s (fsb_new H m) = Inr (Inr u, mp', s', A)"
  shows "heap_at A (fs_fallback A) (replicate 9 [])"
proof -
  obtain pgs where "heap_page_range PG = Inr pgs" using heap_pages [OF assms(1)] by blast
  note init_heap_okD(2) [OF assms(2) this]
  then show ?thesis by (auto simp: fsb_init_def fsb_new_def rbind_eq_Inr heap_at_def fsb_lists_def)
qed

lemma kernel_setup_ok:
  assumes "volatile_spec V" "console_at V cc t w" "init_tables G I STACK c = Inr c'"
    and "virt_new PG (physical_memory_offset b) = Inr off" "memory_init VT PH cr3 opt_new off = Inr mp"
    and "init_heap H PG MP (boot_allocate_frame MM PH) mp (boot_init (memory_map b)) A = Inr (r, mp', fa', A')"
  shows "\<exists>w'. kernel_setup V G I STACK PG VT PH cr3 opt_new MP MM H b w c A =
      (case r of Inl e \<Rightarrow> Inl (Expect ''heap initialisation failed'') | Inr _ \<Rightarrow> Inr (w', c', mp', fa', A')) \<and>
    console_at V cc (term_write cc (lines (vga_lines @ [hello_line])) t) w'"
proof -
  let ?l = "[hello_line]"
  obtain w1 where 1: "write_to_vga V w = Inr w1" "console_at V cc (term_write cc (lines vga_lines) t) w1"
    using write_to_vga_at [OF assms(1,2)] by blast
  obtain w2 where 2: "println V ?l w1 = Inr w2"
      "console_at V cc (term_write cc (concat ?l @ [0x0a]) (term_write cc (lines vga_lines) t)) w2"
    using println_at [OF assms(1) 1(2)] by blast
  have "lines (vga_lines @ ?l) = lines vga_lines @ concat ?l @ [0x0a]" by (simp add: lines_def)
  then have "console_at V cc (term_write cc (lines (vga_lines @ ?l)) t) w2" using 2(2) by (simp only: term_write_append)
  moreover have "kernel_setup V G I STACK PG VT PH cr3 opt_new MP MM H b w c A =
      (case r of Inl e \<Rightarrow> Inl (Expect ''heap initialisation failed'') | Inr _ \<Rightarrow> Inr (w2, c', mp', fa', A'))"
    unfolding kernel_setup_def hello_line_def [symmetric] by (cases r) (simp_all add: 1(1) 2(1) heap_setup_def assms(3-6) Let_def del: list.map)
  ultimately show ?thesis by blast
qed

section \<open>The direct write\<close>

text \<open>A character cell as the bytes in memory: the layout of \<open>ScreenChar\<close> is that of C.\<close>

definition vga_char :: "(u64 \<Rightarrow> u8) \<Rightarrow> nat \<Rightarrow> nat \<Rightarrow> screen_char" where
  "vga_char mem row col =
     (let i = 2 * (80 * row + col) in
      \<lparr>ascii_character = mem (0xb8000 + word_of_nat i), sc_colour_code = ColourCode (mem (0xb8000 + word_of_nat (i + 1)))\<rparr>)"

lemma unat_vga_address: "n < 2 ^ 16 \<Longrightarrow> unat (0xb8000 + word_of_nat n :: u64) = 0xb8000 + n"
  by (simp add: unat_add64 unat_word_of_nat64)

lemma vga_write_at:
  fixes mem :: "u64 \<Rightarrow> u8"
  assumes "length xs < 2 ^ 14"
  shows "fold (\<lambda>(i, byte) mem. mem(0xb8000 + word_of_nat i * 2 := byte, 0xb8000 + (word_of_nat i * 2 + 1) := 0xb)) (enumerate 0 xs) mem a =
    (if 0xb8000 \<le> unat a \<and> unat a < 0xb8000 + 2 * length xs
     then if even (unat a) then xs ! ((unat a - 0xb8000) div 2) else 0xb else mem a)"
  using assms
proof (induction xs rule: rev_induct)
  case (snoc x xs)
  let ?n = "length xs"
  have u: "unat (0xb8000 + word_of_nat ?n * 2 :: u64) = 0xb8000 + 2 * ?n" "unat (0xb8001 + word_of_nat ?n * 2 :: u64) = 0xb8001 + 2 * ?n"
    using snoc.prems unat_vga_address [of "2 * ?n"] unat_vga_address [of "2 * ?n + 1"] by (simp_all add: mult.commute)
  have a: "a = 0xb8000 + word_of_nat ?n * 2 \<longleftrightarrow> unat a = 0xb8000 + 2 * ?n" "a = 0xb8001 + word_of_nat ?n * 2 \<longleftrightarrow> unat a = 0xb8001 + 2 * ?n"
    unfolding u [symmetric] by (simp_all only: word_unat_eq_iff simp_thms)
  have d: "(unat a - 0xb8000) div 2 < ?n" if "unat a < 0xb8000 + 2 * ?n" "0xb8000 \<le> unat a" using that by linarith
  consider "unat a < 0xb8000" | "0xb8000 \<le> unat a" "unat a < 0xb8000 + 2 * ?n" | "unat a = 0xb8000 + 2 * ?n"
    | "unat a = 0xb8001 + 2 * ?n" | "0xb8001 + 2 * ?n < unat a" by linarith
  then show ?case
    using snoc unfolding enumerate_append_eq by cases (simp_all add: a nth_append d)
qed auto

text \<open>\<open>stack_overflow\<close> has no result: it is left to the processor to stop it.\<close>

lemma stack_overflow_diverges: "stack_overflow u = None"
proof (rule ccontr)
  assume "stack_overflow u \<noteq> None"
  then obtain y where "stack_overflow u = Some y" by blast
  then show False by (rule stack_overflow.raw_induct [rotated]) simp
qed

text \<open>The linked list allocator of the repository as the fallback heap, for the witness.\<close>

lemma ll_init_single:
  assumes "ll_init (ll_new Map.empty) HEAP_START HEAP_SIZE = Inr h"
  shows "ll_single (unat HEAP_START + unat HEAP_SIZE) HEAP_START h"
  using assms add_free_region_eq [of HEAP_START HEAP_SIZE "ll_new Map.empty"]
  by (auto simp: ll_init_def unat_HEAP ll_single_def ll_new_def node_new_def) (simp add: HEAP_SIZE_def)

section \<open>Properties\<close>



text \<open>
  C33: the loop of \<open>write_to_vga_unsafe\<close> writes what the writer would have written: the first 25
  cells of the first row show the greeting in light cyan on black; no other cell of the screen and
  no byte beyond them is changed.
\<close>

theorem write_to_vga_unsafe_shows:
  assumes "row < 25" "col < 80"
  shows "vga_char (write_to_vga_unsafe mem) row col =
      (if row = 0 \<and> col < length HELLO
       then \<lparr>ascii_character = HELLO ! col, sc_colour_code = colour_code_new LightCyan Black\<rparr>
       else vga_char mem row col) \<and>
    (\<forall>a. a < 0xb8000 \<or> 0xb8000 + 50 \<le> a \<longrightarrow> write_to_vga_unsafe mem a = mem a)"
proof -
  define i where "i = 2 * (80 * row + col)"
  have H: "length HELLO = 25" by (simp add: HELLO_def)
  have at: "write_to_vga_unsafe mem a = (if 0xb8000 \<le> unat a \<and> unat a < 0xb8000 + 50
     then if even (unat a) then HELLO ! ((unat a - 0xb8000) div 2) else 0xb else mem a)" for a
    using vga_write_at [of HELLO mem a] by (simp add: write_to_vga_unsafe_def H)
  have "i + 1 < 2 ^ 16" using assms by (simp add: i_def)
  then have u: "unat (0xb8000 + word_of_nat i :: u64) = 0xb8000 + i" "unat (0xb8000 + word_of_nat (i + 1) :: u64) = 0xb8000 + (i + 1)"
    using unat_vga_address [of i] unat_vga_address [of "i + 1"] by linarith+
  have e: "even i" by (simp add: i_def)
  then have e1: "i + 1 < 50 \<longleftrightarrow> i < 50" by presburger
  have i: "row = 0 \<and> col < length HELLO \<longleftrightarrow> i < 50" unfolding H i_def by (cases row) auto
  have c: "i div 2 = col" if "i < 50" using that i unfolding i_def by simp
  have "write_to_vga_unsafe mem (0xb8000 + word_of_nat i) = (if i < 50 then HELLO ! col else mem (0xb8000 + word_of_nat i))"
      "write_to_vga_unsafe mem (0xb8000 + word_of_nat (i + 1)) = (if i < 50 then 0xb else mem (0xb8000 + word_of_nat (i + 1)))"
    unfolding at [of "0xb8000 + word_of_nat i"] at [of "0xb8000 + word_of_nat (i + 1)"] u using e e1 c by simp_all
  then have "vga_char (write_to_vga_unsafe mem) row col =
      (if row = 0 \<and> col < length HELLO
       then \<lparr>ascii_character = HELLO ! col, sc_colour_code = colour_code_new LightCyan Black\<rparr>
       else vga_char mem row col)"
    unfolding vga_char_def i_def [symmetric] Let_def i by (simp add: colour_code_new_def)
  moreover have "write_to_vga_unsafe mem a = mem a" if "a < 0xb8000 \<or> 0xb8000 + 50 \<le> a" for a
    using that by (auto simp: at word_le_nat_alt word_less_nat_alt)
  ultimately show ?thesis by blast
qed

theorem write_to_vga_unsafe_shows_witness:
  "vga_char (write_to_vga_unsafe (\<lambda>_. 0)) 0 3 =
     \<lparr>ascii_character = 0x66, sc_colour_code = colour_code_new LightCyan Black\<rparr>"
  using write_to_vga_unsafe_shows [of 0 3 "\<lambda>_. 0"] by (simp add: HELLO_def)

end
