(* ===== verification/Bump.thy ===== *)
theory Bump
  imports Allocator
begin

text \<open>
  \<^verbatim>\<open>src/allocator/bump.rs\<close>: an allocator that moves a \<open>next\<close> pointer through the heap and
  starts over when the last allocation is returned.
\<close>

section \<open>State and operations\<close>

record bump_allocator =
  bp_heap_start :: usize
  bp_heap_end :: usize
  bp_next :: usize
  bp_allocations :: usize

definition bump_new :: bump_allocator where
  "bump_new = \<lparr>bp_heap_start = 0, bp_heap_end = 0, bp_next = 0, bp_allocations = 0\<rparr>"

definition bump_init :: "bump_allocator \<Rightarrow> usize \<Rightarrow> usize \<Rightarrow> bump_allocator result" where
  "bump_init b heap_start heap_size =
     rbind (uadd heap_start heap_size) (\<lambda>e.
       Inr (b\<lparr>bp_heap_start := heap_start, bp_heap_end := e, bp_next := heap_start\<rparr>))"

definition bump_alloc :: "bump_allocator \<Rightarrow> layout \<Rightarrow> (usize \<times> bump_allocator) result" where
  "bump_alloc b l =
     rbind (align_up (bp_next b) (l_align l)) (\<lambda>alloc_start.
       case checked_add alloc_start (l_size l) of
         None \<Rightarrow> Inr (null_mut, b)
       | Some alloc_end \<Rightarrow>
           if alloc_end > bp_heap_end b then Inr (null_mut, b)
           else rbind (uadd (bp_allocations b) 1) (\<lambda>n.
                  Inr (alloc_start, b\<lparr>bp_next := alloc_end, bp_allocations := n\<rparr>)))"

definition bump_dealloc :: "bump_allocator \<Rightarrow> usize \<Rightarrow> layout \<Rightarrow> bump_allocator result" where
  "bump_dealloc b ptr l =
     rbind (usub (bp_allocations b) 1) (\<lambda>n.
       let b = b\<lparr>bp_allocations := n\<rparr> in
       Inr (if n = 0 then b\<lparr>bp_next := bp_heap_start b\<rparr> else b))"

section \<open>Invariant\<close>

text \<open>
  The counter is the number of blocks in use, every block in use lies between the start of
  the heap and \<open>next\<close>, and \<open>next\<close> lies in the heap and is back at its start when no block
  is in use. The bump allocator keeps nothing in
  the heap itself, so programs may write anywhere in it (\<open>bump_wr\<close> leaves the state alone).
\<close>

definition bump_inv :: "nat \<Rightarrow> nat \<Rightarrow> bump_allocator \<Rightarrow> block multiset \<Rightarrow> bool" where
  "bump_inv lo hi b L =
     (0 < lo \<and> unat (bp_heap_start b) = lo \<and> unat (bp_heap_end b) = hi \<and>
      lo \<le> unat (bp_next b) \<and> unat (bp_next b) \<le> hi \<and>
      unat (bp_allocations b) = size L \<and> (L = {#} \<longrightarrow> bp_next b = bp_heap_start b) \<and>
      (\<forall>c \<in># L. lo \<le> block_lo c \<and> block_hi c \<le> unat (bp_next b)))"

definition bump_wr :: "block multiset \<Rightarrow> bump_allocator \<Rightarrow> bump_allocator \<Rightarrow> bool" where
  "bump_wr L b b' = (b' = b)"

lemma bump_init_inv:
  assumes "bump_init b s n = Inr b'" "s \<noteq> 0" "bp_allocations b = 0"
  shows "bump_inv (unat s) (unat s + unat n) b' {#}"
  using assms by (auto simp: bump_init_def rbind_simps arith_results bump_inv_def unat_gt_0)

text \<open>What a successful \<open>alloc\<close> did.\<close>

lemma bump_alloc_block:
  assumes "bump_alloc b l = Inr (p, b')" "p \<noteq> 0" "is_power_of_two (l_align l)"
  obtains e n where "unat e = unat p + unat (l_size l)" "unat e \<le> unat (bp_heap_end b)"
    "unat (bp_next b) \<le> unat p" "unat (l_align l) dvd unat p"
    "unat n = unat (bp_allocations b) + 1" "b' = b\<lparr>bp_next := e, bp_allocations := n\<rparr>"
proof -
  from assms(1) obtain a where a: "align_up (bp_next b) (l_align l) = Inr a"
    by (auto simp: bump_alloc_def rbind_simps)
  then have "unat (bp_next b) \<le> unat a" "unat (l_align l) dvd unat a"
    by (simp_all add: align_up_Inr_iff [OF assms(3)])
  moreover from assms(1,2) a obtain e n where e: "checked_add a (l_size l) = Some e"
    and "\<not> e > bp_heap_end b" "uadd (bp_allocations b) 1 = Inr n"
    "p = a" "b' = b\<lparr>bp_next := e, bp_allocations := n\<rparr>"
    by (auto simp: bump_alloc_def rbind_simps null_mut_def split: option.splits if_splits)
  ultimately show thesis
    using that [of e n] by (simp add: arith_results word_less_nat_alt)
qed

lemma bump_alloc_null:
  assumes "bump_alloc b l = Inr (0, b')" "0 < unat (bp_next b)" "is_power_of_two (l_align l)"
  shows "b' = b"
  using assms
  by (auto simp: bump_alloc_def rbind_simps align_up_Inr_iff null_mut_def
      split: option.splits if_splits)

lemma bump_alloc_inv:
  assumes "bump_inv lo hi b L" "good_layout l" "bump_alloc b l = Inr (p, b')" "p \<noteq> 0"
  shows "block_ok lo hi (p, l) \<and> (\<forall>c \<in># L. disjoint_blocks (p, l) c)"
    and "bump_inv lo hi b' (add_mset (p, l) L)"
proof -
  have al: "is_power_of_two (l_align l)"
    using assms(2) by (simp add: good_layout_def valid_layout_def)
  obtain e n where s: "unat e = unat p + unat (l_size l)" "unat e \<le> unat (bp_heap_end b)"
    "unat (bp_next b) \<le> unat p" "unat (l_align l) dvd unat p"
    "unat n = unat (bp_allocations b) + 1" "b' = b\<lparr>bp_next := e, bp_allocations := n\<rparr>"
    using bump_alloc_block [OF assms(3,4) al] by blast
  show "block_ok lo hi (p, l) \<and> (\<forall>c \<in># L. disjoint_blocks (p, l) c)"
    using assms(1,4) s by (force simp: bump_inv_def block_ok_def disjoint_blocks_def block_defs)
  show "bump_inv lo hi b' (add_mset (p, l) L)"
    using assms(1) s by (force simp: bump_inv_def block_defs)
qed

lemma bump_dealloc_inv:
  assumes "bump_inv lo hi b (add_mset (p, l) L)"
  shows "\<exists>b'. bump_dealloc b p l = Inr b' \<and> bump_inv lo hi b' L"
proof -
  have c: "unat (bp_allocations b) = Suc (size L)" using assms by (simp add: bump_inv_def)
  then have le: "1 \<le> bp_allocations b" by (simp add: word_le_nat_alt)
  define n where "n = bp_allocations b - 1"
  have n: "unat n = size L" using c le by (simp add: n_def unat_sub)
  have "n = 0 \<longleftrightarrow> L = {#}" using n by (auto simp: unat_eq_zero)
  moreover have "bump_dealloc b p l = Inr (if n = 0
      then b\<lparr>bp_allocations := n, bp_next := bp_heap_start b\<rparr> else b\<lparr>bp_allocations := n\<rparr>)"
    using le by (simp add: bump_dealloc_def usub_def n_def)
  ultimately show ?thesis using assms n by (auto simp: bump_inv_def)
qed

text \<open>As a function that may not return, \<open>alloc\<close> always returns.\<close>

abbreviation bump_alloc_opt :: "bump_allocator \<Rightarrow> layout \<Rightarrow> (usize \<times> bump_allocator) result option" where
  "bump_alloc_opt b l \<equiv> Some (bump_alloc b l)"

interpretation bump: global_alloc bump_alloc_opt bump_dealloc bump_wr "bump_inv lo hi" lo hi
  for lo hi
proof (unfold_locales, goal_cases)
  case (1 s L l p s')
  then show ?case by (intro bump_alloc_inv(1)) auto
next
  case (2 s L l p s')
  then show ?case by (intro bump_alloc_inv(2)) auto
next
  case (3 s L l s')
  then have "s' = s"
    by (auto simp: bump_inv_def good_layout_def valid_layout_def intro!: bump_alloc_null)
  with 3 show ?case by simp
next
  case (4 s L l)
  then show ?case by simp
next
  case (5 s p l L)
  then show ?case by (rule bump_dealloc_inv)
next
  case (6 s L s')
  then show ?case by (simp add: bump_wr_def)
qed

lemma bump_run_inv:
  assumes "bump_init bump_new s n = Inr b0" "s \<noteq> 0"
    and "heap_run bump_alloc_opt bump_dealloc bump_wr b0 b L"
  shows "bump_inv (unat s) (unat s + unat n) b L"
  using bump.run_inv [OF assms(3) bump_init_inv [OF assms(1,2)]] by (simp add: bump_new_def)

section \<open>Properties\<close>

text \<open>
  C29: whatever a program requests and returns, the blocks it holds from an initialised
  bump allocator lie in the heap, are aligned as requested, and never overlap.
\<close>

theorem bump_heap_safe:
  assumes "bump_init bump_new s n = Inr b0" "s \<noteq> 0"
    and "heap_run bump_alloc_opt bump_dealloc bump_wr b0 b L"
  shows "(\<forall>c \<in># L. block_ok (unat s) (unat s + unat n) c) \<and> pairwise_mset disjoint_blocks L"
proof -
  have "bump_inv (unat s) (unat s + unat n) b0 {#}"
    using bump_init_inv [OF assms(1,2)] by (simp add: bump_new_def)
  with assms(3) show ?thesis by (rule bump.run_blocks)
qed

text \<open>A concrete run, for the witnesses: a heap of 4096 bytes and one request.\<close>

abbreviation (input) ex_bump :: "usize \<Rightarrow> usize \<Rightarrow> bump_allocator" where
  "ex_bump nxt cnt \<equiv>
     \<lparr>bp_heap_start = 4096, bp_heap_end = 8192, bp_next = nxt, bp_allocations = cnt\<rparr>"

lemma bump_example_init: "bump_init bump_new 4096 4096 = Inr (ex_bump 4096 0)"
  by (simp add: bump_init_def bump_new_def uadd_def)

lemma bump_example_alloc:
  "bump_alloc (ex_bump 4096 0) \<lparr>l_size = 10, l_align = 16\<rparr> = Inr (4096, ex_bump 4106 1)"
  "good_layout \<lparr>l_size = 10, l_align = 16\<rparr>"
proof -
  have p: "is_power_of_two 16" by (auto simp: is_power_of_two_iff intro!: exI [of _ 4])
  then show "good_layout \<lparr>l_size = 10, l_align = 16\<rparr>"
    by (simp add: good_layout_def valid_layout_def)
  have "align_up 4096 16 = Inr 4096" by (simp add: align_up_aligned [OF p])
  then show "bump_alloc (ex_bump 4096 0) \<lparr>l_size = 10, l_align = 16\<rparr> = Inr (4096, ex_bump 4106 1)"
    by (simp add: bump_alloc_def checked_add_def uadd_def)
qed

lemma bump_example_run:
  "heap_run bump_alloc_opt bump_dealloc bump_wr (ex_bump 4096 0) (ex_bump 4106 1)
     {#(4096, \<lparr>l_size = 10, l_align = 16\<rparr>)#}"
  by (rule heap_run.request [where alloc = bump_alloc_opt, OF heap_run.start bump_example_alloc(2)])
    (simp_all add: bump_example_alloc(1))

theorem bump_heap_safe_witness:
  "block_ok 4096 8192 (4096, \<lparr>l_size = 10, l_align = 16\<rparr>)"
  using bump_heap_safe [OF bump_example_init _ bump_example_run] by simp

text \<open>
  When a program has returned every block, \<open>next\<close> is back at the start of the heap, so the
  whole heap is available again.
\<close>

lemma bump_reclaims_heap:
  assumes "bump_init bump_new s n = Inr b0" "s \<noteq> 0"
    and "heap_run bump_alloc_opt bump_dealloc bump_wr b0 b {#}"
  shows "b = b0"
  using bump_run_inv [OF assms] assms(1)
  by (auto simp: bump_inv_def bump_init_def rbind_simps bump_new_def uadd_eq_Inr word_unat_eq_iff
      intro!: bump_allocator.equality)

text \<open>
  In a heap below the middle of the address space \<open>alloc\<close> never panics: it hands out the
  aligned block exactly when that block fits below \<open>heap_end\<close>, and otherwise returns null
  and changes nothing.
\<close>

lemma bump_alloc_total:
  assumes "bump_inv lo hi b L" "hi < 2 ^ 63" "good_layout l" "size L < 2 ^ 64 - 1"
  shows "\<exists>a. align_up (bp_next b) (l_align l) = Inr a \<and>
    bump_alloc b l =
      (if unat a + unat (l_size l) \<le> hi
       then Inr (a, b\<lparr>bp_next := a + l_size l, bp_allocations := bp_allocations b + 1\<rparr>)
       else Inr (null_mut, b))"
proof -
  have p: "is_power_of_two (l_align l)"
    using assms(3) by (simp add: good_layout_def valid_layout_def)
  have "unat (bp_next b) + unat (l_align l) < 2 ^ 64"
    using assms(1,2) power_of_two_le [OF p] by (simp add: bump_inv_def)
  then obtain a where "align_up (bp_next b) (l_align l) = Inr a"
    using align_up_unfold [OF p] by blast
  then show ?thesis
    using assms(1,2,4)
    by (auto simp: bump_inv_def bump_alloc_def checked_add_def uadd_def word_less_nat_alt unat_add64)
qed

end
