(* ===== verification/Heap_Integrity.thy ===== *)
theory Heap_Integrity
  imports Bump Heap_Values
begin

text \<open>
  The allocators keep their lists in the heap itself. This theory shows the other half of heap
  safety: what they write there never touches a block that the program holds, so data survives
  every later call of \<open>alloc\<close> and \<open>dealloc\<close>. The contract is the locale \<open>quiet_alloc\<close>, which extends that of \<open>GlobalAlloc\<close>.
\<close>

section \<open>The contract\<close>

text \<open>The \<open>n\<close> bytes at \<open>x\<close> are outside all of the blocks.\<close>

definition clear_of :: "block multiset \<Rightarrow> usize \<Rightarrow> nat \<Rightarrow> bool" where
  "clear_of L x n = (\<forall>c \<in># L. unat x + n \<le> block_lo c \<or> block_hi c \<le> unat x)"

text \<open>\<open>wrote s s' x n\<close>: a call that takes the allocator from \<open>s\<close> to \<open>s'\<close> changes \<open>n\<close> bytes at \<open>x\<close>.\<close>

locale quiet_alloc = global_alloc alloc dealloc wr inv lo hi
  for alloc :: "'s \<Rightarrow> layout \<Rightarrow> (usize \<times> 's) result option" and dealloc wr inv lo hi +
  fixes wrote :: "'s \<Rightarrow> 's \<Rightarrow> usize \<Rightarrow> nat \<Rightarrow> bool"
  assumes wrote_refl: "\<not> wrote s s x n"
    and alloc_wrote: "inv s L \<Longrightarrow> good_layout l \<Longrightarrow> alloc s l = Some (Inr (p, s')) \<Longrightarrow> wrote s s' x n \<Longrightarrow> clear_of L x n"
    and dealloc_wrote: "inv s (add_mset (p, l) L) \<Longrightarrow> dealloc s p l = Inr s' \<Longrightarrow> wrote s s' x n \<Longrightarrow> clear_of L x n"
begin

lemma run_quiet:
  assumes "heap_run alloc dealloc wr s0 s L" "inv s0 {#}" "wrote s s' x n"
  shows "good_layout l \<Longrightarrow> alloc s l = Some (Inr (p, s')) \<Longrightarrow> clear_of L x n"
    and "(p, l) \<in># L \<Longrightarrow> dealloc s p l = Inr s' \<Longrightarrow> clear_of (L - {#(p, l)#}) x n"
proof -
  have i: "inv s L" by (rule run_inv [OF assms(1,2)])
  show "good_layout l \<Longrightarrow> alloc s l = Some (Inr (p, s')) \<Longrightarrow> clear_of L x n"
    using alloc_wrote [OF i] assms(3) by blast
  show "(p, l) \<in># L \<Longrightarrow> dealloc s p l = Inr s' \<Longrightarrow> clear_of (L - {#(p, l)#}) x n"
    using dealloc_wrote [of s p l "L - {#(p, l)#}" s' x n] i assms(3) by simp
qed

end

section \<open>The linked list\<close>

text \<open>A node is 16 bytes.\<close>

definition ll_wrote :: "ll_allocator \<Rightarrow> ll_allocator \<Rightarrow> usize \<Rightarrow> nat \<Rightarrow> bool" where
  "ll_wrote s s' x n = (n = 16 \<and> ll_mem s' x \<noteq> ll_mem s x)"

lemma region_clear:
  assumes "ll_inv_with bs lo hi s L" "b \<in> set bs" "block_lo b \<le> unat x" "unat x + n \<le> block_hi b"
  shows "clear_of L x n"
  unfolding clear_of_def
proof
  fix c assume c: "c \<in># L"
  have "spans_ok lo hi (mset bs + image_mset ext_block L)" "live_ok c"
    using assms(1) c by (simp_all add: ll_inv_with_def)
  moreover obtain bs1 bs2 where "bs = bs1 @ b # bs2" using assms(2) by (auto dest: split_list)
  ultimately have "disjoint_blocks b (ext_block c)" using c by (auto simp: spans_ok_add)
  then show "unat x + n \<le> block_lo c \<or> block_hi c \<le> unat x"
    using ext_block_bounds [OF \<open>live_ok c\<close>] assms(3,4) by (auto simp: disjoint_blocks_def)
qed

lemma node_clear:
  assumes "ll_inv_with bs lo hi s L" "b \<in> set bs"
  shows "clear_of L (fst b) 16"
  using assms by (intro region_clear [OF assms]) (auto simp: ll_inv_with_def spans_ok_def span_ok_def block_defs)

lemma taken_wrote:
  assumes "ll_inv_with (pre @ b # post) lo hi s L" "ll_mem (taken s pre b) x \<noteq> ll_mem s x"
  shows "clear_of L x 16"
proof -
  have "x = fst b \<or> last_ref None pre = Some x" using unlink_mem [of x "fst b" "last_ref None pre" s] assms(2) by (auto simp: taken_def)
  then have "x \<in> fst ` set (pre @ b # post)" using last_ref_cases [of None pre] by (force simp: image_Un)
  then show ?thesis using node_clear [OF assms(1)] by blast
qed

lemma ll_alloc_wrote:
  assumes inv: "ll_inv_with bs lo hi s L" and "good_layout l" "ll_alloc s l = Some (Inr (p, s'))" "ll_mem s' x \<noteq> ll_mem s x"
  shows "clear_of L x 16"
proof -
  have pw: "is_power_of_two (l_align l)" using assms(2) by (simp add: good_layout_def valid_layout_def)
  obtain sz al where sa: "size_align l = Inr (sz, al)" using assms(3) by (auto simp: ll_alloc_def split: sum.splits)
  show ?thesis
  proof (cases rule: first_fit [of bs sz al])
    case 1
    then show ?thesis using ll_alloc_none [OF inv sa pw] assms(3,4) by simp
  next
    case (2 pre b post a)
    note inv' = inv [unfolded 2(1)] and q = size_align_props [OF sa pw]
    let ?ex = "block_hi b - (unat a + unat sz)"
    have b: "span_ok lo hi b" "hi \<le> 2 ^ 63" using inv' by (auto simp: ll_inv_with_def spans_ok_def)
    note f = fit_facts [OF b q(1,2,5) 2(3,4)]
    from ll_alloc_fit [OF inv' sa pw 2(2-4)] assms(3)
    consider "s' = taken s pre b" | "16 \<le> ?ex" "s' = push_region (taken s pre b) (a + sz) (word_of_nat ?ex)"
      by (auto split: if_splits)
    then show ?thesis
    proof cases
      case 1
      then show ?thesis using taken_wrote [OF inv'] assms(4) by blast
    next
      case x: 2
      show ?thesis
      proof (cases "x = a + sz")
        case True
        then show ?thesis using x(1) f(1,3) by (intro region_clear [OF inv', of b]) auto
      next
        case False
        then show ?thesis using taken_wrote [OF inv'] assms(4) x(2) by (simp add: push_region_def)
      qed
    qed
  qed
qed

lemma ll_dealloc_wrote:
  assumes "ll_inv_with bs lo hi s (add_mset (p, l) L)" "ll_dealloc s p l = Inr s'" "ll_mem s' x \<noteq> ll_mem s x"
  shows "clear_of L x 16"
proof -
  have live: "live_ok (p, l)" using assms by (simp add: ll_inv_with_def)
  then obtain sz al where sa: "size_align l = Inr (sz, al)" by (elim live_okE)
  let ?b = "(p, \<lparr>l_size = sz, l_align = al\<rparr>)"
  have "spans_ok lo hi (add_mset ?b (mset bs + image_mset ext_block L))" "\<forall>c \<in># L. live_ok c" "0 < lo" "hi \<le> 2 ^ 63"
    using assms(1) by (simp_all add: ll_inv_with_def ext_block_live [OF sa])
  note b = this
  have "8 dvd unat p" "16 \<le> unat sz" "unat p + 8 < 2 ^ 64"
    using b(1,4) by (auto simp: spans_ok_add span_ok_def block_defs)
  then have "s' = push_region s p sz"
    using sa add_free_region_eq [of p sz s] assms(2) by (simp add: ll_dealloc_def push_region_def)
  then have x: "x = p" using assms(3) by (auto simp: push_region_def split: if_splits)
  show ?thesis unfolding clear_of_def x
  proof
    fix c assume "c \<in># L"
    then have "disjoint_blocks ?b (ext_block c)" "live_ok c" using b(1,2) by (auto simp: spans_ok_add)
    then show "unat p + 16 \<le> block_lo c \<or> block_hi c \<le> unat p"
      using ext_block_bounds [of c] \<open>16 \<le> unat sz\<close> by (auto simp: disjoint_blocks_def block_defs)
  qed
qed

interpretation ll_quiet: quiet_alloc ll_alloc ll_dealloc ll_wr "ll_inv lo hi" lo hi ll_wrote
  for lo hi
proof (unfold_locales, goal_cases)
  case (2 s L l p s' x n)
  then show ?case using ll_alloc_wrote [of _ lo hi s L l p s' x] by (auto simp: ll_inv_def ll_wrote_def)
next
  case (3 s p l L s' x n)
  then show ?case using ll_dealloc_wrote [of _ lo hi s p l L s' x] by (auto simp: ll_inv_def ll_wrote_def)
qed (simp add: ll_wrote_def)

text \<open>The bump allocator has no lists, and writes nothing to the heap.\<close>

interpretation bump_quiet: quiet_alloc bump_alloc_opt bump_dealloc bump_wr "bump_inv lo hi" lo hi "\<lambda>_ _ _ _. False"
  for lo hi
  by unfold_locales simp_all

section \<open>The blocks of fixed sizes\<close>

text \<open>A node of a block list is 8 bytes; the fallback heap writes its own.\<close>

definition fsb_wrote :: "('h \<Rightarrow> 'h \<Rightarrow> usize \<Rightarrow> nat \<Rightarrow> bool) \<Rightarrow> 'h fsb_allocator \<Rightarrow> 'h fsb_allocator \<Rightarrow> usize \<Rightarrow> nat \<Rightarrow> bool" where
  "fsb_wrote hwrote s s' x n =
     (n = 8 \<and> fs_mem s' x \<noteq> fs_mem s x \<or> hwrote (fs_fallback s) (fs_fallback s') x n)"

text \<open>The blocks held from the fallback heap enclose those that the program holds.\<close>

lemma held_clear:
  assumes "clear_of (held L Ls) x n" "\<forall>c \<in># L. good_layout (snd c)"
  shows "clear_of L x n"
  unfolding clear_of_def
proof
  fix c assume c: "c \<in># L"
  then have "fall_block c \<in># held L Ls" by (simp add: held_def)
  then show "unat x + n \<le> block_lo c \<or> block_hi c \<le> unat x"
    using assms c fall_block_bounds [of c] by (force simp: clear_of_def)
qed

lemma disjoint_clear:
  assumes "\<forall>b \<in># F. disjoint_blocks (x, l) b" "n \<le> unat (l_size l)"
  shows "clear_of F x n"
  using assms by (force simp: clear_of_def disjoint_blocks_def block_defs)

locale quiet_fallback = hq: quiet_alloc "heap_alloc H" "hp_deallocate H" hwr hinv lo hi hwrote
  for H :: "'h heap_ops" and hwr hinv lo hi hwrote

sublocale quiet_fallback \<subseteq> fallback_heap H hwr hinv lo hi
  by (rule fallback_heap.intro [OF hq.global_alloc_axioms])

context quiet_fallback
begin

lemma fsb_alloc_wrote:
  assumes "fsb_inv hinv lo hi s L" "good_layout l" "fsb_alloc H s l = Some (Inr (p, s'))" "fsb_wrote hwrote s s' x n"
  shows "clear_of L x n"
proof -
  obtain Ls where Ls: "fsb_lists s Ls" "hinv (fs_fallback s) (held L Ls)" "pairwise_mset disjoint_blocks (held L Ls)"
    "\<forall>c \<in># L. good_layout (snd c)"
    using assms(1) by (auto simp: fsb_inv_def)
  have len: "length Ls = 9" using Ls(1) by (simp add: fsb_lists_def)
  show ?thesis
  proof (cases rule: fsb_request_cases [of l Ls])
    case (1 i a as)
    then have i: "i < 9" by (simp add: list_index_Some_iff)
    let ?b = "(a, block_layout i)"
    have m: "?b \<in># free_blocks Ls" using 1 by (intro free_blocks_mem [OF i len]) simp
    have "n = 8" "x = a" using fsb_alloc_hit [OF Ls(1) 1, of H] assms(3,4) hq.wrote_refl
      by (auto simp: fsb_wrote_def split: if_splits)
    moreover have "held L Ls = add_mset ?b (image_mset fall_block L + (free_blocks Ls - {#?b#}))"
      using m by (simp add: held_def)
    then have "\<forall>b \<in># image_mset fall_block L. disjoint_blocks ?b b" using Ls(3) by (simp add: pairwise_disjoint_add)
    then have "clear_of (held L (replicate 9 [])) a 8"
      using block_layout_size(2) [OF i] by (intro disjoint_clear) (auto simp: held_def free_blocks_Nil)
    ultimately show ?thesis using held_clear Ls(4) by blast
  next
    case 2
    obtain h where h: "heap_alloc H (fs_fallback s) (fall_layout l) = Some (Inr (p, h))" "s' = s\<lparr>fs_fallback := h\<rparr>"
      using fsb_alloc_missD [OF Ls(1) 2 assms(3)] by blast
    then have "hwrote (fs_fallback s) h x n" using assms(4) by (simp add: fsb_wrote_def)
    then have "clear_of (held L Ls) x n"
      by (rule hq.alloc_wrote [OF Ls(2) fall_layout_props(1) [OF assms(2)] h(1)])
    then show ?thesis by (rule held_clear [OF _ Ls(4)])
  qed
qed

lemma fsb_dealloc_wrote:
  assumes "fsb_inv hinv lo hi s (add_mset (p, l) L)" "fsb_dealloc H s p l = Inr s'" "fsb_wrote hwrote s s' x n"
  shows "clear_of L x n"
proof -
  obtain Ls where Ls: "fsb_lists s Ls" "hinv (fs_fallback s) (held (add_mset (p, l) L) Ls)"
    "pairwise_mset disjoint_blocks (held (add_mset (p, l) L) Ls)" "\<forall>c \<in># L. good_layout (snd c)"
    using assms(1) by (auto simp: fsb_inv_def)
  have eq: "held (add_mset (p, l) L) Ls = add_mset (fall_block (p, l)) (held L Ls)" by (simp add: held_def)
  have "clear_of (held L Ls) x n"
  proof (cases "list_index l")
    case (Some i)
    then have i: "i < 9" by (simp add: list_index_Some_iff)
    have fb: "fall_block (p, l) = (p, block_layout i)" using Some by (simp add: fall_block_def fall_layout_def)
    have d: "\<forall>b \<in># held L Ls. disjoint_blocks (p, block_layout i) b" using Ls(3) by (simp add: eq fb pairwise_disjoint_add)
    have "n = 8" "x = p" using assms(2,3) Some hq.wrote_refl
      by (auto simp: fsb_dealloc_def fsb_wrote_def rbind_eq_Inr split: if_splits)
    then show ?thesis using disjoint_clear [OF d] block_layout_size(2) [OF i] by simp
  next
    case None
    then have fb: "fall_block (p, l) = (p, l)" by (simp add: fall_block_def fall_layout_def)
    obtain h where h: "hp_deallocate H (fs_fallback s) p l = Inr h" "s' = s\<lparr>fs_fallback := h\<rparr>"
      using assms(2) None by (auto simp: fsb_dealloc_def rbind_eq_Inr split: if_splits)
    then have "hwrote (fs_fallback s) h x n" using assms(3) by (simp add: fsb_wrote_def)
    then show ?thesis using hq.dealloc_wrote [of "fs_fallback s" p l "held L Ls"] Ls(2) h(1) by (simp add: eq fb)
  qed
  then show ?thesis by (rule held_clear [OF _ Ls(4)])
qed

end

sublocale quiet_fallback \<subseteq> fsb_quiet: quiet_alloc "fsb_alloc H" "fsb_dealloc H" "fsb_wr hwr"
  "fsb_inv hinv lo hi" lo hi "fsb_wrote hwrote"
proof (unfold_locales, goal_cases)
  case (2 s L l p s' x n)
  then show ?case by (rule fsb_alloc_wrote)
next
  case (3 s p l L s' x n)
  then show ?case by (rule fsb_dealloc_wrote)
qed (simp add: fsb_wrote_def hq.wrote_refl)

context quiet_fallback
begin

lemma fsb_run_quiet:
  assumes "fsb_init H (fsb_new H m) a k = Inr s0" "hinv (fs_fallback s0) {#}"
    and "heap_run (fsb_alloc H) (fsb_dealloc H) (fsb_wr hwr) s0 s L" "fsb_wrote hwrote s s' x n"
  shows "(good_layout l \<and> fsb_alloc H s l = Some (Inr (p, s')) \<longrightarrow> clear_of L x n) \<and>
    ((p, l) \<in># L \<and> fsb_dealloc H s p l = Inr s' \<longrightarrow> clear_of (L - {#(p, l)#}) x n)"
  using fsb_quiet.run_quiet [OF assms(3) fsb_init_inv [of H m a k s0 hinv, OF assms(1,2)] assms(4)] by blast

end

text \<open>With the linked-list allocator as the fallback heap all of the stack is covered.\<close>

interpretation fsb_ll_quiet: quiet_fallback ll_heap_ops ll_wr "ll_inv lo hi" lo hi ll_wrote
  for lo hi
proof -
  have "hp_deallocate ll_heap_ops = ll_dealloc" by (simp add: ll_heap_ops_def)
  then show "quiet_fallback ll_heap_ops ll_wr (ll_inv lo hi) lo hi ll_wrote"
    unfolding quiet_fallback_def heap_alloc_ll using ll_quiet.quiet_alloc_axioms by simp
qed

section \<open>Two boxes, for the witnesses\<close>

lemma ex_ll_two:
  "\<exists>h1 h2. ll_alloc ex_ll (block_layout 0) = Some (Inr (4096, h1)) \<and> ll_alloc h1 (block_layout 0) = Some (Inr (4112, h2))"
proof -
  have sa: "size_align (block_layout 0) = Inr (16, 8)" using size_align_block [of 0] by (simp add: BLOCK_SIZES_def)
  have al: "align_up 4096 8 = Inr 4096" "align_up 4112 8 = Inr 4112" by (simp_all add: align_up_aligned)
  have "ll_single 5120 4096 ex_ll" by (simp add: ll_single_def)
  from ll_single_alloc [OF this sa al(1)] obtain h1 where
    1: "ll_alloc ex_ll (block_layout 0) = Some (Inr (4096, h1))" "ll_single 5120 4112 h1" by auto
  from ll_single_alloc [OF 1(2) sa al(2)] 1(1) show ?thesis by auto
qed

lemma ex_ll_two_run:
  "\<exists>h. heap_run ll_alloc ll_dealloc ll_wr ex_ll h {#(4112, block_layout 0), (4096, block_layout 0)#} \<and> ll_mem h 4112 = None"
proof -
  obtain h1 h2 where h: "ll_alloc ex_ll (block_layout 0) = Some (Inr (4096, h1))" "ll_alloc h1 (block_layout 0) = Some (Inr (4112, h2))"
    using ex_ll_two by blast
  have g: "good_layout (block_layout 0)" using block_layout_good [of 0] by simp
  have "heap_run ll_alloc ll_dealloc ll_wr ex_ll h1 {#(4096, block_layout 0)#}"
    by (rule heap_run.request [where alloc = ll_alloc, OF heap_run.start g h(1)]) simp
  then have r: "heap_run ll_alloc ll_dealloc ll_wr ex_ll h2 {#(4112, block_layout 0), (4096, block_layout 0)#}"
    by (rule heap_run.request [where alloc = ll_alloc, OF _ g h(2)]) simp
  have "ll_wr {#(4112, block_layout 0), (4096, block_layout 0)#} h2 (h2\<lparr>ll_mem := (ll_mem h2)(4112 := None)\<rparr>)"
    using block_layout_size(2) [of 0] by (auto simp: ll_wr_def block_defs)
  from heap_run.use [where alloc = ll_alloc, OF r this] show ?thesis by (intro exI conjI) (assumption, simp)
qed

lemma ex_fsb_two_run:
  "\<exists>s. heap_run (fsb_alloc ll_heap_ops) (fsb_dealloc ll_heap_ops) (fsb_wr ll_wr) ex_fsb s
      {#(4112, usize_layout), (4096, usize_layout)#} \<and> fs_mem s = Map.empty \<and> length (fs_list_heads s) = 9"
proof -
  obtain h1 h2 where h: "ll_alloc ex_ll (block_layout 0) = Some (Inr (4096, h1))" "ll_alloc h1 (block_layout 0) = Some (Inr (4112, h2))"
    using ex_ll_two by blast
  let ?s = "\<lambda>h. \<lparr>fs_list_heads = replicate 9 None, fs_fallback = h, fs_mem = Map.empty\<rparr>"
  have u: "fall_layout usize_layout = block_layout 0" by (simp add: fall_layout_def list_index_usize)
  have l: "fsb_lists (?s h) (replicate 9 [])" for h :: ll_allocator by (simp add: fsb_lists_def)
  have m: "fsb_alloc ll_heap_ops (?s h) usize_layout = Some (Inr (p, ?s h'))"
    if "ll_alloc h (block_layout 0) = Some (Inr (p, h'))" for h h' p
    using fsb_alloc_miss [OF l, of usize_layout ll_heap_ops h] that
    by (simp add: u fallback_alloc_eq heap_alloc_ll list_index_usize)
  have g: "good_layout usize_layout" by (simp add: good_layout_def valid_layout_def usize_layout_def)
  have "heap_run (fsb_alloc ll_heap_ops) (fsb_dealloc ll_heap_ops) (fsb_wr ll_wr) ex_fsb (?s h1) {#(4096, usize_layout)#}"
    by (rule heap_run.request [where alloc = "fsb_alloc ll_heap_ops", OF heap_run.start g m [OF h(1)]]) simp
  then have "heap_run (fsb_alloc ll_heap_ops) (fsb_dealloc ll_heap_ops) (fsb_wr ll_wr) ex_fsb (?s h2)
      {#(4112, usize_layout), (4096, usize_layout)#}"
    by (rule heap_run.request [where alloc = "fsb_alloc ll_heap_ops", OF _ g m [OF h(2)]]) simp
  then show ?thesis by (intro exI [of _ "?s h2"]) simp
qed

section \<open>Properties\<close>

text \<open>
  C7: the kernel's allocator never writes to memory that a program holds. In every state that a
  program can reach, over any fallback heap that keeps this promise too, all that \<open>alloc\<close> and
  \<open>dealloc\<close> write, their list nodes and those of the fallback heap, lies outside every block that
  is held and not just being returned: data on the heap stays what the program has made it.
\<close>

theorem fsb_never_writes_live_memory:
  assumes "quiet_fallback H hwr hinv lo hi hwrote"
    and "fsb_init H (fsb_new H m) a k = Inr s0" "hinv (fs_fallback s0) {#}"
    and "heap_run (fsb_alloc H) (fsb_dealloc H) (fsb_wr hwr) s0 s L" "fsb_wrote hwrote s s' x n"
  shows "(good_layout l \<and> fsb_alloc H s l = Some (Inr (p, s')) \<longrightarrow> clear_of L x n) \<and>
    ((p, l) \<in># L \<and> fsb_dealloc H s p l = Inr s' \<longrightarrow> clear_of (L - {#(p, l)#}) x n)"
  by (rule quiet_fallback.fsb_run_quiet [OF assms])

theorem fsb_never_writes_live_memory_witness:
  "\<exists>s s'. heap_run (fsb_alloc ll_heap_ops) (fsb_dealloc ll_heap_ops) (fsb_wr ll_wr) ex_fsb s
      {#(4112, usize_layout), (4096, usize_layout)#} \<and>
     fsb_dealloc ll_heap_ops s 4112 usize_layout = Inr s' \<and> fsb_wrote ll_wrote s s' 4112 8 \<and>
     clear_of {#(4096, usize_layout)#} 4112 8"
proof -
  obtain s where s: "heap_run (fsb_alloc ll_heap_ops) (fsb_dealloc ll_heap_ops) (fsb_wr ll_wr) ex_fsb s
      {#(4112, usize_layout), (4096, usize_layout)#}" "fs_mem s = Map.empty" "length (fs_list_heads s) = 9"
    using ex_fsb_two_run by blast
  note d = box_dealloc [OF s(3), of ll_heap_ops 4112]
  have w: "fsb_wrote ll_wrote s (s\<lparr>fs_mem := (fs_mem s)(4112 \<mapsto> \<lparr>fn_next = fs_list_heads s ! 0\<rparr>),
      fs_list_heads := (fs_list_heads s)[0 := Some 4112]\<rparr>) 4112 8"
    by (simp add: fsb_wrote_def s(2))
  from fsb_never_writes_live_memory [OF fsb_ll_quiet.quiet_fallback_axioms ex_fsb_init ex_fsb_fallback s(1) w,
      of usize_layout 4112] d
  have "clear_of {#(4096, usize_layout)#} 4112 8" by simp
  with s(1) d w show ?thesis by blast
qed

text \<open>
  C20: the linked-list allocator never writes to memory that a program holds either: the nodes that
  \<open>find_region\<close> unlinks and \<open>add_free_region\<close> writes, 16 bytes each, are in free regions.
\<close>

theorem ll_never_writes_live_memory:
  assumes "ll_init (ll_new m) a k = Inr s0" "a \<noteq> 0" "unat a + unat k \<le> 2 ^ 63"
    and "heap_run ll_alloc ll_dealloc ll_wr s0 s L" "ll_mem s' x \<noteq> ll_mem s x"
  shows "(good_layout l \<and> ll_alloc s l = Some (Inr (p, s')) \<longrightarrow> clear_of L x 16) \<and>
    ((p, l) \<in># L \<and> ll_dealloc s p l = Inr s' \<longrightarrow> clear_of (L - {#(p, l)#}) x 16)"
proof -
  have "ll_inv (unat a) (unat a + unat k) s0 {#}" using ll_init_inv [OF assms(1-3)] by (auto simp: ll_inv_def)
  moreover have "ll_wrote s s' x 16" using assms(5) by (simp add: ll_wrote_def)
  ultimately show ?thesis using ll_quiet.run_quiet [OF assms(4)] by blast
qed

theorem ll_never_writes_live_memory_witness:
  "\<exists>s s'. heap_run ll_alloc ll_dealloc ll_wr ex_ll s {#(4112, block_layout 0), (4096, block_layout 0)#} \<and>
     ll_dealloc s 4112 (block_layout 0) = Inr s' \<and> ll_mem s' 4112 \<noteq> ll_mem s 4112 \<and>
     clear_of {#(4096, block_layout 0)#} 4112 16"
proof -
  obtain s where s: "heap_run ll_alloc ll_dealloc ll_wr ex_ll s {#(4112, block_layout 0), (4096, block_layout 0)#}" "ll_mem s 4112 = None"
    using ex_ll_two_run by blast
  have "size_align (block_layout 0) = Inr (16, 8)" using size_align_block [of 0] by (simp add: BLOCK_SIZES_def)
  then obtain s' where d: "ll_dealloc s 4112 (block_layout 0) = Inr s'" "ll_mem s' 4112 \<noteq> ll_mem s 4112"
    using add_free_region_eq [of 4112 16 s] s(2) by (simp add: ll_dealloc_def)
  from ll_never_writes_live_memory [OF ex_ll_init _ _ s(1) d(2), of "block_layout 0" 4112] d(1)
  have "clear_of {#(4096, block_layout 0)#} 4112 16" by simp
  with s(1) d show ?thesis by blast
qed

end
