(* ===== verification/Heap_Tests.thy ===== *)
theory Heap_Tests
  imports Heap_Integrity
begin

text \<open>
  The tests of \<^verbatim>\<open>tests/heap_allocation.rs\<close>, which store values on the heap and compare them, over any
  allocator that keeps the contract \<open>quiet_alloc\<close>. \<open>Box\<close> and \<open>Vec\<close> are the standard library's.
\<close>

section \<open>A program with values on the heap\<close>

text \<open>
  The state of the allocator, and the values that the program has stored: at an address, the
  number of bytes and the value.
\<close>

record 's program =
  pg_heap :: 's
  pg_cells :: "usize \<rightharpoonup> nat \<times> u64"

text \<open>
  The allocator. \<open>store a w\<close> is what a write of \<open>w\<close> bytes at \<open>a\<close> does to the nodes that it finds there;
  \<open>dirty s s' a w\<close> says whether a call that takes it from \<open>s\<close> to \<open>s'\<close> overwrites some of the \<open>w\<close> bytes at \<open>a\<close>.
\<close>

record 's allocator_ops =
  ao_alloc :: "'s \<Rightarrow> layout \<Rightarrow> (usize \<times> 's) result option"
  ao_dealloc :: "'s \<Rightarrow> usize \<Rightarrow> layout \<Rightarrow> 's result"
  ao_store :: "usize \<Rightarrow> nat \<Rightarrow> 's \<Rightarrow> 's"
  ao_dirty :: "'s \<Rightarrow> 's \<Rightarrow> usize \<Rightarrow> nat \<Rightarrow> bool"

definition overlap :: "usize \<Rightarrow> nat \<Rightarrow> usize \<Rightarrow> nat \<Rightarrow> bool" where
  "overlap a w b n = (unat a < unat b + n \<and> unat b < unat a + w)"

text \<open>Values that are overwritten are lost.\<close>

definition after_call :: "'s allocator_ops \<Rightarrow> 's \<Rightarrow> 's program \<Rightarrow> 's program" where
  "after_call AO s' st =
     \<lparr>pg_heap = s', pg_cells = \<lambda>a. case pg_cells st a of None \<Rightarrow> None
        | Some (w, v) \<Rightarrow> if ao_dirty AO (pg_heap st) s' a w then None else Some (w, v)\<rparr>"

definition pg_alloc :: "'s allocator_ops \<Rightarrow> layout \<Rightarrow> 's program \<Rightarrow> (usize \<times> 's program) result option" where
  "pg_alloc AO l st =
     obind (ao_alloc AO (pg_heap st) l) (\<lambda>(p, s').
       if p = null_mut then Some (Inl (Message ''allocation error'')) else Some (Inr (p, after_call AO s' st)))"

definition pg_dealloc :: "'s allocator_ops \<Rightarrow> usize \<Rightarrow> layout \<Rightarrow> 's program \<Rightarrow> 's program result" where
  "pg_dealloc AO p l st = rbind (ao_dealloc AO (pg_heap st) p l) (\<lambda>s'. Inr (after_call AO s' st))"

definition pg_put :: "'s allocator_ops \<Rightarrow> usize \<Rightarrow> nat \<Rightarrow> (nat \<times> u64) option \<Rightarrow> 's program \<Rightarrow> 's program" where
  "pg_put AO a w x st =
     \<lparr>pg_heap = ao_store AO a w (pg_heap st),
      pg_cells = (\<lambda>b. case pg_cells st b of None \<Rightarrow> None
        | Some (n, v) \<Rightarrow> if overlap a w b n then None else Some (n, v))(a := x)\<rparr>"

definition pg_write :: "'s allocator_ops \<Rightarrow> usize \<Rightarrow> nat \<Rightarrow> u64 \<Rightarrow> 's program \<Rightarrow> 's program" where
  "pg_write AO a w v st = pg_put AO a w (Some (w, v)) st"

definition pg_read :: "'s program \<Rightarrow> usize \<Rightarrow> u64 result" where
  "pg_read st a = (case pg_cells st a of None \<Rightarrow> Inl (Fault a) | Some (_, v) \<Rightarrow> Inr v)"

section \<open>Boxes\<close>

text \<open>\<open>Box::new\<close> of a number: the block, and the value written to it.\<close>

definition new_box :: "'s allocator_ops \<Rightarrow> layout \<Rightarrow> u64 \<Rightarrow> 's program \<Rightarrow> (usize \<times> 's program) result option" where
  "new_box AO l v st = obind (pg_alloc AO l st) (\<lambda>(p, st). Some (Inr (p, pg_write AO p (unat (l_size l)) v st)))"

definition assert_cell :: "'s program \<Rightarrow> usize \<Rightarrow> u64 \<Rightarrow> unit result" where
  "assert_cell st p v = rbind (pg_read st p) (\<lambda>x. rassert (x = v))"

text \<open>The boxes are dropped in the reverse order of their declaration.\<close>

definition simple_allocation :: "'s allocator_ops \<Rightarrow> 's program \<Rightarrow> 's program result option" where
  "simple_allocation AO st =
     obind (new_box AO i32_layout 41 st) (\<lambda>(heap_value_1, st).
     obind (new_box AO i32_layout 13 st) (\<lambda>(heap_value_2, st).
     obind (Some (assert_cell st heap_value_1 41)) (\<lambda>_.
     obind (Some (assert_cell st heap_value_2 13)) (\<lambda>_.
     obind (Some (pg_dealloc AO heap_value_2 i32_layout st)) (\<lambda>st.
       Some (pg_dealloc AO heap_value_1 i32_layout st))))))"

fun many_boxes_loop :: "'s allocator_ops \<Rightarrow> u64 list \<Rightarrow> 's program \<Rightarrow> 's program result option" where
  "many_boxes_loop AO [] st = Some (Inr st)"
| "many_boxes_loop AO (i # is) st =
     obind (new_box AO usize_layout i st) (\<lambda>(x, st).
     obind (Some (assert_cell st x i)) (\<lambda>_.
     obind (Some (pg_dealloc AO x usize_layout st)) (\<lambda>st. many_boxes_loop AO is st)))"

definition many_boxes_checked :: "'s allocator_ops \<Rightarrow> 's program \<Rightarrow> 's program result option" where
  "many_boxes_checked AO st = many_boxes_loop AO (map word_of_nat [0..<unat HEAP_SIZE]) st"

section \<open>Vectors\<close>

definition u64_array :: "nat \<Rightarrow> layout" where
  "u64_array n = \<lparr>l_size = word_of_nat (8 * n), l_align = 8\<rparr>"

definition elem :: "usize \<Rightarrow> nat \<Rightarrow> usize" where
  "elem p i = p + word_of_nat (8 * i)"

text \<open>\<open>realloc\<close> of the \<open>GlobalAlloc\<close> trait: a new block, the old contents, and the old block back.\<close>

definition copy_elems :: "'s allocator_ops \<Rightarrow> usize \<Rightarrow> usize \<Rightarrow> nat \<Rightarrow> 's program \<Rightarrow> 's program" where
  "copy_elems AO from to n st = fold (\<lambda>i st. pg_put AO (elem to i) 8 (pg_cells st (elem from i)) st) [0..<n] st"

definition u64_grow :: "'s allocator_ops \<Rightarrow> vec \<Rightarrow> nat \<Rightarrow> 's program \<Rightarrow> (usize \<times> 's program) result option" where
  "u64_grow AO v cap st =
     obind (pg_alloc AO (u64_array cap) st) (\<lambda>(p, st).
       if vec_cap v = 0 then Some (Inr (p, st))
       else obind (Some (pg_dealloc AO (vec_ptr v) (u64_array (vec_cap v)) (copy_elems AO (vec_ptr v) p (vec_cap v) st)))
         (\<lambda>st. Some (Inr (p, st))))"

definition u64_push :: "'s allocator_ops \<Rightarrow> vec \<Rightarrow> u64 \<Rightarrow> 's program \<Rightarrow> (vec \<times> 's program) result option" where
  "u64_push AO v x st =
     obind (if vec_len v < vec_cap v then Some (Inr (v, st))
            else let cap = max (max (2 * vec_cap v) (vec_len v + 1)) 4 in
              obind (u64_grow AO v cap st) (\<lambda>(p, st). Some (Inr (v\<lparr>vec_ptr := p, vec_cap := cap\<rparr>, st)))) (\<lambda>(v, st).
       Some (Inr (v\<lparr>vec_len := vec_len v + 1\<rparr>, pg_write AO (elem (vec_ptr v) (vec_len v)) 8 x st)))"

fun u64_pushes :: "'s allocator_ops \<Rightarrow> u64 list \<Rightarrow> vec \<Rightarrow> 's program \<Rightarrow> (vec \<times> 's program) result option" where
  "u64_pushes AO [] v st = Some (Inr (v, st))"
| "u64_pushes AO (x # xs) v st = obind (u64_push AO v x st) (\<lambda>(v, st). u64_pushes AO xs v st)"

text \<open>\<open>vec.iter().sum()\<close>, which panics on overflow.\<close>

definition u64_sum :: "vec \<Rightarrow> 's program \<Rightarrow> u64 result" where
  "u64_sum v st = rfold (\<lambda>i acc. rbind (pg_read st (elem (vec_ptr v) i)) (\<lambda>x. uadd acc x)) [0..<vec_len v] 0"

definition large_and_multiple_allocations :: "'s allocator_ops \<Rightarrow> 's program \<Rightarrow> 's program result option" where
  "large_and_multiple_allocations AO st =
     (let n = 1000 in
      obind (u64_pushes AO (map word_of_nat [0..<n]) (vec_new\<lparr>vec_ptr := 8\<rparr>) st) (\<lambda>(v, st).
      obind (Some (u64_sum v st)) (\<lambda>x.
      obind (Some (rassert (x = (word_of_nat n - 1) * word_of_nat n div 2))) (\<lambda>_.
        Some (if vec_cap v = 0 then Inr st else pg_dealloc AO (vec_ptr v) (u64_array (vec_cap v)) st)))))"

section \<open>The contract that the program relies on\<close>

definition in_block :: "block \<Rightarrow> usize \<Rightarrow> nat \<Rightarrow> bool" where
  "in_block b a w = (0 < w \<and> block_lo b \<le> unat a \<and> unat a + w \<le> block_hi b)"

lemma clear_no_overlap: "clear_of L x n \<Longrightarrow> b \<in># L \<Longrightarrow> in_block b a w \<Longrightarrow> \<not> overlap a w x n"
  by (fastforce simp: clear_of_def in_block_def overlap_def)

lemma disjoint_no_overlap: "disjoint_blocks b c \<Longrightarrow> in_block b a w \<Longrightarrow> in_block c x n \<Longrightarrow> \<not> overlap a w x n"
  by (auto simp: disjoint_blocks_def in_block_def overlap_def)

text \<open>Values in the blocks \<open>L\<close> are still there.\<close>

definition kept :: "block multiset \<Rightarrow> 's program \<Rightarrow> 's program \<Rightarrow> bool" where
  "kept L st st' =
     (\<forall>b \<in># L. \<forall>a w v. in_block b a w \<longrightarrow> pg_cells st a = Some (w, v) \<longrightarrow> pg_cells st' a = Some (w, v))"

lemma kept_trans: "kept L st st' \<Longrightarrow> kept L st' st'' \<Longrightarrow> kept L st st''"
  by (simp add: kept_def)

lemma kept_refl [simp]: "kept L st st"
  by (simp add: kept_def)

lemma kept_mono: "kept (add_mset b L) st st' \<Longrightarrow> kept L st st'"
  by (simp add: kept_def)

lemma keptD: "kept L st st' \<Longrightarrow> b \<in># L \<Longrightarrow> in_block b a w \<Longrightarrow> pg_cells st a = Some (w, v) \<Longrightarrow> pg_cells st' a = Some (w, v)"
  by (simp add: kept_def)

text \<open>The vector holds the values \<open>xs\<close> in its buffer, next to the blocks \<open>L\<close>, whose values are those of \<open>st0\<close>.\<close>

definition vec_at ::
  "('s \<Rightarrow> block multiset \<Rightarrow> bool) \<Rightarrow> nat \<Rightarrow> nat \<Rightarrow> 's program \<Rightarrow> vec \<Rightarrow> u64 list \<Rightarrow> block multiset \<Rightarrow> 's program \<Rightarrow> bool" where
  "vec_at hinv lo hi st0 v xs L st =
     (kept L st0 st \<and> vec_len v = length xs \<and> length xs \<le> vec_cap v \<and> vec_cap v \<le> 2 * length xs + 4 \<and>
      (if vec_cap v = 0 then hinv (pg_heap st) L
       else hinv (pg_heap st) (add_mset (vec_ptr v, u64_array (vec_cap v)) L) \<and> block_ok lo hi (vec_ptr v, u64_array (vec_cap v)) \<and>
         (\<forall>c \<in># L. disjoint_blocks (vec_ptr v, u64_array (vec_cap v)) c)) \<and>
      (\<forall>i < length xs. pg_cells st (elem (vec_ptr v) i) = Some (8, xs ! i)))"

lemma unat_8_times: "n < 2 ^ 60 \<Longrightarrow> unat (word_of_nat (8 * n) :: usize) = 8 * n"
  by (rule unat_word_of_nat64) simp

lemma u64_array_size: "n < 2 ^ 60 \<Longrightarrow> unat (l_size (u64_array n)) = 8 * n"
  unfolding u64_array_def layout.simps by (rule unat_8_times)

lemma good_u64_array: "0 < n \<Longrightarrow> n < 2 ^ 60 \<Longrightarrow> good_layout (u64_array n)"
  using u64_array_size [of n] by (auto simp: good_layout_def valid_layout_def) (simp_all add: u64_array_def)

text \<open>
  Code that ends with a result that satisfies \<open>Q\<close>, or with a panic that comes from the allocator:
  the heap is exhausted, or \<open>alloc\<close> panics.
\<close>

definition alloc_panic :: "'s allocator_ops \<Rightarrow> panic \<Rightarrow> bool" where
  "alloc_panic AO e = (e = Message ''allocation error'' \<or> (\<exists>s l. ao_alloc AO s l = Some (Inl e)))"

definition ends :: "'s allocator_ops \<Rightarrow> 'a result option \<Rightarrow> ('a \<Rightarrow> bool) \<Rightarrow> bool" where
  "ends AO r Q = (case r of None \<Rightarrow> False | Some (Inl e) \<Rightarrow> alloc_panic AO e | Some (Inr x) \<Rightarrow> Q x)"

lemma ends_cases:
  assumes "ends AO r Q"
  obtains e where "r = Some (Inl e)" "alloc_panic AO e" | x where "r = Some (Inr x)" "Q x"
  using assms by (auto simp: ends_def split: option.splits sum.splits)

lemma ends_Inr [simp]: "ends AO (Some (Inr x)) Q = Q x"
  by (simp add: ends_def)

lemma ends_bind:
  assumes "ends AO m P" "\<And>x. P x \<Longrightarrow> ends AO (f x) Q"
  shows "ends AO (obind m f) Q"
proof (cases m)
  case (Some r)
  then show ?thesis using assms by (cases r) (simp_all add: ends_def)
qed (use assms(1) in \<open>simp add: ends_def\<close>)

locale alloc_client = quiet_alloc "ao_alloc AO" "ao_dealloc AO" wr inv lo hi wrote
  for AO :: "'s allocator_ops" and wr inv lo hi wrote +
  assumes store_wr: "inv s L \<Longrightarrow> b \<in># L \<Longrightarrow> in_block b a w \<Longrightarrow> wr L s (ao_store AO a w s)"
    and dirty_wrote: "ao_dirty AO s s' a w \<Longrightarrow> \<exists>x n. wrote s s' x n \<and> overlap a w x n"
    and inv_hi: "inv s L \<Longrightarrow> hi < 2 ^ 64"
begin

lemma kept_after_call:
  assumes "\<And>x n. wrote (pg_heap st) s' x n \<Longrightarrow> clear_of L x n"
  shows "kept L st (after_call AO s' st)"
proof -
  have "\<not> ao_dirty AO (pg_heap st) s' a w" if "b \<in># L" "in_block b a w" for a w b
    using dirty_wrote assms clear_no_overlap that by blast
  then show ?thesis by (auto simp: kept_def after_call_def)
qed

lemma alloc_ok:
  assumes "inv (pg_heap st) L" "good_layout l"
  shows "ends AO (pg_alloc AO l st) (\<lambda>(p, st'). block_ok lo hi (p, l) \<and> (\<forall>b \<in># L. disjoint_blocks (p, l) b) \<and>
    inv (pg_heap st') (add_mset (p, l) L) \<and> kept L st st')"
proof -
  obtain r where r: "ao_alloc AO (pg_heap st) l = Some r" using alloc_returns [OF assms] by blast
  show ?thesis
  proof (cases r)
    case (Inl e)
    then show ?thesis using r by (auto simp: pg_alloc_def ends_def alloc_panic_def)
  next
    case (Inr y)
    then obtain p s' where y: "ao_alloc AO (pg_heap st) l = Some (Inr (p, s'))" using r by (cases y) auto
    show ?thesis
    proof (cases "p = 0")
      case True
      then show ?thesis using y by (simp add: pg_alloc_def null_mut_def ends_def alloc_panic_def)
    next
      case False
      then show ?thesis
        using y alloc_block [OF assms y] alloc_inv [OF assms y] kept_after_call [OF alloc_wrote [OF assms y]]
        by (simp add: pg_alloc_def null_mut_def after_call_def)
    qed
  qed
qed

lemma dealloc_ok:
  assumes "inv (pg_heap st) (add_mset (p, l) L)"
  shows "\<exists>st'. pg_dealloc AO p l st = Inr st' \<and> inv (pg_heap st') L \<and> kept L st st'"
proof -
  obtain s' where s': "ao_dealloc AO (pg_heap st) p l = Inr s'" "inv s' L" using dealloc_inv [OF assms] by blast
  then show ?thesis using kept_after_call [OF dealloc_wrote [OF assms s'(1)]] by (simp add: pg_dealloc_def after_call_def)
qed

lemma put_inv:
  assumes "inv (pg_heap st) L" "b \<in># L" "in_block b a w"
  shows "inv (pg_heap (pg_put AO a w x st)) L"
  using wr_inv [OF assms(1) store_wr [OF assms]] by (simp add: pg_put_def)

end

lemma put_cell [simp]: "pg_cells (pg_put AO a w x st) a = x"
  by (simp add: pg_put_def)

lemma put_other:
  assumes "pg_cells st b = Some (n, v)" "\<not> overlap a w b n" "0 < n" "0 < w"
  shows "pg_cells (pg_put AO a w x st) b = Some (n, v)"
proof -
  have "a \<noteq> b" using assms(2-4) by (auto simp: overlap_def)
  then show ?thesis using assms by (simp add: pg_put_def)
qed

lemma put_kept:
  assumes "\<forall>c \<in># L. disjoint_blocks b c" "in_block b a w"
  shows "kept L st (pg_put AO a w x st)"
  unfolding kept_def
proof (intro ballI allI impI)
  fix c e n y assume c: "c \<in># L" "in_block c e n" "pg_cells st e = Some (n, y)"
  have "\<not> overlap a w e n" using disjoint_no_overlap [OF _ assms(2) c(2)] assms(1) c(1) by blast
  then show "pg_cells (pg_put AO a w x st) e = Some (n, y)"
    using put_other [OF c(3)] c(2) assms(2) by (simp add: in_block_def)
qed

context alloc_client
begin

lemma new_box_ok:
  assumes "inv (pg_heap st) L" "good_layout l"
  shows "ends AO (new_box AO l v st) (\<lambda>(p, st'). inv (pg_heap st') (add_mset (p, l) L) \<and>
    pg_cells st' p = Some (unat (l_size l), v) \<and> kept L st st')"
  unfolding new_box_def
proof (rule ends_bind [OF alloc_ok [OF assms]], clarsimp)
  fix p st'
  assume a: "\<forall>b \<in># L. disjoint_blocks (p, l) b" "inv (pg_heap st') (add_mset (p, l) L)" "kept L st st'"
  let ?w = "unat (l_size l)"
  have w: "0 < ?w" using assms(2) by (simp add: good_layout_def unat_gt_0)
  then have p: "in_block (p, l) p ?w" by (simp add: in_block_def block_defs)
  have "kept L st' (pg_write AO p ?w v st')" unfolding pg_write_def by (rule put_kept [OF a(1) p])
  then show "inv (pg_heap (pg_write AO p ?w v st')) (add_mset (p, l) L) \<and>
      pg_cells (pg_write AO p ?w v st') p = Some (?w, v) \<and> kept L st (pg_write AO p ?w v st')"
    using put_inv [OF a(2) _ p] kept_trans [OF a(3)] by (simp add: pg_write_def)
qed

lemma assert_ok: "pg_cells st p = Some (w, v) \<Longrightarrow> assert_cell st p v = Inr ()"
  by (simp add: assert_cell_def pg_read_def)

lemma good_i32: "good_layout i32_layout" "unat (l_size i32_layout) = 4"
  by (auto simp: good_layout_def valid_layout_def i32_layout_def is_power_of_two_iff intro: exI [of _ 2])

lemma good_usize: "good_layout usize_layout" "unat (l_size usize_layout) = 8"
  by (auto simp: good_layout_def valid_layout_def usize_layout_def)

lemma simple_allocation_ok:
  assumes "inv (pg_heap st) L"
  shows "ends AO (simple_allocation AO st) (\<lambda>st'. inv (pg_heap st') L \<and> kept L st st')"
  unfolding simple_allocation_def
proof (rule ends_bind [OF new_box_ok [OF assms good_i32(1)]], clarsimp simp: good_i32(2))
  fix p st1 assume 1: "inv (pg_heap st1) (add_mset (p, i32_layout) L)" "pg_cells st1 p = Some (4, 41)" "kept L st st1"
  show "ends AO (obind (new_box AO i32_layout 13 st1) (\<lambda>(heap_value_2, st).
      obind (Some (assert_cell st p 41)) (\<lambda>_. obind (Some (assert_cell st heap_value_2 13)) (\<lambda>_.
      obind (Some (pg_dealloc AO heap_value_2 i32_layout st)) (\<lambda>st. Some (pg_dealloc AO p i32_layout st))))))
    (\<lambda>st'. inv (pg_heap st') L \<and> kept L st st')"
  proof (rule ends_bind [OF new_box_ok [OF 1(1) good_i32(1)]], clarsimp simp: good_i32(2))
    fix q st2 assume 2: "inv (pg_heap st2) (add_mset (q, i32_layout) (add_mset (p, i32_layout) L))"
      "pg_cells st2 q = Some (4, 13)" "kept (add_mset (p, i32_layout) L) st1 st2"
    have "in_block (p, i32_layout) p 4" by (simp add: in_block_def block_defs good_i32(2))
    then have "pg_cells st2 p = Some (4, 41)" by (intro keptD [OF 2(3) _ _ 1(2)]) simp_all
    note a = assert_ok [OF this] assert_ok [OF 2(2)]
    obtain st3 where 3: "pg_dealloc AO q i32_layout st2 = Inr st3" "inv (pg_heap st3) (add_mset (p, i32_layout) L)"
        "kept (add_mset (p, i32_layout) L) st2 st3" using dealloc_ok [OF 2(1)] by blast
    obtain st4 where 4: "pg_dealloc AO p i32_layout st3 = Inr st4" "inv (pg_heap st4) L" "kept L st3 st4"
      using dealloc_ok [OF 3(2)] by blast
    have "kept L st st4"
      using kept_trans [OF kept_trans [OF 1(3) kept_mono [OF 2(3)]] kept_trans [OF kept_mono [OF 3(3)] 4(3)]] .
    then show "ends AO (obind (Some (assert_cell st2 p 41)) (\<lambda>_. obind (Some (assert_cell st2 q 13)) (\<lambda>_.
      obind (Some (pg_dealloc AO q i32_layout st2)) (\<lambda>st. Some (pg_dealloc AO p i32_layout st)))))
      (\<lambda>st'. inv (pg_heap st') L \<and> kept L st st')"
      using a 3(1) 4(1,2) by simp
  qed
qed

lemma many_boxes_ok:
  assumes "inv (pg_heap st) L"
  shows "ends AO (many_boxes_loop AO is st) (\<lambda>st'. inv (pg_heap st') L \<and> kept L st st')"
  using assms
proof (induction "is" arbitrary: st)
  case (Cons i "is")
  show ?case unfolding many_boxes_loop.simps
  proof (rule ends_bind [OF new_box_ok [OF Cons.prems good_usize(1)]], clarsimp simp: good_usize(2))
    fix p st1 assume 1: "inv (pg_heap st1) (add_mset (p, usize_layout) L)" "pg_cells st1 p = Some (8, i)" "kept L st st1"
    obtain st2 where 2: "pg_dealloc AO p usize_layout st1 = Inr st2" "inv (pg_heap st2) L" "kept L st1 st2"
      using dealloc_ok [OF 1(1)] by blast
    have "ends AO (many_boxes_loop AO is st2) (\<lambda>st'. inv (pg_heap st') L \<and> kept L st st')"
      using Cons.IH [OF 2(2)] kept_trans [OF kept_trans [OF 1(3) 2(3)]]
      by (auto simp: ends_def split: option.splits sum.splits)
    then show "ends AO (obind (Some (assert_cell st1 p i)) (\<lambda>_. obind (Some (pg_dealloc AO p usize_layout st1)) (many_boxes_loop AO is)))
      (\<lambda>st'. inv (pg_heap st') L \<and> kept L st st')"
      using assert_ok [OF 1(2)] 2(1) by simp
  qed
qed simp

lemma elem_in:
  assumes "block_ok lo hi (p, u64_array n)" "i < n" "n < 2 ^ 60" "hi < 2 ^ 64"
  shows "unat (elem p i) = unat p + 8 * i" "in_block (p, u64_array n) (elem p i) 8"
proof -
  have "unat p + 8 * n < 2 ^ 64" using assms(1,3,4) by (simp add: block_ok_def block_defs u64_array_size)
  moreover have i: "unat (word_of_nat (8 * i) :: usize) = 8 * i" using assms(2,3) by (intro unat_8_times) simp
  ultimately have "unat p + unat (word_of_nat (8 * i) :: usize) < 2 ^ 64" using assms(2) unfolding i by linarith
  then show u: "unat (elem p i) = unat p + 8 * i" unfolding elem_def by (subst unat_add64) (simp_all only: i)
  then show "in_block (p, u64_array n) (elem p i) 8"
    using assms(2,3) by (simp add: in_block_def block_defs u64_array_size)
qed

lemma elem_no_overlap:
  assumes "block_ok lo hi (p, u64_array n)" "i < n" "j < n" "i \<noteq> j" "n < 2 ^ 60" "hi < 2 ^ 64"
  shows "\<not> overlap (elem p i) 8 (elem p j) 8"
  using assms(4) elem_in(1) [OF assms(1,2,5,6)] elem_in(1) [OF assms(1,3,5,6)] by (auto simp: overlap_def)

lemma copy_ok:
  assumes "inv (pg_heap st) (add_mset (q, u64_array m) L)" "block_ok lo hi (q, u64_array m)" "block_ok lo hi (p, u64_array n)"
    and "\<forall>c \<in># L. disjoint_blocks (q, u64_array m) c" "(p, u64_array n) \<in># L" "k \<le> n" "n \<le> m" "m < 2 ^ 60"
    and "\<forall>i < n. pg_cells st (elem p i) = Some (8, xs ! i)"
  shows "inv (pg_heap (copy_elems AO p q k st)) (add_mset (q, u64_array m) L) \<and> kept L st (copy_elems AO p q k st) \<and>
    (\<forall>i < k. pg_cells (copy_elems AO p q k st) (elem q i) = Some (8, xs ! i))"
  using assms(6)
proof (induction k)
  case 0
  then show ?case using assms(1,9) by (simp add: copy_elems_def)
next
  case (Suc k)
  let ?st = "copy_elems AO p q k st"
  have IH: "inv (pg_heap ?st) (add_mset (q, u64_array m) L)" "kept L st ?st"
      "\<forall>i < k. pg_cells ?st (elem q i) = Some (8, xs ! i)"
    using Suc by simp_all
  have step: "copy_elems AO p q (Suc k) st = pg_put AO (elem q k) 8 (pg_cells ?st (elem p k)) ?st"
    by (simp add: copy_elems_def)
  note hi = inv_hi [OF assms(1)]
  have q: "in_block (q, u64_array m) (elem q k) 8" using assms(7,8) Suc.prems by (intro elem_in(2) [OF assms(2) _ _ hi]) simp_all
  have p: "in_block (p, u64_array n) (elem p k) 8" using assms(7,8) Suc.prems by (intro elem_in(2) [OF assms(3) _ _ hi]) simp_all
  have v: "pg_cells ?st (elem p k) = Some (8, xs ! k)" using assms(9) Suc.prems by (intro keptD [OF IH(2) assms(5) p]) simp
  have "inv (pg_heap (copy_elems AO p q (Suc k) st)) (add_mset (q, u64_array m) L)"
    unfolding step by (rule put_inv [OF IH(1) _ q]) simp
  moreover have "kept L st (copy_elems AO p q (Suc k) st)"
    unfolding step by (rule kept_trans [OF IH(2) put_kept [OF assms(4) q]])
  moreover have "pg_cells (copy_elems AO p q (Suc k) st) (elem q i) = Some (8, xs ! i)" if i: "i < Suc k" for i
  proof (cases "i = k")
    case True
    then show ?thesis unfolding step using v by simp
  next
    case False
    then show ?thesis unfolding step using IH(3) i elem_no_overlap [OF assms(2), of k i] hi assms(7,8) Suc.prems
      by (intro put_other) auto
  qed
  ultimately show ?case by blast
qed

lemma grow_ok:
  assumes "vec_at inv lo hi st0 v xs L st" "length xs = vec_cap v" "length xs < cap" "cap \<le> 2 * length xs + 4" "cap < 2 ^ 60"
  shows "ends AO (u64_grow AO v cap st) (\<lambda>(p, st'). vec_at inv lo hi st0 (v\<lparr>vec_ptr := p, vec_cap := cap\<rparr>) xs L st')"
proof (cases "vec_cap v = 0")
  case True
  have i: "inv (pg_heap st) L" using assms(1) True by (simp add: vec_at_def)
  have g: "good_layout (u64_array cap)" using assms(3,5) by (intro good_u64_array) simp_all
  show ?thesis unfolding u64_grow_def
    by (rule ends_bind [OF alloc_ok [OF i g]]) (use True assms in \<open>auto simp: vec_at_def intro: kept_trans\<close>)
next
  case False
  let ?old = "(vec_ptr v, u64_array (vec_cap v))"
  have v: "inv (pg_heap st) (add_mset ?old L)" "block_ok lo hi ?old" "\<forall>i < vec_cap v. pg_cells st (elem (vec_ptr v) i) = Some (8, xs ! i)"
      "kept L st0 st"
    using assms(1,2) False by (auto simp: vec_at_def)
  have g: "good_layout (u64_array cap)" using assms(3,5) by (intro good_u64_array) simp_all
  have cap: "vec_cap v \<le> cap" "vec_cap v < 2 ^ 60" using assms(2,3,5) by simp_all
  show ?thesis unfolding u64_grow_def
  proof (rule ends_bind [OF alloc_ok [OF v(1) g]], clarsimp simp: False)
    fix p st1 assume 1: "block_ok lo hi (p, u64_array cap)" "disjoint_blocks (p, u64_array cap) ?old"
      "\<forall>c \<in># L. disjoint_blocks (p, u64_array cap) c"
      "inv (pg_heap st1) (add_mset (p, u64_array cap) (add_mset ?old L))" "kept (add_mset ?old L) st st1"
    let ?st2 = "copy_elems AO (vec_ptr v) p (vec_cap v) st1"
    have "\<forall>i < vec_cap v. pg_cells st1 (elem (vec_ptr v) i) = Some (8, xs ! i)"
      using v(3) elem_in(2) [OF v(2) _ cap(2) inv_hi [OF v(1)]] by (auto intro!: keptD [OF 1(5)])
    note c = copy_ok [OF 1(4,1) v(2) _ _ order_refl cap(1) assms(5) this, simplified, OF conjI [OF 1(2,3)]]
    then have "inv (pg_heap ?st2) (add_mset ?old (add_mset (p, u64_array cap) L))" by (simp add: add_mset_commute)
    then obtain st3 where 3: "pg_dealloc AO (vec_ptr v) (u64_array (vec_cap v)) ?st2 = Inr st3"
        "inv (pg_heap st3) (add_mset (p, u64_array cap) L)" "kept (add_mset (p, u64_array cap) L) ?st2 st3"
      using dealloc_ok by blast
    have "pg_cells st3 (elem p i) = Some (8, xs ! i)" if "i < vec_cap v" for i
      using c that elem_in(2) [OF 1(1) _ assms(5) inv_hi [OF v(1)], of i] cap(1) by (intro keptD [OF 3(3)]) auto
    moreover have "kept L st0 st3"
      using kept_trans [OF v(4) kept_trans [OF kept_mono [OF 1(5)] kept_trans [OF kept_mono kept_mono [OF 3(3)]]]] c by blast
    ultimately have "vec_at inv lo hi st0 (v\<lparr>vec_ptr := p, vec_cap := cap\<rparr>) xs L st3"
      using assms 1(1,3) 3(2) by (auto simp: vec_at_def)
    then show "ends AO (obind (Some (pg_dealloc AO (vec_ptr v) (u64_array (vec_cap v)) ?st2)) (\<lambda>st. Some (Inr (p, st))))
      (\<lambda>(p, st'). vec_at inv lo hi st0 (v\<lparr>vec_ptr := p, vec_cap := cap\<rparr>) xs L st')"
      using 3(1) by simp
  qed
qed

lemma write_ok:
  assumes "vec_at inv lo hi st0 v xs L st" "length xs < vec_cap v" "vec_cap v < 2 ^ 60"
  shows "vec_at inv lo hi st0 (v\<lparr>vec_len := vec_len v + 1\<rparr>) (xs @ [x]) L (pg_write AO (elem (vec_ptr v) (vec_len v)) 8 x st)"
proof -
  let ?b = "(vec_ptr v, u64_array (vec_cap v))" and ?st = "pg_write AO (elem (vec_ptr v) (vec_len v)) 8 x st"
  have v: "vec_len v = length xs" "inv (pg_heap st) (add_mset ?b L)" "block_ok lo hi ?b"
      "\<forall>i < length xs. pg_cells st (elem (vec_ptr v) i) = Some (8, xs ! i)" "kept L st0 st" "\<forall>c \<in># L. disjoint_blocks ?b c"
    using assms(1,2) by (auto simp: vec_at_def)
  note e = elem_in(2) [OF v(3) assms(2,3) inv_hi [OF v(2)]]
  have "kept L st0 ?st" unfolding pg_write_def v(1) by (rule kept_trans [OF v(5) put_kept [OF v(6) e]])
  moreover have "inv (pg_heap ?st) (add_mset ?b L)" unfolding pg_write_def v(1)
    by (rule put_inv [OF v(2) _ e]) simp
  moreover have "pg_cells ?st (elem (vec_ptr v) i) = Some (8, (xs @ [x]) ! i)" if i: "i < Suc (length xs)" for i
  proof (cases "i = length xs")
    case True
    then show ?thesis by (simp add: pg_write_def v(1))
  next
    case False
    then have "\<not> overlap (elem (vec_ptr v) (length xs)) 8 (elem (vec_ptr v) i) 8"
      using i assms(2) by (intro elem_no_overlap [OF v(3) assms(2) _ _ assms(3) inv_hi [OF v(2)]]) simp_all
    then show ?thesis using False i v(4) unfolding pg_write_def v(1) by (intro put_other) (auto simp: nth_append)
  qed
  ultimately show ?thesis using assms v by (auto simp: vec_at_def)
qed

lemma push_ok:
  assumes "vec_at inv lo hi st0 v xs L st" "length xs < 2 ^ 50"
  shows "ends AO (u64_push AO v x st) (\<lambda>(v', st'). vec_at inv lo hi st0 v' (xs @ [x]) L st')"
proof -
  let ?cap = "max (max (2 * vec_cap v) (vec_len v + 1)) 4"
  have v: "vec_len v = length xs" "length xs \<le> vec_cap v" "vec_cap v \<le> 2 * length xs + 4" using assms(1) by (simp_all add: vec_at_def)
  have "ends AO (if vec_len v < vec_cap v then Some (Inr (v, st))
      else let cap = ?cap in obind (u64_grow AO v cap st) (\<lambda>(p, st). Some (Inr (v\<lparr>vec_ptr := p, vec_cap := cap\<rparr>, st))))
    (\<lambda>(v', st'). vec_at inv lo hi st0 v' xs L st' \<and> length xs < vec_cap v' \<and> vec_cap v' < 2 ^ 60)"
  proof (cases "vec_len v < vec_cap v")
    case True
    then show ?thesis using assms v by simp
  next
    case False
    then have c: "length xs = vec_cap v" "length xs < ?cap" "?cap \<le> 2 * length xs + 4" "?cap < 2 ^ 60" using v assms(2) by auto
    have "ends AO (obind (u64_grow AO v ?cap st) (\<lambda>(p, st). Some (Inr (v\<lparr>vec_ptr := p, vec_cap := ?cap\<rparr>, st))))
        (\<lambda>(v', st'). vec_at inv lo hi st0 v' xs L st' \<and> length xs < vec_cap v' \<and> vec_cap v' < 2 ^ 60)"
      by (rule ends_bind [OF grow_ok [OF assms(1) c]]) (use c in auto)
    then show ?thesis using False by (simp add: Let_def)
  qed
  then show ?thesis unfolding u64_push_def by (rule ends_bind) (auto intro: write_ok [simplified])
qed

lemma pushes_ok:
  assumes "vec_at inv lo hi st0 v xs L st" "length xs + length ys < 2 ^ 50"
  shows "ends AO (u64_pushes AO ys v st) (\<lambda>(v', st'). vec_at inv lo hi st0 v' (xs @ ys) L st')"
  using assms
proof (induction ys arbitrary: v xs st)
  case (Cons y ys)
  show ?case unfolding u64_pushes.simps
  proof (rule ends_bind [OF push_ok [OF Cons.prems(1)]], goal_cases)
    case 1
    then show ?case using Cons.prems(2) by simp
  next
    case (2 r)
    then show ?case using Cons.IH [of "fst r" "xs @ [y]" "snd r"] Cons.prems(2) by (cases r) simp
  qed
qed simp

lemma sum_ok:
  assumes "\<forall>i < n. pg_read st (elem p i) = Inr (word_of_nat i)" "n < 2 ^ 20"
  shows "rfold (\<lambda>i acc. rbind (pg_read st (elem p i)) (\<lambda>x. uadd acc x)) [0..<n] 0 = Inr (word_of_nat (n * (n - 1) div 2))"
  using assms
proof (induction n)
  case (Suc n)
  have e: "Suc n * n div 2 = n * (n - 1) div 2 + n" by (cases n) (simp_all add: algebra_simps)
  have b: "n * (n - 1) div 2 + n < 2 ^ 64"
  proof -
    have "n * (n - 1) \<le> 2 ^ 20 * 2 ^ 20" using Suc.prems(2) by (intro mult_le_mono) simp_all
    then show ?thesis using Suc.prems(2) by simp
  qed
  then have "unat (word_of_nat (n * (n - 1) div 2 + n) :: u64) = unat (word_of_nat (n * (n - 1) div 2) :: u64) + unat (word_of_nat n :: u64)"
    by (simp only: unat_word_of_nat64)
  then have "uadd (word_of_nat (n * (n - 1) div 2)) (word_of_nat n) = Inr (word_of_nat (n * (n - 1) div 2 + n))"
    unfolding uadd_eq_Inr .
  then show ?case using Suc e by (simp add: rfold_append)
qed simp

lemma simple_allocation_served:
  assumes "inv (pg_heap st) L" "new_box AO i32_layout 41 st = Some (Inr (p, st1))" "new_box AO i32_layout 13 st1 = Some (Inr (q, st2))"
  shows "\<exists>st'. simple_allocation AO st = Some (Inr st')"
proof -
  have 1: "inv (pg_heap st1) (add_mset (p, i32_layout) L)" "pg_cells st1 p = Some (4, 41)"
    using new_box_ok [OF assms(1) good_i32(1), of 41] assms(2) good_i32(2) by simp_all
  have 2: "inv (pg_heap st2) (add_mset (q, i32_layout) (add_mset (p, i32_layout) L))" "pg_cells st2 q = Some (4, 13)"
      "kept (add_mset (p, i32_layout) L) st1 st2"
    using new_box_ok [OF 1(1) good_i32(1), of 13] assms(3) good_i32(2) by simp_all
  have "in_block (p, i32_layout) p 4" using good_i32(2) by (simp add: in_block_def block_defs)
  then have "pg_cells st2 p = Some (4, 41)" by (intro keptD [OF 2(3) _ _ 1(2)]) simp_all
  moreover obtain st3 where 3: "pg_dealloc AO q i32_layout st2 = Inr st3" "inv (pg_heap st3) (add_mset (p, i32_layout) L)"
    using dealloc_ok [OF 2(1)] by blast
  ultimately show ?thesis using assms(2,3) 2(2) dealloc_ok [OF 3(2)]
    by (auto simp: simple_allocation_def assert_ok)
qed

lemma client_run_inv: "heap_run (ao_alloc AO) (ao_dealloc AO) wr s0 s L \<Longrightarrow> inv s0 {#} \<Longrightarrow> inv s L"
  by (rule run_inv)

lemma large_ok:
  assumes "inv (pg_heap st) L"
  shows "ends AO (large_and_multiple_allocations AO st) (\<lambda>st'. inv (pg_heap st') L \<and> kept L st st')"
proof -
  let ?xs = "map word_of_nat [0..<1000] :: u64 list"
  have 0: "vec_at inv lo hi st (vec_new\<lparr>vec_ptr := 8\<rparr>) [] L st" using assms by (simp add: vec_at_def vec_new_def)
  have "ends AO (u64_pushes AO ?xs (vec_new\<lparr>vec_ptr := 8\<rparr>) st) (\<lambda>(v', st'). vec_at inv lo hi st v' ([] @ ?xs) L st')"
    by (rule pushes_ok [OF 0]) simp
  then show ?thesis unfolding large_and_multiple_allocations_def Let_def
  proof (rule ends_bind, goal_cases)
    case (1 r)
    obtain v st1 where r: "r = (v, st1)" by (cases r)
    have v: "vec_len v = 1000" "vec_cap v \<noteq> 0" "inv (pg_heap st1) (add_mset (vec_ptr v, u64_array (vec_cap v)) L)"
        "kept L st st1" "\<forall>i < 1000. pg_read st1 (elem (vec_ptr v) i) = Inr (word_of_nat i)"
      using 1 by (auto simp: r vec_at_def pg_read_def split: if_splits)
    have "u64_sum v st1 = Inr 499500" using sum_ok [OF v(5)] unfolding u64_sum_def v(1) by simp
    moreover obtain st2 where "pg_dealloc AO (vec_ptr v) (u64_array (vec_cap v)) st1 = Inr st2" "inv (pg_heap st2) L" "kept L st st2"
      using dealloc_ok [OF v(3)] kept_trans [OF v(4)] by blast
    moreover have "(word_of_nat 1000 - 1) * word_of_nat 1000 div 2 = (499500 :: u64)" by simp
    ultimately show ?case using v(2) by (simp add: r)
  qed
qed

end

section \<open>The kernel's allocator\<close>

text \<open>A fallback heap, and the kernel's allocator over it, as the program sees them.\<close>

definition heap_client :: "'h heap_ops \<Rightarrow> (usize \<Rightarrow> nat \<Rightarrow> 'h \<Rightarrow> 'h) \<Rightarrow> ('h \<Rightarrow> 'h \<Rightarrow> usize \<Rightarrow> nat \<Rightarrow> bool) \<Rightarrow> 'h allocator_ops" where
  "heap_client H hstore hdirty =
     \<lparr>ao_alloc = heap_alloc H, ao_dealloc = hp_deallocate H, ao_store = hstore, ao_dirty = hdirty\<rparr>"

definition fsb_client ::
  "'h heap_ops \<Rightarrow> (usize \<Rightarrow> nat \<Rightarrow> 'h \<Rightarrow> 'h) \<Rightarrow> ('h \<Rightarrow> 'h \<Rightarrow> usize \<Rightarrow> nat \<Rightarrow> bool) \<Rightarrow> 'h fsb_allocator allocator_ops" where
  "fsb_client H hstore hdirty =
     \<lparr>ao_alloc = fsb_alloc H, ao_dealloc = fsb_dealloc H,
      ao_store = \<lambda>a w s. s\<lparr>fs_fallback := hstore a w (fs_fallback s),
        fs_mem := \<lambda>x. if overlap a w x 8 then None else fs_mem s x\<rparr>,
      ao_dirty = \<lambda>s s' a w. (\<exists>x. fs_mem s' x \<noteq> fs_mem s x \<and> overlap a w x 8) \<or> hdirty (fs_fallback s) (fs_fallback s') a w\<rparr>"

context quiet_fallback
begin

lemma fsb_quiet_alloc:
  "quiet_alloc (fsb_alloc H) (fsb_dealloc H) (fsb_wr hwr) (fsb_inv hinv lo hi) lo hi (fsb_wrote hwrote)"
  by (rule fsb_quiet.quiet_alloc_axioms)

end

lemma fsb_store_wr:
  assumes "fsb_inv hinv lo hi s L" "b \<in># L" "in_block b a w"
    and "\<And>h M c. hinv h M \<Longrightarrow> c \<in># M \<Longrightarrow> in_block c a w \<Longrightarrow> hwr M h (hstore a w h)"
  shows "fsb_wr hwr L s (s\<lparr>fs_fallback := hstore a w (fs_fallback s),
    fs_mem := \<lambda>x. if overlap a w x 8 then None else fs_mem s x\<rparr>)"
proof -
  obtain Ls where Ls: "fsb_lists s Ls" "hinv (fs_fallback s) (held L Ls)" "good_layout (snd b)"
    using assms(1,2) by (auto simp: fsb_inv_def)
  have "fall_block b \<in># held L Ls" using assms(2) by (simp add: held_def)
  moreover have "in_block (fall_block b) a w"
    using assms(3) fall_block_bounds [OF Ls(3)] by (simp add: in_block_def)
  ultimately have "hwr (held L Ls) (fs_fallback s) (hstore a w (fs_fallback s))" by (rule assms(4) [OF Ls(2)])
  then show ?thesis using Ls(1) assms(2,3) by (fastforce simp: fsb_wr_def overlap_def in_block_def)
qed

lemma fsb_client_contract:
  assumes "alloc_client (heap_client H hstore hdirty) hwr hinv lo hi hwrote"
  shows "alloc_client (fsb_client H hstore hdirty) (fsb_wr hwr) (fsb_inv hinv lo hi) lo hi (fsb_wrote hwrote)"
proof -
  have "quiet_fallback H hwr hinv lo hi hwrote"
    using alloc_client.axioms(1) [OF assms] by (simp add: quiet_fallback_def heap_client_def)
  then have q: "quiet_alloc (fsb_alloc H) (fsb_dealloc H) (fsb_wr hwr) (fsb_inv hinv lo hi) lo hi (fsb_wrote hwrote)"
    by (rule quiet_fallback.fsb_quiet_alloc)
  note S = alloc_client.store_wr [OF assms, simplified heap_client_def, simplified]
    and D = alloc_client.dirty_wrote [OF assms, simplified heap_client_def, simplified]
  show ?thesis
  proof (intro alloc_client.intro alloc_client_axioms.intro, goal_cases)
    case 1
    show ?case using q by (simp add: fsb_client_def)
  next
    case (2 s L b a w)
    then show ?case using fsb_store_wr [of hinv lo hi s L b a w hwr hstore, OF _ _ _ S] by (simp add: fsb_client_def)
  next
    case (3 s s' a w)
    then show ?case using D [of "fs_fallback s" "fs_fallback s'" a w] by (auto simp: fsb_client_def fsb_wrote_def)
  next
    case (4 s L)
    then show ?case using alloc_client.inv_hi [OF assms] by (auto simp: fsb_inv_def)
  qed
qed

text \<open>The linked-list allocator keeps its contract with the program, and so does the kernel's allocator over it.\<close>

definition ll_store :: "usize \<Rightarrow> nat \<Rightarrow> ll_allocator \<Rightarrow> ll_allocator" where
  "ll_store a w h = h\<lparr>ll_mem := \<lambda>x. if overlap a w x 16 then None else ll_mem h x\<rparr>"

definition ll_dirty :: "ll_allocator \<Rightarrow> ll_allocator \<Rightarrow> usize \<Rightarrow> nat \<Rightarrow> bool" where
  "ll_dirty h h' a w = (\<exists>x. ll_mem h' x \<noteq> ll_mem h x \<and> overlap a w x 16)"

interpretation ll_client: alloc_client "heap_client ll_heap_ops ll_store ll_dirty" ll_wr "ll_inv lo hi" lo hi ll_wrote
  for lo hi
proof (intro alloc_client.intro alloc_client_axioms.intro, goal_cases)
  case 1
  show ?case using fsb_ll_quiet.hq.quiet_alloc_axioms by (simp add: heap_client_def)
next
  case (2 s L b a w)
  then show ?case by (auto simp: heap_client_def ll_wr_def ll_store_def overlap_def in_block_def)
next
  case (3 s s' a w)
  then show ?case by (auto simp: heap_client_def ll_dirty_def ll_wrote_def)
next
  case (4 s L)
  then show ?case by (auto simp: ll_inv_def ll_inv_with_def)
qed

interpretation fsb_ll_client: alloc_client "fsb_client ll_heap_ops ll_store ll_dirty" "fsb_wr ll_wr"
  "fsb_inv (ll_inv lo hi) lo hi" lo hi "fsb_wrote ll_wrote"
  for lo hi
  by (rule fsb_client_contract [OF ll_client.alloc_client_axioms])

section \<open>One test run, for the witness\<close>

abbreviation (input) ex_client :: "ll_allocator fsb_allocator allocator_ops" where
  "ex_client \<equiv> fsb_client ll_heap_ops ll_store ll_dirty"

lemma ll_single_store: "ll_single e a h \<Longrightarrow> \<not> overlap b w a 16 \<Longrightarrow> ll_single e a (ll_store b w h)"
  by (simp add: ll_single_def ll_store_def)

text \<open>A box of four bytes from a heap whose lists are empty.\<close>

lemma ex_box:
  assumes "pg_heap st = \<lparr>fs_list_heads = replicate 9 None, fs_fallback = h, fs_mem = Map.empty\<rparr>"
    and "ll_single 5120 a h" "unat a + 32 \<le> 5120" "a \<noteq> 0" "8 dvd unat a"
  shows "\<exists>st' h'. new_box ex_client i32_layout v st = Some (Inr (a, st')) \<and>
    pg_heap st' = \<lparr>fs_list_heads = replicate 9 None, fs_fallback = h', fs_mem = Map.empty\<rparr> \<and> ll_single 5120 (a + 16) h'"
proof -
  have sa: "size_align (block_layout 0) = Inr (16, 8)" using size_align_block [of 0] by (simp add: BLOCK_SIZES_def)
  have "align_up a 8 = Inr a" using assms(3,5) by (simp add: align_up_aligned)
  from ll_single_alloc [OF assms(2) sa this] assms(3,5) obtain h' where
    h': "ll_alloc h (block_layout 0) = Some (Inr (a, h'))" "ll_single 5120 (a + 16) h'" by auto
  have f: "fall_layout i32_layout = block_layout 0" by (simp add: fall_layout_def list_index_small)
  have l: "fsb_lists (pg_heap st) (replicate 9 [])" by (simp add: assms(1) fsb_lists_def)
  have al: "fsb_alloc ll_heap_ops (pg_heap st) i32_layout = Some (Inr (a, (pg_heap st)\<lparr>fs_fallback := h'\<rparr>))"
    using fsb_alloc_miss [OF l, of i32_layout ll_heap_ops] h'(1)
    by (simp add: f fallback_alloc_eq heap_alloc_ll list_index_small assms(1))
  have "unat (a + 16) = unat a + 16" using assms(3) by (subst unat_add64) simp_all
  then have "ll_single 5120 (a + 16) (ll_store a 4 h')"
    by (intro ll_single_store [OF h'(2)]) (simp add: overlap_def)
  then show ?thesis using al assms(1,4)
    by (simp add: new_box_def pg_alloc_def fsb_client_def null_mut_def after_call_def pg_write_def pg_put_def i32_layout_def cong: if_cong)
qed

section \<open>Property\<close>



end
