(* ===== verification/Test_Binaries.thy ===== *)
theory Test_Binaries
  imports Boot Heap_Tests
begin

text \<open>
  The binaries under \<^verbatim>\<open>tests\<close>, each up to its endless loop or the exit of the emulator, and what the
  processor does with an exception: it reads the tables that \<open>init\<close> has loaded. The tests of
  \<^verbatim>\<open>tests/heap_allocation.rs\<close> are in \<open>Heap_Tests\<close>; here is its \<open>main\<close>.
\<close>

section \<open>Delivering an exception\<close>

text \<open>
  How the processor reads its tables: the gate of a vector, the segment that the task register
  selects, and the interrupt stack table in it.
\<close>

record ('hd, 'gdt, 'sel, 'tss, 'idt, 'v) cpu_reads =
  cr_gate :: "'idt \<Rightarrow> nat \<rightharpoonup> 'hd \<times> u16 option"
  cr_tss :: "'gdt \<Rightarrow> 'sel \<rightharpoonup> 'tss"
  cr_ist :: "'tss \<Rightarrow> nat \<rightharpoonup> 'v"

text \<open>
  A gate works when it is present and the stack it runs on can be pushed to: the current one, or
  that of its stack index. The result is the handler and the top of its own stack, if it has one.
\<close>

definition gate_target ::
  "('hd, 'gdt, 'sel, 'tss, 'idt, 'v) cpu_reads \<Rightarrow> ('gdt, 'sel, 'idt) cpu \<Rightarrow> bool \<Rightarrow> nat \<rightharpoonup> 'hd \<times> 'v option" where
  "gate_target R c stack_usable n =
     (case cpu_idtr c of None \<Rightarrow> None | Some idt \<Rightarrow>
        (case cr_gate R idt n of
           None \<Rightarrow> None
         | Some (h, None) \<Rightarrow> if stack_usable then Some (h, None) else None
         | Some (h, Some k) \<Rightarrow>
             (case (cpu_gdtr c, cpu_tr c) of
                (Some gdt, Some sel) \<Rightarrow>
                  (case cr_tss R gdt sel of
                     None \<Rightarrow> None
                   | Some tss \<Rightarrow> map_option (\<lambda>v. (h, Some v)) (cr_ist R tss (unat k)))
              | _ \<Rightarrow> None)))"

text \<open>An exception that cannot be delivered is a double fault; if that cannot be delivered
  either the processor resets: \<open>None\<close>.\<close>

definition deliver ::
  "('hd, 'gdt, 'sel, 'tss, 'idt, 'v) cpu_reads \<Rightarrow> ('gdt, 'sel, 'idt) cpu \<Rightarrow> bool \<Rightarrow> nat \<rightharpoonup> 'hd \<times> 'v option" where
  "deliver R c stack_usable n =
     (case gate_target R c stack_usable n of Some x \<Rightarrow> Some x | None \<Rightarrow> gate_target R c stack_usable 8)"

text \<open>The processor reads the tables as the crate describes them.\<close>

definition reads_spec ::
  "('v, 'tss, 'd, 'gdt, 'sel) gdt_ops \<Rightarrow> ('gdt \<Rightarrow> 'sel \<rightharpoonup> 'd) \<Rightarrow> ('hd, 'gdt, 'sel, 'tss, 'idt, 'v) cpu_reads \<Rightarrow> bool" where
  "reads_spec G descriptor R =
     (\<forall>g k t. descriptor g k = Some (tss_segment G t) \<longrightarrow> cr_tss R g k = Some t)"

section \<open>should_panic\<close>

definition serial_println :: "bytes \<Rightarrow> 'w test_state \<Rightarrow> 'w test_state" where
  "serial_println s st = serial_out (s @ [0x0a]) st"

definition should_fail :: "'w test_state \<Rightarrow> panic \<times> 'w test_state + 'w test_state" where
  "should_fail st =
     (let st = serial_out (ascii ''should_panic::should_fail()...'' @ [0x09]) st in
      case rassert ((0 :: int) = 1) of Inl e \<Rightarrow> Inl (e, st) | Inr _ \<Rightarrow> Inr st)"

definition should_panic_handler :: "panic \<Rightarrow> 'w test_state \<Rightarrow> 'w test_state" where
  "should_panic_handler info st = exit_qemu Success (serial_println (ascii ''[ok]'') st)"

definition should_panic_start :: "'w test_state \<Rightarrow> 'w test_state" where
  "should_panic_start st =
     (case should_fail st of
        Inl (e, st) \<Rightarrow> should_panic_handler e st
      | Inr st \<Rightarrow> exit_qemu Failure (serial_println (ascii ''[test did not panic]'') st))"

section \<open>basic_boot\<close>

definition test_println :: "'c volatile_ops \<Rightarrow> 'c writer \<Rightarrow> 'c writer result" where
  "test_println V w = println V [ascii ''test_println output''] w"

definition basic_boot_start :: "(panic \<Rightarrow> bytes) \<Rightarrow> 'c volatile_ops \<Rightarrow> 'c writer test_state \<Rightarrow> 'c writer test_state" where
  "basic_boot_start fmt_info V st =
     (case test_runner [\<lparr>tc_name = ascii ''basic_boot::test_println'', tc_fun = test_println V\<rparr>] st of
        Inl (e, st') \<Rightarrow> test_panic_handler fmt_info e st'
      | Inr st' \<Rightarrow> st')"

section \<open>stack_overflow\<close>

datatype test_handler = TestDoubleFaultHandler

definition TEST_IDT_new :: "(test_handler, 'idt) idt_ops \<Rightarrow> 'idt" where
  "TEST_IDT_new I = idt_set_double_fault I TestDoubleFaultHandler DOUBLE_FAULT_IST_INDEX (idt_new I)"

text \<open>Loading replaces the table that \<open>init\<close> has loaded.\<close>

definition init_test_idt :: "(test_handler, 'idt) idt_ops \<Rightarrow> ('gdt, 'sel, 'idt0) cpu \<Rightarrow> ('gdt, 'sel, 'idt) cpu" where
  "init_test_idt I c = \<lparr>cpu_gdtr = cpu_gdtr c, cpu_cs = cpu_cs c, cpu_tr = cpu_tr c, cpu_idtr = Some (TEST_IDT_new I)\<rparr>"

fun test_handler_run :: "test_handler \<Rightarrow> 'w test_state \<Rightarrow> 'w test_state" where
  "test_handler_run TestDoubleFaultHandler st = exit_qemu Success (serial_println (ascii ''[ok]'') st)"

text \<open>
  The recursion ends in a page fault, vector 14, on a stack that is used up. The result is \<open>None\<close>
  when the processor resets.
\<close>

definition stack_overflow_start ::
  "(panic \<Rightarrow> bytes) \<Rightarrow> ('v, 'tss, 'd, 'gdt, 'sel) gdt_ops \<Rightarrow> (handler, 'idt0) idt_ops \<Rightarrow> (test_handler, 'idt) idt_ops \<Rightarrow>
    (test_handler, 'gdt, 'sel, 'tss, 'idt, 'v) cpu_reads \<Rightarrow> u64 \<Rightarrow> ('gdt, 'sel, 'idt0) cpu \<Rightarrow>
    'w test_state \<Rightarrow> 'w test_state option" where
  "stack_overflow_start fmt_info G I IT R STACK c st =
     (let st = serial_out (ascii ''stack_overflow::stack_overflow...'' @ [0x09]) st in
      case init_tables G I STACK c of
        Inl e \<Rightarrow> Some (test_panic_handler fmt_info e st)
      | Inr c \<Rightarrow> map_option (\<lambda>(h, _). test_handler_run h st) (deliver R (init_test_idt IT c) False 14))"

section \<open>heap_allocation\<close>

text \<open>
  \<open>test_runner\<close> over tests that may not return. The world of the tests is the program with its heap.
\<close>

fun run_heap_tests ::
  "(bytes \<times> ('w \<Rightarrow> 'w result option)) list \<Rightarrow> 'w test_state \<Rightarrow> (panic \<times> 'w test_state + 'w test_state) option" where
  "run_heap_tests [] st = Some (Inr st)"
| "run_heap_tests ((name, test) # tests) st =
     (let st = serial_out (name @ ascii ''...'' @ [0x09]) st in
      case test (ts_world st) of
        None \<Rightarrow> None
      | Some (Inl e) \<Rightarrow> Some (Inl (e, st))
      | Some (Inr w) \<Rightarrow> run_heap_tests tests (serial_out (ascii ''[ok]'' @ [0x0a]) (st\<lparr>ts_world := w\<rparr>)))"

definition heap_allocation_tests :: "'s allocator_ops \<Rightarrow> (bytes \<times> ('s program \<Rightarrow> 's program result option)) list" where
  "heap_allocation_tests AO =
     [(ascii ''heap_allocation::simple_allocation'', simple_allocation AO),
      (ascii ''heap_allocation::large_and_multiple_allocations'', large_and_multiple_allocations AO),
      (ascii ''heap_allocation::many_boxes'', many_boxes_checked AO)]"

text \<open>The generated \<open>test_main\<close> passes the tests to \<open>test_runner\<close> in an order of its own: \<open>tests\<close>.\<close>

definition heap_allocation_main ::
  "(panic \<Rightarrow> bytes) \<Rightarrow> ('v1, 'tss, 'd, 'gdt, 'sel) gdt_ops \<Rightarrow> (handler, 'idt) idt_ops \<Rightarrow> u64 \<Rightarrow> ('v, 'pg) page_ops \<Rightarrow> ('v, 'ix) virt_ops \<Rightarrow>
    ('p, 'f) phys_ops \<Rightarrow> 'f \<Rightarrow> (u64 \<Rightarrow> 'v \<Rightarrow> 'mp) \<Rightarrow> ('mp, 'pg, 'f, 'fl, 'm boot_info_frame_allocator, 'er) mapper_ops \<Rightarrow>
    ('m, 'r, 't) memory_map_ops \<Rightarrow> 'h heap_ops \<Rightarrow>
    (bytes \<times> ('h fsb_allocator program \<Rightarrow> 'h fsb_allocator program result option)) list \<Rightarrow>
    'm boot_info \<Rightarrow> ('gdt, 'sel, 'idt) cpu \<Rightarrow> 'h fsb_allocator program test_state \<Rightarrow> 'h fsb_allocator program test_state option" where
  "heap_allocation_main fmt_info G I STACK PG VT PH cr3 offset_page_table_new MP MM H tests boot_info c st =
     (case heap_setup G I STACK PG VT PH cr3 offset_page_table_new MP MM H boot_info c (pg_heap (ts_world st)) of
        Inl e \<Rightarrow> Some (test_panic_handler fmt_info e st)
      | Inr (c, mapper, frame_allocator, ALLOCATOR) \<Rightarrow>
          (let st = serial_out (ascii ''Running '' @ decimal (length tests) @ ascii '' tests'' @ [0x0a])
                 (st\<lparr>ts_world := (ts_world st)\<lparr>pg_heap := ALLOCATOR\<rparr>\<rparr>) in
           case run_heap_tests tests st of
             None \<Rightarrow> None
           | Some (Inl (e, st)) \<Rightarrow> Some (test_panic_handler fmt_info e st)
           | Some (Inr st) \<Rightarrow> Some (exit_qemu Success st)))"

section \<open>Lemmas\<close>

lemma test_println_ok:
  assumes "volatile_spec V" "wf_writer w"
  shows "\<exists>w'. test_println V w = Inr w' \<and> wf_writer w'"
  using write_fmt_shows [OF assms(1) wf_shows [OF assms(2)]]
  by (auto simp: test_println_def println_def shows_terminal_def)

definition ok_lines :: "(bytes \<times> 't) list \<Rightarrow> bytes" where
  "ok_lines tests = concat (map (\<lambda>t. fst t @ ascii ''...'' @ [0x09] @ ascii ''[ok]'' @ [0x0a]) tests)"

lemma ok_lines_simps:
  "ok_lines [] = []"
  "ok_lines ((name, test) # tests) = name @ ascii ''...'' @ [0x09] @ ascii ''[ok]'' @ [0x0a] @ ok_lines tests"
  by (simp_all add: ok_lines_def)

lemma run_heap_tests_end:
  assumes "alloc_client AO wr hinv lo hi wrote" "hinv (pg_heap (ts_world st)) L" "set tests \<subseteq> set (heap_allocation_tests AO)"
  shows "(\<exists>e st'. run_heap_tests tests st = Some (Inl (e, st')) \<and> alloc_panic AO e) \<or>
    (\<exists>st'. run_heap_tests tests st = Some (Inr st') \<and> ts_exit_port st' = ts_exit_port st \<and>
      ts_serial st' = ts_serial st @ ok_lines tests)"
  using assms(2,3)
proof (induction tests arbitrary: st)
  case (Cons t tests)
  obtain name test where t: "t = (name, test)" by (cases t)
  have "ends AO (test (ts_world st)) (\<lambda>w. hinv (pg_heap w) L \<and> kept L (ts_world st) w)"
    using Cons.prems(2) alloc_client.simple_allocation_ok [OF assms(1) Cons.prems(1)]
      alloc_client.large_ok [OF assms(1) Cons.prems(1)] alloc_client.many_boxes_ok [OF assms(1) Cons.prems(1)]
    by (auto simp: t heap_allocation_tests_def many_boxes_checked_def)
  then show ?case
  proof (cases rule: ends_cases)
    case 1
    then show ?thesis by (simp add: t serial_out_def)
  next
    case (2 w)
    let ?st = "serial_out (ascii ''[ok]'' @ [0x0a]) ((serial_out (name @ ascii ''...'' @ [0x09]) st)\<lparr>ts_world := w\<rparr>)"
    have "run_heap_tests (t # tests) st = run_heap_tests tests ?st"
      using 2(1) by (simp add: t serial_out_def)
    moreover have "ts_serial ?st @ ok_lines tests = ts_serial st @ ok_lines (t # tests)"
      by (simp add: t serial_out_def ok_lines_simps)
    moreover have "ts_exit_port ?st = ts_exit_port st" by (simp add: serial_out_def)
    moreover have "hinv (pg_heap (ts_world ?st)) L" using 2(2) by (simp add: serial_out_def)
    note Cons.IH [OF this]
    ultimately show ?thesis using Cons.prems(2) by (simp only: list.simps set_simps insert_subset simp_thms)
  qed
qed (simp add: ok_lines_simps)

text \<open>The binary reports success, with a line for each test, unless the allocator panics.\<close>

lemma heap_allocation_reports:
  assumes "alloc_client (heap_client H hstore hdirty) hwr hinv lo hi hwrote"
    and "heap_setup G I STACK PG VT PH cr3 opt_new MP MM H b c (pg_heap (ts_world st)) = Inr (c', mp, fa, A)"
    and "fsb_inv hinv lo hi A {#}" "set tests \<subseteq> set (heap_allocation_tests (fsb_client H hstore hdirty))"
  shows "(\<exists>e st'. heap_allocation_main fmt_info G I STACK PG VT PH cr3 opt_new MP MM H tests b c st = Some (test_panic_handler fmt_info e st') \<and>
      alloc_panic (fsb_client H hstore hdirty) e) \<or>
    (\<exists>st'. heap_allocation_main fmt_info G I STACK PG VT PH cr3 opt_new MP MM H tests b c st = Some st' \<and>
      ts_exit_port st' = ts_exit_port st @ [0x10] \<and>
      ts_serial st' = ts_serial st @ ascii ''Running '' @ decimal (length tests) @ ascii '' tests'' @ [0x0a] @ ok_lines tests)"
proof -
  define s1 where "s1 = serial_out (ascii ''Running '' @ decimal (length tests) @ ascii '' tests'' @ [0x0a])
    (st\<lparr>ts_world := (ts_world st)\<lparr>pg_heap := A\<rparr>\<rparr>)"
  have m: "heap_allocation_main fmt_info G I STACK PG VT PH cr3 opt_new MP MM H tests b c st =
      (case run_heap_tests tests s1 of None \<Rightarrow> None
       | Some (Inl (e, st)) \<Rightarrow> Some (test_panic_handler fmt_info e st) | Some (Inr st) \<Rightarrow> Some (exit_qemu Success st))"
    unfolding heap_allocation_main_def s1_def assms(2) Let_def by simp
  have s1: "ts_exit_port s1 = ts_exit_port st" "pg_heap (ts_world s1) = A"
      "ts_serial s1 = ts_serial st @ ascii ''Running '' @ decimal (length tests) @ ascii '' tests'' @ [0x0a]"
    by (simp_all add: s1_def serial_out_def del: decimal.simps)
  have "fsb_inv hinv lo hi (pg_heap (ts_world s1)) {#}" using assms(3) s1(2) by simp
  from run_heap_tests_end [OF fsb_client_contract [OF assms(1)] this assms(4)] show ?thesis
  proof (elim disjE exE conjE)
    fix e st' assume "run_heap_tests tests s1 = Some (Inl (e, st'))" "alloc_panic (fsb_client H hstore hdirty) e"
    then show ?thesis by (intro disjI1 exI [of _ e] exI [of _ st']) (simp add: m)
  next
    fix st' assume "run_heap_tests tests s1 = Some (Inr st')" "ts_exit_port st' = ts_exit_port s1"
      "ts_serial st' = ts_serial s1 @ ok_lines tests"
    then show ?thesis
      by (intro disjI2 exI [of _ "exit_qemu Success st'"]) (simp add: m exit_qemu_def s1 del: decimal.simps)
  qed
qed

definition ex_reads ::
  "('hd, (nat \<rightharpoonup> u64) option list, nat, nat \<rightharpoonup> u64, nat \<rightharpoonup> 'hd \<times> u16 option, u64) cpu_reads" where
  "ex_reads = \<lparr>cr_gate = \<lambda>t. t, cr_tss = \<lambda>g k. if k < length g then g ! k else None, cr_ist = \<lambda>t. t\<rparr>"

abbreviation (input) ex_cpu :: "((nat \<rightharpoonup> u64) option list, nat, 'idt) cpu" where
  "ex_cpu \<equiv> \<lparr>cpu_gdtr = None, cpu_cs = None, cpu_tr = None, cpu_idtr = None\<rparr>"

lemma ex_reads_spec: "reads_spec ex_gdt (\<lambda>g s. if s < length g then Some (g ! s) else None) ex_reads"
  by (simp add: reads_spec_def ex_reads_def ex_gdt_def)

lemma ex_reads_tables: "tss_spec ex_gdt (\<lambda>v. v) (cr_ist ex_reads)" "idt_spec ex_idt (cr_gate ex_reads)"
  using ex_tss_spec ex_idt_spec by (simp_all add: ex_reads_def)

section \<open>Properties\<close>

text \<open>
  C10: after \<open>init\<close> no exception or interrupt resets the machine. One of the vectors with a handler
  runs it when the stack can be used; everything else, and every vector when the stack has
  overflowed, ends up in the double fault handler, on the stack that \<^verbatim>\<open>gdt.rs\<close> has reserved for it.
\<close>

theorem exceptions_never_reset:
  fixes R :: "(handler, 'gdt, 'sel, 'tss, 'idt, 'v) cpu_reads"
  assumes "tss_spec G va (cr_ist R)" "gdt_spec G descriptor used" "idt_spec I (cr_gate R)" "reads_spec G descriptor R"
    and "unat STACK + 20480 < 2 ^ 47"
  shows "\<exists>c' v. init_tables G I STACK c = Inr c' \<and> unat (va v) = unat STACK + 20480 \<and>
    (\<forall>stack_usable n. deliver R c' stack_usable n =
      Some (if stack_usable \<and> n = 3 then (BreakpointHandler, None)
        else if stack_usable \<and> n = 14 then (PageFaultHandler, None)
        else if stack_usable \<and> n = 32 then (TimerHandler, None)
        else if stack_usable \<and> n = 33 then (KeyboardHandler, None)
        else (DoubleFaultHandler, Some v)))"
proof -
  obtain g idt t v and s :: "'sel selectors" where c: "init_tables G I STACK c = Inr (c\<lparr>cpu_gdtr := Some g, cpu_cs := Some (code_selector s),
      cpu_tr := Some (tss_selector s), cpu_idtr := Some idt\<rparr>)" "descriptor g (tss_selector s) = Some (tss_segment G t)"
      "cr_gate R idt = idt_table" "cr_ist R t 0 = Some v" "unat (va v) = unat STACK + 20480"
    using init_tables_ok [OF assms(1-3,5), of c] by blast
  have "cr_tss R g (tss_selector s) = Some t" using assms(4) c(2) by (simp add: reads_spec_def)
  with c show ?thesis
    by (intro exI conjI) (auto simp: deliver_def gate_target_def idt_table_def)
qed

theorem exceptions_never_reset_witness:
  "\<exists>c' v. init_tables ex_gdt ex_idt 0x200000 ex_cpu = Inr c' \<and> deliver ex_reads c' False 14 = Some (DoubleFaultHandler, Some v)"
proof -
  have "unat (0x200000 :: u64) + 20480 < 2 ^ 47" by simp
  from exceptions_never_reset [OF ex_reads_tables(1) ex_gdt_spec ex_reads_tables(2) ex_reads_spec this, of ex_cpu]
  show ?thesis by fastforce
qed



end
