(* ===== verification/Spec2Isabelle.thy ===== *)
theory Spec2Isabelle
  imports Simple_Executor Console_Log Test_Binaries
begin

text \<open>
  Verification of the kernel in \<^verbatim>\<open>src/min-rust-os\<close>, a small operating system kernel for x86_64 in Rust.

  \<^bold>\<open>The program.\<close> The boot loader calls \<open>kernel_main\<close> (\<^verbatim>\<open>src/main.rs\<close>). It prints to the VGA text buffer
  (\<^verbatim>\<open>src/vga_buffer.rs\<close>), calls \<open>init\<close> (\<^verbatim>\<open>src/lib.rs\<close>), which loads the descriptor tables (\<^verbatim>\<open>src/gdt.rs\<close>,
  \<^verbatim>\<open>src/interrupts.rs\<close>) and enables interrupts, takes the page tables and the memory map over from the
  boot loader (\<^verbatim>\<open>src/memory.rs\<close>), maps and initialises the heap (\<^verbatim>\<open>src/allocator.rs\<close>) that one of three
  allocators manages (\<^verbatim>\<open>src/allocator/\<close>), and runs asynchronous tasks (\<^verbatim>\<open>src/task/\<close>) on an executor that
  halts the CPU while no task is ready. The keyboard interrupt puts scancodes into a queue and wakes
  the task that decodes and prints them. Test builds run \<open>test_runner\<close> instead and report over the
  serial port (\<^verbatim>\<open>src/serial.rs\<close>).

  \<^bold>\<open>Conventions\<close> (\<open>Prelude\<close>). Machine integers are words of their width; \<open>+\<close> and \<open>-\<close> of the source
  are \<open>uadd\<close> and \<open>usub\<close>, which panic on overflow as the dev profile does. Code that can panic gives
  \<open>'a result = panic + 'a\<close>, sequenced by \<open>rbind\<close>; code that may also not return gives an option of it,
  with \<open>None\<close> for not returning (\<open>partial_function\<close>, so that there is no fuel to choose). \<open>for\<close> loops
  are \<open>rfold\<close>. State is passed explicitly, with memory that the code writes nodes into as a map from
  addresses. Where interrupts can come between two statements, the code is a step relation.

  \<^bold>\<open>Third-party crates\<close> are parameters: records of operations, and a predicate for each that says
  what its documentation promises (\<open>fallback_heap\<close> for \<open>linked_list_allocator\<close>; \<open>phys_spec\<close>,
  \<open>page_spec\<close>, \<open>mapper_spec\<close>, \<open>tss_spec\<close>, \<open>gdt_spec\<close> and \<open>idt_spec\<close> for \<open>x86_64\<close>; \<open>volatile_spec\<close> for
  \<open>volatile\<close>; \<open>queue_spec\<close> for \<open>crossbeam-queue\<close>; \<open>once_spec\<close> for \<open>conquer-once\<close>; \<open>atomic_waker_spec\<close> for
  \<open>futures-util\<close>; \<open>serial_spec\<close> for \<open>uart_16550\<close>; \<open>pics_spec\<close> for \<open>pic8259\<close>). The witnesses instantiate
  all of them with concrete functions. The decoder of \<open>pc-keyboard\<close> is an arbitrary function.

  \<^bold>\<open>The theories.\<close>

  \<^item> \<open>Allocator\<close> (\<^verbatim>\<open>allocator.rs\<close>): \<open>align_up\<close>, the heap bounds, the dummy allocator, and the contract
    \<open>global_alloc\<close> that the three allocators are shown to keep: along every run of a program that
    requests and returns blocks (\<open>heap_run\<close>), the blocks it holds lie in the heap, are aligned and do
    not overlap.

  \<^item> \<open>Bump\<close>, \<open>Linked_List\<close>, \<open>Fixed_Size_Block\<close> (\<^verbatim>\<open>allocator/*.rs\<close>): state and operations of each, and
    that it keeps the contract. Also: the bump allocator takes the heap back when all blocks are
    returned; the linked list search ends and is first fit; block lists reuse memory; which
    operations can panic, and that one request that fits does. The block allocator is verified for
    every fallback heap that keeps the contract, and the linked list is one (\<open>fsb_ll\<close>).

  \<^item> \<open>Heap_Values\<close>: the requests that \<open>Box\<close>, \<open>Vec\<close> and \<open>Rc\<close> of the standard library make in \<open>kernel_main\<close>,
    and the addresses that the block allocator gives them on a fresh heap.

  \<^item> \<open>Heap_Integrity\<close>: the contract \<open>quiet_alloc\<close> extends \<open>global_alloc\<close>. What an allocator writes to the heap,
    its list nodes, lies outside of all blocks that the program holds. All three allocators keep it;
    the block allocator does over every fallback heap that does (\<open>quiet_fallback\<close>).

  \<^item> \<open>Heap_Tests\<close> (\<^verbatim>\<open>tests/heap_allocation.rs\<close>): programs that store values on the heap, over any allocator
    with the contract \<open>alloc_client\<close>, which adds the effect of the program's own writes. A vector that
    grows refines a list, and the values that the tests read back are those that they have stored.

  \<^item> \<open>Memory\<close> (\<^verbatim>\<open>memory.rs\<close>): the page table walk agrees with the hardware's; no frame is handed out
    twice or outside of usable memory. \<open>frame_contract\<close> is what mapping code relies on, and both
    frame allocators provide it (\<open>empty_frames\<close>, \<open>boot_frames\<close>).

  \<^item> \<open>Heap_Init\<close> (\<open>init_heap\<close> of \<^verbatim>\<open>allocator.rs\<close>): it maps the 25 pages of the heap to different fresh
    frames, or reports an error and leaves the allocator alone. With the allocator's contract, every
    byte of every block is mapped and writable.

  \<^item> \<open>Vga_Buffer\<close> (\<^verbatim>\<open>vga_buffer.rs\<close>): the writer refines an unbounded terminal of which the screen
    shows the last 25 rows, and never panics; two writers over one screen overwrite each other.

  \<^item> \<open>Task\<close>, \<open>Executor\<close>, \<open>Simple_Executor\<close> (\<^verbatim>\<open>task/mod.rs\<close>, \<^verbatim>\<open>task/executor.rs\<close>, \<^verbatim>\<open>task/simple_executor.rs\<close>):
    a task's future is a function from a waker and the world to its result. The executor polls in
    wake-up order and forgets finished tasks (\<open>ready_run\<close> is the specification); it returns when
    wake-ups are limited; and it never halts the CPU with a task in its queue, for every interleaving
    of interrupts with \<open>sleep_if_idle\<close>.

  \<^item> \<open>Keyboard\<close> (\<^verbatim>\<open>task/keyboard.rs\<close>): the scancode queue. \<open>poll_next\<close> is modelled twice, as a function
    and statement by statement (\<open>poll_next_steps\<close> relates them), and loses no wake-up.

  \<^item> \<open>Console\<close>, \<open>Gdt\<close>, \<open>Interrupts\<close> (\<open>_print\<close> of \<^verbatim>\<open>vga_buffer.rs\<close> and \<^verbatim>\<open>serial.rs\<close>, \<^verbatim>\<open>gdt.rs\<close>, \<^verbatim>\<open>interrupts.rs\<close>):
    code that prints or calls the allocator through its lock (\<open>Locked\<close>) and interrupt handlers as lists of statements, and a machine with an interrupt
    flag, spin locks, an interrupt controller and a stack of activations that runs them. The
    discipline \<open>locks_ok\<close> gives an invariant of the machine, from which deadlock freedom follows. The
    machine takes timer and keyboard interrupts at any point where the flag is set; exceptions occur
    between the calls of normal code, not inside of a print function.

  \<^item> \<open>Console_Log\<close>: the messages that the same machine prints. The screen shows whole messages only, those of
    normal code in program order with those of the handlers between them; a breakpoint prints its
    frame and execution resumes.

  \<^item> \<open>Kernel\<close> (\<^verbatim>\<open>lib.rs\<close>, and the tasks of \<^verbatim>\<open>main.rs\<close>): the tables that \<open>init\<close> installs, the verdict of the test
    runner, and the composition of executor, keyboard task and interrupts: what is typed is printed.

  \<^item> \<open>Boot\<close> (\<^verbatim>\<open>main.rs\<close>): \<open>kernel_main\<close> as the composition of all of the components, from the entry to
    \<open>executor.run()\<close>: its lines on the screen, the tables, the mapped heap, the values on it and the
    two tasks, or the panic of \<open>expect\<close>. Also the unused \<open>write_to_vga_unsafe\<close> and \<open>stack_overflow\<close>.

  \<^item> \<open>Test_Binaries\<close> (\<^verbatim>\<open>tests/*.rs\<close>): how the processor delivers an exception through the tables (\<open>deliver\<close>;
    the machine never resets), and each test binary with its serial output and exit code.

  \<^bold>\<open>Not modelled.\<close> The blocks that the executor's own collections (\<open>BTreeMap\<close>, \<open>Arc\<close>) request from the heap:
  the layouts are those of the standard library's internal nodes. Code after \<open>executor.run()\<close> in
  \<open>kernel_main\<close>, which is never reached. The entry macro of the boot loader, and the generated
  \<open>test_main\<close>, whose order of the tests is a parameter. Real time, caches and the translation
  lookaside buffer are outside of the model; one processor runs the code, as the kernel starts no other.
\<close>

end
